(* ===== verification/Remote_Prelude.thy ===== *)
theory Remote_Prelude
  imports Main "HOL-Library.Word"
begin

text \<open>
  Shared vocabulary of the development: the machine types of the Rust code, its checked and
  saturating arithmetic, big-endian byte strings, and the result type.

  \<^item> \<open>u8\<close>, \<open>u16\<close>, \<open>u32\<close>, \<open>u64\<close> are words of that width. A Rust \<open>usize\<close> only ever holds lengths
    and counts of in-memory buffers here, and is a \<open>nat\<close>.
  \<^item> A fixed array \<open>[u8; 16]\<close> or \<open>[u8; 32]\<close> is the 128-bit or 256-bit word whose big-endian bytes
    are the array, so that its length is part of its type, as it is in Rust.
  \<^item> \<open>Result<T, E>\<close> is the sum \<open>'e + 't\<close>, with \<open>Inl\<close> for \<open>Err\<close> and \<open>Inr\<close> for \<open>Ok\<close>.
\<close>

section \<open>Machine types\<close>

type_synonym u8 = "8 word"
type_synonym u16 = "16 word"
type_synonym u32 = "32 word"
type_synonym u64 = "64 word"
type_synonym bytes = "u8 list"
type_synonym id16 = "128 word"
type_synonym digest32 = "256 word"

text \<open>
  Collections: \<open>result_simps\<close> decides which branch a fallible operation took, \<open>be_simps\<close> evaluates
  and cancels big-endian encodings, \<open>arith_simps\<close> reads checked word arithmetic over the naturals.
\<close>

named_theorems result_simps
named_theorems be_simps
named_theorems arith_simps

section \<open>Results\<close>

text \<open>The \<open>?\<close> operator and \<open>Option::ok_or\<close>.\<close>

definition rbind :: "'e + 'a \<Rightarrow> ('a \<Rightarrow> 'e + 'b) \<Rightarrow> 'e + 'b" where
  "rbind r f = (case r of Inl e \<Rightarrow> Inl e | Inr a \<Rightarrow> f a)"

definition ok_or :: "'e \<Rightarrow> 'a option \<Rightarrow> 'e + 'a" where
  "ok_or e x = (case x of None \<Rightarrow> Inl e | Some a \<Rightarrow> Inr a)"

fun is_ok :: "'e + 'a \<Rightarrow> bool" where
  "is_ok (Inl e) = False"
| "is_ok (Inr a) = True"

lemma rbind_simps [simp]: "rbind (Inl e) f = Inl e" "rbind (Inr a) f = f a"
  by (simp_all add: rbind_def)

lemma rbind_Inr_iff [result_simps]: "rbind r f = Inr b \<longleftrightarrow> (\<exists>a. r = Inr a \<and> f a = Inr b)"
  by (cases r) simp_all

lemma rbind_Inl_iff [result_simps]:
  "rbind r f = Inl e \<longleftrightarrow> r = Inl e \<or> (\<exists>a. r = Inr a \<and> f a = Inl e)"
  by (cases r) simp_all

lemma ok_or_simps [simp]: "ok_or e None = Inl e" "ok_or e (Some a) = Inr a"
  by (simp_all add: ok_or_def)

lemma ok_or_iff [result_simps]:
  "ok_or e x = Inr a \<longleftrightarrow> x = Some a" "ok_or e x = Inl e' \<longleftrightarrow> x = None \<and> e' = e"
  by (cases x; auto)+

lemma if_Inl_eq_Inr [result_simps]: "(if c then Inl e else r) = Inr a \<longleftrightarrow> \<not> c \<and> r = Inr a"
  by simp

lemma is_ok_iff: "is_ok r \<longleftrightarrow> (\<exists>a. r = Inr a)"
  by (cases r) simp_all

section \<open>Checked and saturating arithmetic\<close>

definition checked_add :: "'a::len word \<Rightarrow> 'a word \<Rightarrow> 'a word option" where
  "checked_add a b = (if unat a + unat b < 2 ^ LENGTH('a) then Some (a + b) else None)"

definition checked_mul :: "'a::len word \<Rightarrow> 'a word \<Rightarrow> 'a word option" where
  "checked_mul a b = (if unat a * unat b < 2 ^ LENGTH('a) then Some (a * b) else None)"

definition checked_sub :: "'a::len word \<Rightarrow> 'a word \<Rightarrow> 'a word option" where
  "checked_sub a b = (if b \<le> a then Some (a - b) else None)"

definition saturating_sub :: "'a::len word \<Rightarrow> 'a word \<Rightarrow> 'a word" where
  "saturating_sub a b = (if b \<le> a then a - b else 0)"

definition saturating_add :: "'a::len word \<Rightarrow> 'a word \<Rightarrow> 'a word" where
  "saturating_add a b = (if unat a + unat b < 2 ^ LENGTH('a) then a + b else - 1)"

text \<open>\<open>u32::try_from(n)\<close> and its kin on a \<open>usize\<close>: the value when it fits.\<close>

definition try_from_nat :: "nat \<Rightarrow> 'a::len word option" where
  "try_from_nat n = (if n < 2 ^ LENGTH('a) then Some (of_nat n) else None)"

lemma unat_add_no_wrap:
  fixes a b :: "'a::len word"
  assumes "unat a + unat b < 2 ^ LENGTH('a)"
  shows "unat (a + b) = unat a + unat b"
  using assms by (simp add: unat_add_lem)

lemma checked_add_SomeD [arith_simps]:
  fixes a b c :: "'a::len word"
  shows "checked_add a b = Some c \<longleftrightarrow> unat c = unat a + unat b"
proof (cases "unat a + unat b < 2 ^ LENGTH('a)")
  case True
  then show ?thesis
    by (auto simp: checked_add_def unat_add_no_wrap word_unat_eq_iff)
next
  case False
  then show ?thesis
    using unsigned_less [of c, where 'a = nat] by (metis checked_add_def option.distinct(1))
qed

lemma checked_add_NoneD [arith_simps]:
  fixes a b :: "'a::len word"
  shows "checked_add a b = None \<longleftrightarrow> 2 ^ LENGTH('a) \<le> unat a + unat b"
  by (auto simp: checked_add_def split: if_splits)

lemma checked_sub_SomeD [arith_simps]:
  "checked_sub a b = Some c \<longleftrightarrow> b \<le> a \<and> unat c = unat a - unat b"
  by (auto simp: checked_sub_def unat_sub word_unat_eq_iff)

lemma checked_mul_SomeD [arith_simps]:
  fixes a b c :: "'a::len word"
  shows "checked_mul a b = Some c \<longleftrightarrow> unat c = unat a * unat b"
proof (cases "unat a * unat b < 2 ^ LENGTH('a)")
  case True
  then have "unat (a * b) = unat a * unat b" by (simp add: unat_mult_lem)
  with True show ?thesis
    by (auto simp: checked_mul_def word_unat_eq_iff)
next
  case False
  then show ?thesis
    using unsigned_less [of c, where 'a = nat] by (metis checked_mul_def option.distinct(1))
qed

lemma unat_saturating_sub [arith_simps]: "unat (saturating_sub a b) = unat a - unat b"
  by (auto simp: saturating_sub_def unat_sub word_le_nat_alt)

lemma try_from_nat_Some [arith_simps]:
  "n < 2 ^ LENGTH('a) \<Longrightarrow> (try_from_nat n :: 'a::len word option) = Some (of_nat n)"
  by (simp add: try_from_nat_def)

lemma unat_of_nat_small:
  "n < 2 ^ LENGTH('a) \<Longrightarrow> unat (of_nat n :: 'a::len word) = n"
  by (simp add: unat_of_nat take_bit_nat_eq_self)

section \<open>Big-endian byte strings\<close>

text \<open>A Rust byte string literal \<open>b"..."\<close>.\<close>

definition ascii :: "string \<Rightarrow> bytes" where
  "ascii s = map of_char s"

lemma length_ascii [simp]: "length (ascii s) = length s"
  by (simp add: ascii_def)

primrec to_be :: "nat \<Rightarrow> nat \<Rightarrow> bytes" where
  "to_be 0 x = []"
| "to_be (Suc n) x = of_nat (x div 256 ^ n) # to_be n x"

definition from_be :: "bytes \<Rightarrow> nat" where
  "from_be bs = foldl (\<lambda>a b. a * 256 + unat b) 0 bs"

definition be16 :: "u16 \<Rightarrow> bytes" where "be16 w = to_be 2 (unat w)"
definition be32 :: "u32 \<Rightarrow> bytes" where "be32 w = to_be 4 (unat w)"
definition be64 :: "u64 \<Rightarrow> bytes" where "be64 w = to_be 8 (unat w)"
definition be128 :: "id16 \<Rightarrow> bytes" where "be128 w = to_be 16 (unat w)"
definition be256 :: "digest32 \<Rightarrow> bytes" where "be256 w = to_be 32 (unat w)"

text \<open>\<open>bslice o n bs\<close> is the Rust slice \<open>bs[o..o + n]\<close>, used where the code has checked the bounds.\<close>

definition bslice :: "nat \<Rightarrow> nat \<Rightarrow> bytes \<Rightarrow> bytes" where
  "bslice off n bs = take n (drop off bs)"

definition rd16 :: "nat \<Rightarrow> bytes \<Rightarrow> u16" where "rd16 off bs = of_nat (from_be (bslice off 2 bs))"
definition rd32 :: "nat \<Rightarrow> bytes \<Rightarrow> u32" where "rd32 off bs = of_nat (from_be (bslice off 4 bs))"
definition rd64 :: "nat \<Rightarrow> bytes \<Rightarrow> u64" where "rd64 off bs = of_nat (from_be (bslice off 8 bs))"
definition rd128 :: "nat \<Rightarrow> bytes \<Rightarrow> id16" where "rd128 off bs = of_nat (from_be (bslice off 16 bs))"
definition rd256 :: "nat \<Rightarrow> bytes \<Rightarrow> digest32" where "rd256 off bs = of_nat (from_be (bslice off 32 bs))"

lemma length_to_be [simp]: "length (to_be n x) = n"
  by (induction n) auto

lemma from_be_Nil [simp]: "from_be [] = 0"
  by (simp add: from_be_def)

lemma from_be_foldl: "foldl (\<lambda>a b. a * 256 + unat b) s (bs :: bytes) = s * 256 ^ length bs + from_be bs"
proof (induction bs arbitrary: s)
  case Nil
  then show ?case by (simp add: from_be_def)
next
  case (Cons b bs)
  have "foldl (\<lambda>a b. a * 256 + unat b) s (b # bs) = (s * 256 + unat b) * 256 ^ length bs + from_be bs"
    by (simp add: Cons.IH)
  moreover have "from_be (b # bs) = unat b * 256 ^ length bs + from_be bs"
    using Cons.IH [of "unat b"] by (simp add: from_be_def)
  ultimately show ?case by (simp add: algebra_simps)
qed

lemma from_be_Cons: "from_be (b # bs) = unat b * 256 ^ length bs + from_be bs"
  using from_be_foldl [of "unat b" bs] by (simp add: from_be_def)

lemma from_be_bound: "from_be bs < 256 ^ length bs"
proof (induction bs)
  case Nil
  then show ?case by simp
next
  case (Cons b bs)
  have "unat b \<le> 255"
    using unsigned_less [of b, where 'a = nat] by simp
  then have "unat b * 256 ^ length bs \<le> 255 * 256 ^ length bs"
    by (rule mult_le_mono1)
  moreover have "255 * 256 ^ length bs + 256 ^ length bs = (256 :: nat) ^ length (b # bs)"
    by simp
  ultimately show ?case using Cons by (simp only: from_be_Cons)
qed

lemma from_be_to_be: "from_be (to_be n x) = x mod 256 ^ n"
proof (induction n)
  case 0
  then show ?case by simp
next
  case (Suc n)
  have "unat (of_nat (x div 256 ^ n) :: u8) = x div 256 ^ n mod 256"
    by (simp add: unat_of_nat take_bit_eq_mod)
  then have "from_be (to_be (Suc n) x) = (x div 256 ^ n mod 256) * 256 ^ n + x mod 256 ^ n"
    using Suc by (simp add: from_be_Cons)
  then show ?case
    by (simp add: mod_mult2_eq mult.commute [of 256])
qed

lemma to_be_skip: "to_be n (y * 256 ^ n + x) = to_be n x"
proof (induction n arbitrary: y x)
  case 0
  then show ?case by simp
next
  case (Suc n)
  have eq: "(y * 256 ^ Suc n + x) div 256 ^ n = y * 256 + x div 256 ^ n"
    using div_mult_self1 [of "256 ^ n" x "y * 256"] by (simp add: ac_simps)
  have zero: "(256 :: u8) = 0"
    by (simp add: word_unat_eq_iff unat_numeral)
  have "(of_nat (y * 256 + x div 256 ^ n) :: u8) = of_nat (x div 256 ^ n)"
    by (simp add: zero)
  moreover have "to_be n (y * 256 ^ Suc n + x) = to_be n x"
    using Suc.IH [of "y * 256" x] by (simp add: mult.assoc)
  ultimately show ?case by (simp only: to_be.simps eq)
qed

lemma to_be_from_be: "to_be (length bs) (from_be bs) = bs"
proof (induction bs)
  case Nil
  then show ?case by simp
next
  case (Cons b bs)
  have "(unat b * 256 ^ length bs + from_be bs) div 256 ^ length bs = unat b"
    using from_be_bound [of bs] by simp
  moreover have "to_be (length bs) (unat b * 256 ^ length bs + from_be bs) = bs"
    using Cons by (simp add: to_be_skip)
  ultimately show ?case by (simp add: from_be_Cons)
qed

text \<open>One law per width: reading what was written, and writing what was read.\<close>

lemma word_be_roundtrip:
  fixes w :: "'a::len word"
  assumes "LENGTH('a) = 8 * n"
  shows "of_nat (from_be (to_be n (unat w))) = w"
proof -
  have "unat w < 256 ^ n"
    using unsigned_less [of w, where 'a = nat] assms by (simp add: power_mult)
  then show ?thesis by (simp add: from_be_to_be)
qed

lemma word_be_canonical:
  assumes "LENGTH('a::len) = 8 * length bs"
  shows "to_be (length bs) (unat (of_nat (from_be bs) :: 'a word)) = bs"
proof -
  have "from_be bs < 2 ^ LENGTH('a)"
    using from_be_bound [of bs] assms by (simp add: power_mult)
  then show ?thesis by (simp add: unat_of_nat_small to_be_from_be)
qed

lemma length_be [simp]:
  "length (be16 a) = 2" "length (be32 b) = 4" "length (be64 c) = 8"
  "length (be128 d) = 16" "length (be256 e) = 32"
  by (simp_all add: be16_def be32_def be64_def be128_def be256_def)

lemma be_inverse [be_simps]:
  "of_nat (from_be (be16 a)) = a" "of_nat (from_be (be32 b)) = b" "of_nat (from_be (be64 c)) = c"
  "of_nat (from_be (be128 d)) = d" "of_nat (from_be (be256 e)) = e"
  by (simp_all add: be16_def be32_def be64_def be128_def be256_def word_be_roundtrip)

lemma be_canonical [be_simps]:
  "length bs = 2 \<Longrightarrow> be16 (of_nat (from_be bs)) = bs"
  "length bs = 4 \<Longrightarrow> be32 (of_nat (from_be bs)) = bs"
  "length bs = 8 \<Longrightarrow> be64 (of_nat (from_be bs)) = bs"
  "length bs = 16 \<Longrightarrow> be128 (of_nat (from_be bs)) = bs"
  "length bs = 32 \<Longrightarrow> be256 (of_nat (from_be bs)) = bs"
  using word_be_canonical [of bs, where 'a = 16] word_be_canonical [of bs, where 'a = 32]
    word_be_canonical [of bs, where 'a = 64] word_be_canonical [of bs, where 'a = 128]
    word_be_canonical [of bs, where 'a = 256]
  by (simp_all add: be16_def be32_def be64_def be128_def be256_def)

section \<open>Slices of concatenations\<close>

lemma bslice_here [be_simps]: "length a = n \<Longrightarrow> bslice 0 n (a @ b) = a"
  by (simp add: bslice_def)

lemma bslice_skip [be_simps]: "length a \<le> off \<Longrightarrow> bslice off n (a @ b) = bslice (off - length a) n b"
  by (simp add: bslice_def)

lemma bslice_skip_Cons [be_simps]: "0 < off \<Longrightarrow> bslice off n (x # b) = bslice (off - 1) n b"
  by (cases off) (simp_all add: bslice_def)

lemma bslice_all [be_simps]: "length a = n \<Longrightarrow> bslice 0 n a = a"
  by (simp add: bslice_def)

lemma length_bslice [simp]: "length (bslice off n bs) = min n (length bs - off)"
  by (simp add: bslice_def min.commute)

lemma bslice_split: "bslice off n bs @ drop (off + n) bs = drop off bs"
  using append_take_drop_id [of n "drop off bs"] by (simp add: bslice_def add.commute)

lemma drop_eq_bslice_append: "m = off + n \<Longrightarrow> drop off bs = bslice off n bs @ drop m bs"
  by (simp add: bslice_split)

lemma drop_eq_Cons_nth: "off < length bs \<Longrightarrow> m = Suc off \<Longrightarrow> drop off bs = bs ! off # drop m bs"
  by (simp add: Cons_nth_drop_Suc)

lemmas rd_defs = rd16_def rd32_def rd64_def rd128_def rd256_def

lemma be_rd [be_simps]:
  "off + 2 \<le> length bs \<Longrightarrow> be16 (rd16 off bs) = bslice off 2 bs"
  "off + 4 \<le> length bs \<Longrightarrow> be32 (rd32 off bs) = bslice off 4 bs"
  "off + 8 \<le> length bs \<Longrightarrow> be64 (rd64 off bs) = bslice off 8 bs"
  "off + 16 \<le> length bs \<Longrightarrow> be128 (rd128 off bs) = bslice off 16 bs"
  "off + 32 \<le> length bs \<Longrightarrow> be256 (rd256 off bs) = bslice off 32 bs"
  by (simp_all add: rd_defs be_canonical)

lemma rd_here [be_simps]:
  "rd16 0 (be16 a @ r) = a" "rd32 0 (be32 b @ r) = b" "rd64 0 (be64 c @ r) = c"
  "rd128 0 (be128 d @ r) = d" "rd256 0 (be256 e @ r) = e"
  by (simp_all add: rd_defs be_simps)

lemma rd_last [be_simps]:
  "rd16 0 (be16 a) = a" "rd32 0 (be32 b) = b" "rd64 0 (be64 c) = c"
  "rd128 0 (be128 d) = d" "rd256 0 (be256 e) = e"
  by (simp_all add: rd_defs be_simps)

lemma rd_skip [be_simps]:
  "length x \<le> off \<Longrightarrow> rd16 off (x @ r) = rd16 (off - length x) r"
  "length x \<le> off \<Longrightarrow> rd32 off (x @ r) = rd32 (off - length x) r"
  "length x \<le> off \<Longrightarrow> rd64 off (x @ r) = rd64 (off - length x) r"
  "length x \<le> off \<Longrightarrow> rd128 off (x @ r) = rd128 (off - length x) r"
  "length x \<le> off \<Longrightarrow> rd256 off (x @ r) = rd256 (off - length x) r"
  by (simp_all add: rd_defs be_simps)

lemma rd_skip_Cons [be_simps]:
  "0 < off \<Longrightarrow> rd16 off (x # r) = rd16 (off - 1) r"
  "0 < off \<Longrightarrow> rd32 off (x # r) = rd32 (off - 1) r"
  "0 < off \<Longrightarrow> rd64 off (x # r) = rd64 (off - 1) r"
  "0 < off \<Longrightarrow> rd128 off (x # r) = rd128 (off - 1) r"
  "0 < off \<Longrightarrow> rd256 off (x # r) = rd256 (off - 1) r"
  by (simp_all add: rd_defs be_simps)

text \<open>
  A buffer read field by field: \<open>fields off ns bs\<close> concatenates the consecutive slices of widths
  \<open>ns\<close> from \<open>off\<close> on and the rest of the buffer. It is the buffer itself, which is what turns the
  checks of a decoder into the equation of its encoder.
\<close>

fun fields :: "nat \<Rightarrow> nat list \<Rightarrow> bytes \<Rightarrow> bytes" where
  "fields off [] bs = drop off bs"
| "fields off (n # ns) bs = bslice off n bs @ fields (off + n) ns bs"

lemma fields_eq: "fields off ns bs = drop off bs"
  by (induction off ns bs rule: fields.induct) (simp_all add: bslice_split)

lemma bslice_one: "off + 1 \<le> length bs \<Longrightarrow> bslice off 1 bs = [bs ! off]"
  by (simp add: bslice_def take_Suc_conv_app_nth)

section \<open>Intervals\<close>

lemma upt_join: "i \<le> j \<Longrightarrow> j \<le> k \<Longrightarrow> [i..<j] @ [j..<k] = [i..<k]"
  using upt_add_eq_append [of i j "k - j"] by simp

end
