(* ===== verification/Remote_Contracts.thy ===== *)
theory Remote_Contracts
  imports Remote_Prelude
begin

text \<open>
  The contracts several components share.

  \<^item> \<open>wire_codec\<close>: a strict binary codec. Every accepted value has a wire form, the wire form decodes
    to the value, and whatever decodes was a canonical wire form. The consequences (the decoder
    accepts exactly the canonical encodings, both directions are injective) are proved once.
  \<^item> \<open>guarded_machine\<close>: a component whose operations keep an invariant; an arbitrary sequence of
    operations then keeps it.
  \<^item> \<open>monotone_machine\<close>: a machine whose state only moves upwards in a preorder.
  \<^item> \<open>simulating_machine\<close>: a machine that may panic and an abstract one that cannot, related step by step;
    whole runs then do not panic and give the same answers.
\<close>

locale wire_codec =
  fixes enc :: "'a \<Rightarrow> 'e + bytes"
    and dec :: "bytes \<Rightarrow> 'e + 'a"
    and ok :: "'a \<Rightarrow> bool"
  assumes enc_total: "ok a \<Longrightarrow> \<exists>bs. enc a = Inr bs"
    and dec_enc: "ok a \<Longrightarrow> enc a = Inr bs \<Longrightarrow> dec bs = Inr a"
    and enc_dec: "dec bs = Inr a \<Longrightarrow> enc a = Inr bs"
    and dec_ok: "dec bs = Inr a \<Longrightarrow> ok a"
begin

lemma dec_iff: "dec bs = Inr a \<longleftrightarrow> ok a \<and> enc a = Inr bs"
  by (auto intro: dec_enc dest: enc_dec dec_ok)

lemma enc_injective:
  assumes "ok a" and "ok b" and "enc a = enc b"
  shows "a = b"
proof -
  from enc_total [OF assms(1)] obtain bs where a: "enc a = Inr bs" by (elim exE)
  with assms(3) have "enc b = Inr bs" by simp
  from dec_enc [OF assms(1) a] dec_enc [OF assms(2) this] show ?thesis by simp
qed

lemma dec_injective: "dec bs = Inr a \<Longrightarrow> dec bs' = Inr a \<Longrightarrow> bs = bs'"
  using enc_dec [of bs a] enc_dec [of bs' a] by simp

lemma roundtrip: "ok a \<Longrightarrow> \<exists>bs. enc a = Inr bs \<and> dec bs = Inr a"
  using enc_total [of a] by (auto intro: dec_enc)

end

locale guarded_machine =
  fixes step :: "'s \<Rightarrow> 'e \<Rightarrow> 's"
    and admissible :: "'e \<Rightarrow> bool"
    and inv :: "'s \<Rightarrow> bool"
  assumes inv_step: "inv s \<Longrightarrow> admissible e \<Longrightarrow> inv (step s e)"
begin

lemma inv_run: "inv s \<Longrightarrow> list_all admissible es \<Longrightarrow> inv (foldl step s es)"
  by (induction es arbitrary: s) (auto intro: inv_step)

end

locale monotone_machine = guarded_machine step admissible inv
  for step :: "'s \<Rightarrow> 'e \<Rightarrow> 's"
    and admissible :: "'e \<Rightarrow> bool"
    and inv :: "'s \<Rightarrow> bool" +
  fixes below :: "'s \<Rightarrow> 's \<Rightarrow> bool"
  assumes below_refl: "below s s"
    and below_trans: "below s t \<Longrightarrow> below t u \<Longrightarrow> below s u"
    and below_step: "inv s \<Longrightarrow> admissible e \<Longrightarrow> below s (step s e)"
begin

lemma below_run: "inv s \<Longrightarrow> list_all admissible es \<Longrightarrow> below s (foldl step s es)"
proof (induction es arbitrary: s)
  case Nil
  then show ?case by (simp add: below_refl)
next
  case (Cons e es)
  then have "below s (step s e)" and "below (step s e) (foldl step (step s e) es)"
    by (auto intro: below_step inv_step)
  then show ?case by (auto intro: below_trans)
qed

end

text \<open>
  Runs of a machine that answers every call and may panic, and of an abstract machine that cannot. A run
  collects the answers.
\<close>

fun run_panicking :: "('s \<Rightarrow> 'c \<Rightarrow> ('s \<times> 'o) option) \<Rightarrow> 's \<Rightarrow> 'c list \<Rightarrow> ('s \<times> 'o list) option" where
  "run_panicking step s [] = Some (s, [])"
| "run_panicking step s (c # cs) =
     (case step s c of
        None \<Rightarrow> None
      | Some (s', out) \<Rightarrow> map_option (\<lambda>(s'', outs). (s'', out # outs)) (run_panicking step s' cs))"

fun run_abstract :: "('a \<Rightarrow> 'c \<Rightarrow> 'a \<times> 'o) \<Rightarrow> 'a \<Rightarrow> 'c list \<Rightarrow> 'a \<times> 'o list" where
  "run_abstract step a [] = (a, [])"
| "run_abstract step a (c # cs) =
     (case step a c of (a', out) \<Rightarrow> case run_abstract step a' cs of (a'', outs) \<Rightarrow> (a'', out # outs))"

locale simulating_machine =
  fixes cstep :: "'s \<Rightarrow> 'c \<Rightarrow> ('s \<times> 'o) option"
    and astep :: "'a \<Rightarrow> 'c \<Rightarrow> 'a \<times> 'o"
    and admissible :: "'c \<Rightarrow> bool"
    and rel :: "'s \<Rightarrow> 'a \<Rightarrow> bool"
  assumes sim_step: "rel s a \<Longrightarrow> admissible c \<Longrightarrow>
    \<exists>s'. cstep s c = Some (s', snd (astep a c)) \<and> rel s' (fst (astep a c))"
begin

lemma sim_run:
  "rel s a \<Longrightarrow> list_all admissible cs \<Longrightarrow>
   \<exists>s'. run_panicking cstep s cs = Some (s', snd (run_abstract astep a cs)) \<and> rel s' (fst (run_abstract astep a cs))"
proof (induction cs arbitrary: s a)
  case (Cons c cs)
  from Cons.prems have adm: "admissible c" "list_all admissible cs" by simp_all
  from sim_step [OF Cons.prems(1) adm(1)] obtain s1 where s1: "cstep s c = Some (s1, snd (astep a c))" "rel s1 (fst (astep a c))"
    by blast
  from Cons.IH [OF s1(2) adm(2)] s1(1) show ?case by (auto split: prod.split)
qed simp

end

end
