(* ===== verification/Noise_Record.thy ===== *)
theory Noise_Record
  imports Remote_Contracts
begin

text \<open>
  The wire values of the Noise child (\<open>crates/cockpit-noise/src/lib.rs\<close>, \<open>record.rs\<close>, \<open>frame.rs\<close> and
  \<open>prologue.rs\<close>): the error type, the authenticated record plaintext, the rekey-prepare body, the
  handshake frame and the transcript prologue. Each codec is shown to be an instance of
  \<open>wire_codec\<close>, so its decoder accepts exactly the canonical encodings.
\<close>

section \<open>Definitions\<close>

datatype noise_error =
    InvalidPrologue | InvalidHandshakeFrame | HandshakePayloadForbidden | InvalidRecord
  | RecordTooLarge | SequenceMismatch | SequenceExhausted | InvalidRekey | BudgetExceeded
  | InvalidState | AuthorizationDenied | AuthenticationFailed | LowOrderKey | CryptoUnavailable
  | NoiseClosed | InvalidFallback | FallbackWindowExceeded | FallbackRetryExhausted

definition RECORD_HEADER_LEN :: nat where "RECORD_HEADER_LEN = 14"
definition TAG_LEN :: nat where "TAG_LEN = 16"
definition MAX_CIPHERTEXT :: nat where "MAX_CIPHERTEXT = 65535"
definition MAX_PLAINTEXT :: nat where "MAX_PLAINTEXT = MAX_CIPHERTEXT - TAG_LEN"
definition MAX_PAYLOAD :: nat where "MAX_PAYLOAD = MAX_PLAINTEXT - RECORD_HEADER_LEN"
definition LANE_FRAGMENT_HEADER_LEN :: nat where "LANE_FRAGMENT_HEADER_LEN = 26"
definition MAX_LANE_FRAGMENT :: nat where "MAX_LANE_FRAGMENT = 65497"

lemmas record_consts = RECORD_HEADER_LEN_def TAG_LEN_def MAX_CIPHERTEXT_def MAX_PLAINTEXT_def
  MAX_PAYLOAD_def LANE_FRAGMENT_HEADER_LEN_def MAX_LANE_FRAGMENT_def

subsection \<open>Records\<close>

datatype record_kind = Kind_Data | Kind_Ack | Kind_RekeyPrepare | Kind_RekeyCommit | Kind_Close

fun record_kind_u8 :: "record_kind \<Rightarrow> u8" where
  "record_kind_u8 Kind_Data = 1"
| "record_kind_u8 Kind_Ack = 2"
| "record_kind_u8 Kind_RekeyPrepare = 3"
| "record_kind_u8 Kind_RekeyCommit = 4"
| "record_kind_u8 Kind_Close = 5"

definition record_kind_try_from :: "u8 \<Rightarrow> noise_error + record_kind" where
  "record_kind_try_from value =
     (if value = 1 then Inr Kind_Data
      else if value = 2 then Inr Kind_Ack
      else if value = 3 then Inr Kind_RekeyPrepare
      else if value = 4 then Inr Kind_RekeyCommit
      else if value = 5 then Inr Kind_Close
      else Inl InvalidRecord)"

record noise_record =
  nr_kind :: record_kind
  nr_sequence :: u64
  nr_payload :: bytes

definition encode_plaintext :: "noise_record \<Rightarrow> noise_error + bytes" where
  "encode_plaintext r =
     (if length (nr_payload r) > MAX_PAYLOAD then Inl RecordTooLarge
      else rbind (ok_or RecordTooLarge (try_from_nat (length (nr_payload r)))) (\<lambda>payload_len.
        Inr ([1, record_kind_u8 (nr_kind r)] @ be64 (nr_sequence r) @ be32 payload_len @ nr_payload r)))"

definition decode_plaintext :: "bytes \<Rightarrow> u64 \<Rightarrow> noise_error + noise_record" where
  "decode_plaintext bs routing_sequence =
     (if length bs < RECORD_HEADER_LEN \<or> length bs > MAX_PLAINTEXT then Inl InvalidRecord
      else rbind (record_kind_try_from (bs ! 1)) (\<lambda>kind.
        let sequence = rd64 2 bs; len = unat (rd32 10 bs) in
        if bs ! 0 \<noteq> 1 \<or> len > MAX_PAYLOAD \<or> length bs \<noteq> RECORD_HEADER_LEN + len then Inl InvalidRecord
        else if sequence \<noteq> routing_sequence then Inl SequenceMismatch
        else Inr \<lparr>nr_kind = kind, nr_sequence = sequence, nr_payload = drop RECORD_HEADER_LEN bs\<rparr>))"

subsection \<open>The rekey-prepare body\<close>

record rekey_prepare =
  rp_direction :: u8
  rp_key_epoch :: u32
  rp_next_key_epoch :: u32
  rp_through_sequence :: u64

definition REKEY_PREPARE_LEN :: nat where "REKEY_PREPARE_LEN = 17"

definition rekey_prepare_encode :: "rekey_prepare \<Rightarrow> bytes" where
  "rekey_prepare_encode p =
     [rp_direction p] @ be32 (rp_key_epoch p) @ be32 (rp_next_key_epoch p) @ be64 (rp_through_sequence p)"

definition rekey_prepare_decode :: "bytes \<Rightarrow> noise_error + rekey_prepare" where
  "rekey_prepare_decode bs =
     (if length bs \<noteq> REKEY_PREPARE_LEN \<or> \<not> (bs ! 0 = 1 \<or> bs ! 0 = 2) then Inl InvalidRekey
      else Inr \<lparr>rp_direction = bs ! 0, rp_key_epoch = rd32 1 bs, rp_next_key_epoch = rd32 5 bs,
                rp_through_sequence = rd64 9 bs\<rparr>)"

subsection \<open>Handshake frames\<close>

definition HANDSHAKE_HEADER_LEN :: nat where "HANDSHAKE_HEADER_LEN = 4"
definition MAX_HANDSHAKE_MESSAGE :: nat where "MAX_HANDSHAKE_MESSAGE = 4096"
definition ABSOLUTE_CIPHERTEXT_CAP :: nat where "ABSOLUTE_CIPHERTEXT_CAP = 65535"

lemmas handshake_consts = HANDSHAKE_HEADER_LEN_def MAX_HANDSHAKE_MESSAGE_def ABSOLUTE_CIPHERTEXT_CAP_def

record handshake_frame =
  hf_message_index :: u8
  hf_message :: bytes

definition handshake_frame_encode :: "u8 \<Rightarrow> bytes \<Rightarrow> noise_error + bytes" where
  "handshake_frame_encode message_index message =
     (if \<not> (message_index = 1 \<or> message_index = 2) \<or> message = [] \<or> length message > MAX_HANDSHAKE_MESSAGE
      then Inl InvalidHandshakeFrame
      else rbind (ok_or InvalidHandshakeFrame (try_from_nat (length message))) (\<lambda>len.
        Inr ([1, message_index] @ be16 len @ message)))"

definition handshake_frame_decode :: "bytes \<Rightarrow> u8 \<Rightarrow> noise_error + handshake_frame" where
  "handshake_frame_decode bs expected_index =
     (if length bs < HANDSHAKE_HEADER_LEN \<or> length bs > ABSOLUTE_CIPHERTEXT_CAP
      then Inl InvalidHandshakeFrame
      else let len = unat (rd16 2 bs) in
        if bs ! 0 \<noteq> 1 \<or> bs ! 1 \<noteq> expected_index \<or> \<not> (bs ! 1 = 1 \<or> bs ! 1 = 2) \<or> len = 0
           \<or> len > MAX_HANDSHAKE_MESSAGE \<or> length bs \<noteq> HANDSHAKE_HEADER_LEN + len
        then Inl InvalidHandshakeFrame
        else Inr \<lparr>hf_message_index = bs ! 1, hf_message = drop 4 bs\<rparr>)"

subsection \<open>The prologue\<close>

definition PROLOGUE_DOMAIN :: bytes where
  "PROLOGUE_DOMAIN = ascii ''flycockpit-remote-noise-prologue-v1'' @ [0]"
definition PROLOGUE_BODY_LEN :: nat where "PROLOGUE_BODY_LEN = 186"
definition PROLOGUE_ENCODED_LEN :: nat where
  "PROLOGUE_ENCODED_LEN = length PROLOGUE_DOMAIN + PROLOGUE_BODY_LEN"
definition PROLOGUE_MAGIC :: bytes where "PROLOGUE_MAGIC = ascii ''FCNP''"

record noise_prologue =
  np_child_attempt_id :: id16
  np_grant_jti :: id16
  np_client_certificate_id :: id16
  np_client_certificate_generation :: u64
  np_daemon_certificate_id :: id16
  np_daemon_certificate_generation :: u64
  np_selected_tuple_id :: u16
  np_negotiation_digest :: digest32
  np_policy_digest :: digest32
  np_connection_nonce :: digest32

definition prologue_encode :: "noise_prologue \<Rightarrow> bytes" where
  "prologue_encode p =
     PROLOGUE_DOMAIN @ PROLOGUE_MAGIC @ [1] @ be128 (np_child_attempt_id p) @ be128 (np_grant_jti p)
     @ be128 (np_client_certificate_id p) @ be64 (np_client_certificate_generation p)
     @ be128 (np_daemon_certificate_id p) @ be64 (np_daemon_certificate_generation p)
     @ be16 (np_selected_tuple_id p) @ be256 (np_negotiation_digest p) @ be256 (np_policy_digest p)
     @ be256 (np_connection_nonce p) @ [1, 2, 2]"

text \<open>\<open>take_array::<N>\<close> returns the slice at the cursor and the advanced cursor.\<close>

definition take_array :: "nat \<Rightarrow> bytes \<Rightarrow> nat \<Rightarrow> noise_error + (bytes \<times> nat)" where
  "take_array n bs cursor =
     (if cursor + n \<le> length bs then Inr (bslice cursor n bs, cursor + n) else Inl InvalidPrologue)"

definition word_of_be :: "bytes \<Rightarrow> 'a::len word" where
  "word_of_be bs = of_nat (from_be bs)"

definition prologue_decode :: "bytes \<Rightarrow> noise_error + noise_prologue" where
  "prologue_decode bs =
     (if length bs \<noteq> PROLOGUE_ENCODED_LEN \<or> take (length PROLOGUE_DOMAIN) bs \<noteq> PROLOGUE_DOMAIN
      then Inl InvalidPrologue
      else let body = drop (length PROLOGUE_DOMAIN) bs in
        if take 4 body \<noteq> PROLOGUE_MAGIC \<or> body ! 4 \<noteq> 1 \<or> drop 183 body \<noteq> [1, 2, 2]
        then Inl InvalidPrologue
        else
          rbind (take_array 16 body 5) (\<lambda>(child_attempt_id, cursor).
          rbind (take_array 16 body cursor) (\<lambda>(grant_jti, cursor).
          rbind (take_array 16 body cursor) (\<lambda>(client_certificate_id, cursor).
          rbind (take_array 8 body cursor) (\<lambda>(client_certificate_generation, cursor).
          rbind (take_array 16 body cursor) (\<lambda>(daemon_certificate_id, cursor).
          rbind (take_array 8 body cursor) (\<lambda>(daemon_certificate_generation, cursor).
          rbind (take_array 2 body cursor) (\<lambda>(selected_tuple_id, cursor).
          rbind (take_array 32 body cursor) (\<lambda>(negotiation_digest, cursor).
          rbind (take_array 32 body cursor) (\<lambda>(policy_digest, cursor).
          rbind (take_array 32 body cursor) (\<lambda>(connection_nonce, cursor).
          if cursor \<noteq> 183 then Inl InvalidPrologue
          else Inr \<lparr>
            np_child_attempt_id = word_of_be child_attempt_id,
            np_grant_jti = word_of_be grant_jti,
            np_client_certificate_id = word_of_be client_certificate_id,
            np_client_certificate_generation = word_of_be client_certificate_generation,
            np_daemon_certificate_id = word_of_be daemon_certificate_id,
            np_daemon_certificate_generation = word_of_be daemon_certificate_generation,
            np_selected_tuple_id = word_of_be selected_tuple_id,
            np_negotiation_digest = word_of_be negotiation_digest,
            np_policy_digest = word_of_be policy_digest,
            np_connection_nonce = word_of_be connection_nonce\<rparr>)))))))))))"

text \<open>SHA-256 comes from the \<open>sha2\<close> crate and is a parameter.\<close>

definition prologue_digest :: "(bytes \<Rightarrow> digest32) \<Rightarrow> noise_prologue \<Rightarrow> digest32" where
  "prologue_digest sha p = sha (prologue_encode p)"

section \<open>Records\<close>

lemma record_kind_roundtrip [simp]: "record_kind_try_from (record_kind_u8 k) = Inr k"
  by (cases k) (simp_all add: record_kind_try_from_def)

lemma record_kind_canonical: "record_kind_try_from v = Inr k \<Longrightarrow> record_kind_u8 k = v"
  by (auto simp: record_kind_try_from_def split: if_splits)

definition noise_record_ok :: "u64 \<Rightarrow> noise_record \<Rightarrow> bool" where
  "noise_record_ok seq r \<longleftrightarrow> nr_sequence r = seq \<and> length (nr_payload r) \<le> MAX_PAYLOAD"

lemma encode_plaintext_ok:
  assumes "length (nr_payload r) \<le> MAX_PAYLOAD"
  shows "encode_plaintext r =
    Inr ([1, record_kind_u8 (nr_kind r)] @ be64 (nr_sequence r) @ be32 (of_nat (length (nr_payload r)))
         @ nr_payload r)"
  using assms by (simp add: encode_plaintext_def record_consts try_from_nat_def)

lemma decode_encode_plaintext:
  assumes "noise_record_ok seq r" and "encode_plaintext r = Inr bs"
  shows "decode_plaintext bs seq = Inr r"
proof -
  have len: "length (nr_payload r) \<le> 65505"
    using assms(1) by (simp add: noise_record_ok_def record_consts)
  then have u: "unat (of_nat (length (nr_payload r)) :: u32) = length (nr_payload r)"
    by (intro unat_of_nat_small) simp
  have bs: "bs = [1, record_kind_u8 (nr_kind r)] @ be64 (nr_sequence r)
      @ be32 (of_nat (length (nr_payload r))) @ nr_payload r"
    using assms by (simp add: encode_plaintext_ok noise_record_ok_def)
  show ?thesis
    using len assms(1) u
    by (simp add: bs decode_plaintext_def record_consts be_simps noise_record_ok_def)
qed

lemma encode_decode_plaintext:
  assumes "decode_plaintext bs seq = Inr r"
  shows "noise_record_ok seq r \<and> encode_plaintext r = Inr bs"
proof -
  have len: "14 \<le> length bs" "length bs = 14 + unat (rd32 10 bs)" "unat (rd32 10 bs) \<le> 65505"
    and hd: "bs ! 0 = 1" "record_kind_u8 (nr_kind r) = bs ! 1"
    and r: "nr_sequence r = rd64 2 bs" "nr_payload r = drop 14 bs" "nr_sequence r = seq"
    using assms record_kind_canonical [of "bs ! 1"]
    by (auto simp: decode_plaintext_def record_consts Let_def result_simps split: if_splits)
  have "bs = [bs ! 0, bs ! 1] @ be64 (rd64 2 bs) @ be32 (rd32 10 bs) @ drop 14 bs"
    using fields_eq [of 0 "[1, 1, 8, 4]" bs] len(1)
    by (simp add: bslice_one be_simps del: One_nat_def)
  moreover have "of_nat (length (drop 14 bs)) = rd32 10 bs"
    using len by simp
  ultimately show ?thesis
    using len hd r by (simp add: noise_record_ok_def record_consts encode_plaintext_ok)
qed

interpretation record_codec:
  wire_codec encode_plaintext "\<lambda>bs. decode_plaintext bs seq" "noise_record_ok seq" for seq
  by unfold_locales
    (auto simp: encode_plaintext_ok noise_record_ok_def intro: decode_encode_plaintext
      dest: encode_decode_plaintext)

section \<open>The rekey-prepare body\<close>

definition rekey_prepare_ok :: "rekey_prepare \<Rightarrow> bool" where
  "rekey_prepare_ok p \<longleftrightarrow> rp_direction p = 1 \<or> rp_direction p = 2"

lemma rekey_prepare_decode_encode:
  "rekey_prepare_ok p \<Longrightarrow> rekey_prepare_decode (rekey_prepare_encode p) = Inr p"
  by (auto simp: rekey_prepare_decode_def rekey_prepare_encode_def rekey_prepare_ok_def
      REKEY_PREPARE_LEN_def be_simps)

lemma rekey_prepare_encode_decode:
  assumes "rekey_prepare_decode bs = Inr p"
  shows "rekey_prepare_ok p \<and> rekey_prepare_encode p = bs"
proof -
  have len: "length bs = 17"
    using assms by (auto simp: rekey_prepare_decode_def REKEY_PREPARE_LEN_def split: if_splits)
  have "bs = [bs ! 0] @ be32 (rd32 1 bs) @ be32 (rd32 5 bs) @ be64 (rd64 9 bs)"
    using fields_eq [of 0 "[1, 4, 4, 8]" bs] len
    by (simp add: bslice_one be_simps del: One_nat_def)
  with assms show ?thesis
    by (auto simp: rekey_prepare_decode_def rekey_prepare_encode_def rekey_prepare_ok_def
        split: if_splits)
qed

interpretation prepare_codec:
  wire_codec "\<lambda>p. Inr (rekey_prepare_encode p)" rekey_prepare_decode rekey_prepare_ok
  by unfold_locales
    (auto intro: rekey_prepare_decode_encode dest: rekey_prepare_encode_decode)

section \<open>Handshake frames\<close>

definition handshake_frame_ok :: "u8 \<Rightarrow> handshake_frame \<Rightarrow> bool" where
  "handshake_frame_ok index f \<longleftrightarrow>
     hf_message_index f = index \<and> (index = 1 \<or> index = 2) \<and> hf_message f \<noteq> []
     \<and> length (hf_message f) \<le> MAX_HANDSHAKE_MESSAGE"

lemma handshake_frame_encode_ok:
  assumes "handshake_frame_ok index f"
  shows "handshake_frame_encode index (hf_message f) =
    Inr ([1, index] @ be16 (of_nat (length (hf_message f))) @ hf_message f)"
  using assms
  by (auto simp: handshake_frame_encode_def handshake_frame_ok_def handshake_consts try_from_nat_def)

lemma handshake_frame_decode_encode:
  assumes "handshake_frame_ok index f"
    and "handshake_frame_encode (hf_message_index f) (hf_message f) = Inr bs"
  shows "handshake_frame_decode bs index = Inr f"
proof -
  have len: "length (hf_message f) \<le> 4096" "0 < length (hf_message f)"
    using assms(1) by (simp_all add: handshake_frame_ok_def handshake_consts)
  then have u: "unat (of_nat (length (hf_message f)) :: u16) = length (hf_message f)"
    by (intro unat_of_nat_small) simp
  have bs: "bs = [1, index] @ be16 (of_nat (length (hf_message f))) @ hf_message f"
    using assms handshake_frame_encode_ok [OF assms(1)] by (simp add: handshake_frame_ok_def)
  show ?thesis
    using len u assms(1)
    by (auto simp: bs handshake_frame_decode_def handshake_consts be_simps handshake_frame_ok_def)
qed

lemma handshake_frame_encode_decode:
  assumes "handshake_frame_decode bs index = Inr f"
  shows "handshake_frame_ok index f
    \<and> handshake_frame_encode (hf_message_index f) (hf_message f) = Inr bs"
proof -
  have len: "4 \<le> length bs" "length bs = 4 + unat (rd16 2 bs)" "unat (rd16 2 bs) \<le> 4096"
      "0 < unat (rd16 2 bs)"
    and hd: "bs ! 0 = 1" "bs ! 1 = index" "index = 1 \<or> index = 2"
    and f: "f = \<lparr>hf_message_index = bs ! 1, hf_message = drop 4 bs\<rparr>"
    using assms by (auto simp: handshake_frame_decode_def handshake_consts Let_def split: if_splits)
  have "bs = [bs ! 0, bs ! 1] @ be16 (rd16 2 bs) @ drop 4 bs"
    using fields_eq [of 0 "[1, 1, 2]" bs] len(1)
    by (simp add: bslice_one be_simps del: One_nat_def)
  moreover have "of_nat (length (drop 4 bs)) = rd16 2 bs"
    using len by simp
  moreover have ok: "handshake_frame_ok index f"
    using len hd by (simp add: f handshake_frame_ok_def handshake_consts)
  ultimately show ?thesis
    using handshake_frame_encode_ok [OF ok] hd by (simp add: f)
qed

interpretation handshake_codec:
  wire_codec "\<lambda>f. handshake_frame_encode (hf_message_index f) (hf_message f)"
    "\<lambda>bs. handshake_frame_decode bs index" "handshake_frame_ok index" for index
proof unfold_locales
  fix a assume "handshake_frame_ok index a"
  then show "\<exists>bs. handshake_frame_encode (hf_message_index a) (hf_message a) = Inr bs"
    using handshake_frame_encode_ok by (metis handshake_frame_ok_def)
qed (auto intro: handshake_frame_decode_encode dest: handshake_frame_encode_decode)

section \<open>The prologue\<close>

lemma prologue_lengths [simp]:
  "length PROLOGUE_DOMAIN = 36" "length PROLOGUE_MAGIC = 4" "PROLOGUE_ENCODED_LEN = 222"
  by (simp_all add: PROLOGUE_DOMAIN_def PROLOGUE_MAGIC_def PROLOGUE_ENCODED_LEN_def
      PROLOGUE_BODY_LEN_def)

lemma word_of_be_inverse [be_simps]:
  "word_of_be (be16 a) = a" "word_of_be (be64 c) = c" "word_of_be (be128 d) = d" "word_of_be (be256 e) = e"
  by (simp_all add: word_of_be_def be_simps)

lemma word_of_be_canonical [be_simps]:
  "length bs = 2 \<Longrightarrow> be16 (word_of_be bs) = bs"
  "length bs = 8 \<Longrightarrow> be64 (word_of_be bs) = bs"
  "length bs = 16 \<Longrightarrow> be128 (word_of_be bs) = bs"
  "length bs = 32 \<Longrightarrow> be256 (word_of_be bs) = bs"
  by (simp_all add: word_of_be_def be_simps)

lemma prologue_decode_encode: "prologue_decode (prologue_encode p) = Inr p"
proof -
  let ?body = "drop 36 (prologue_encode p)"
  have "?body = PROLOGUE_MAGIC @ [1] @ be128 (np_child_attempt_id p) @ be128 (np_grant_jti p)
     @ be128 (np_client_certificate_id p) @ be64 (np_client_certificate_generation p)
     @ be128 (np_daemon_certificate_id p) @ be64 (np_daemon_certificate_generation p)
     @ be16 (np_selected_tuple_id p) @ be256 (np_negotiation_digest p) @ be256 (np_policy_digest p)
     @ be256 (np_connection_nonce p) @ [1, 2, 2]"
    by (simp add: prologue_encode_def)
  moreover have "take 36 (prologue_encode p) = PROLOGUE_DOMAIN" "length (prologue_encode p) = 222"
    by (simp_all add: prologue_encode_def)
  ultimately show ?thesis
    by (simp add: prologue_decode_def Let_def take_array_def be_simps nth_append)
qed

lemma prologue_encode_decode:
  assumes "prologue_decode bs = Inr p"
  shows "prologue_encode p = bs"
proof -
  let ?body = "drop 36 bs"
  have len: "length bs = 222" and dom: "take 36 bs = PROLOGUE_DOMAIN"
    and magic: "take 4 ?body = PROLOGUE_MAGIC" "?body ! 4 = 1" "drop 183 ?body = [1, 2, 2]"
    using assms by (auto simp: prologue_decode_def Let_def split: if_splits)
  have p: "p = \<lparr>np_child_attempt_id = word_of_be (bslice 5 16 ?body),
      np_grant_jti = word_of_be (bslice 21 16 ?body),
      np_client_certificate_id = word_of_be (bslice 37 16 ?body),
      np_client_certificate_generation = word_of_be (bslice 53 8 ?body),
      np_daemon_certificate_id = word_of_be (bslice 61 16 ?body),
      np_daemon_certificate_generation = word_of_be (bslice 77 8 ?body),
      np_selected_tuple_id = word_of_be (bslice 85 2 ?body),
      np_negotiation_digest = word_of_be (bslice 87 32 ?body),
      np_policy_digest = word_of_be (bslice 119 32 ?body),
      np_connection_nonce = word_of_be (bslice 151 32 ?body)\<rparr>"
    using assms len dom magic
    by (auto simp add: prologue_decode_def take_array_def Let_def simp del: drop_drop nth_drop)
  have "?body = bslice 0 4 ?body @ [?body ! 4] @ bslice 5 16 ?body @ bslice 21 16 ?body
      @ bslice 37 16 ?body @ bslice 53 8 ?body @ bslice 61 16 ?body @ bslice 77 8 ?body
      @ bslice 85 2 ?body @ bslice 87 32 ?body @ bslice 119 32 ?body @ bslice 151 32 ?body
      @ drop 183 ?body"
    using fields_eq [of 0 "[4, 1, 16, 16, 16, 8, 16, 8, 2, 32, 32, 32]" ?body] len
    by (simp add: bslice_one del: One_nat_def drop_drop nth_drop)
  moreover have "bs = PROLOGUE_DOMAIN @ ?body"
    using dom append_take_drop_id [of 36 bs] by simp
  moreover have "bslice 0 4 ?body = PROLOGUE_MAGIC"
    using magic(1) by (simp add: bslice_def)
  ultimately show ?thesis
    using len magic by (simp add: p prologue_encode_def be_simps del: drop_drop nth_drop)
qed

interpretation prologue_codec:
  wire_codec "\<lambda>p. Inr (prologue_encode p)" prologue_decode "\<lambda>p. True"
  by unfold_locales (auto intro: prologue_decode_encode dest: prologue_encode_decode)

end
