(* ===== verification/Noise_Rekey.thy ===== *)
theory Noise_Rekey
  imports Noise_Record
begin

text \<open>
  The directional rekey reducer (\<open>crates/cockpit-noise/src/rekey.rs\<close>). One \<open>DirectionalRekey\<close> owns
  the sequence numbers and the record and byte budgets of one direction of a Noise child. Every
  operation returns the state next to its result, because the code also moves the state when it
  returns an error.

  Shown here: the budgets and the sequence bound hold along every run, the key epoch and the sequence
  only grow, the sequence numbers handed out along a run are strictly increasing, a closed direction
  stays closed, and a repeated peer message is answered idempotently.
\<close>

section \<open>Definitions\<close>

definition MAX_RECORDS :: u32 where "MAX_RECORDS = 1048576"
definition MAX_APPLICATION_BYTES :: u64 where "MAX_APPLICATION_BYTES = 1073741824"
definition LAST_OPEN_RECORD :: u32 where "LAST_OPEN_RECORD = MAX_RECORDS - 1"
definition HARD_SEQUENCE_LIMIT :: u64 where "HARD_SEQUENCE_LIMIT = 4294967296"
definition REKEY_DEADLINE_MILLIS :: u64 where "REKEY_DEADLINE_MILLIS = 10000"

datatype directional_state =
    DS_Open | DS_Draining | DS_PrepareSent | DS_PrepareReceived | DS_CommitQueued | DS_WaitCommit | DS_Closed

datatype rekey_event =
    Event_LocalRecordRequest record_kind u64
  | Event_PriorRecordsAcked
  | Event_ReassemblyEmpty
  | Event_PeerPrepare rekey_prepare
  | Event_CommitDurablyQueued u32
  | Event_PeerCommitAuthenticated u32
  | Event_Deadline u64
  | Event_Close

datatype rekey_action =
    Action_SendPrepare rekey_prepare
  | Action_SendCommit u8 u32
  | Action_ApplySendRekey u32
  | Action_ApplyReceiveRekey u32
  | Action_Open u64 u32
  | Action_Close

record directional_rekey =
  dr_direction :: u8
  dr_absolute_sequence :: u64
  dr_key_epoch :: u32
  dr_records_under_key :: u32
  dr_application_bytes :: u64
  dr_state :: directional_state
  dr_acked :: bool
  dr_reassembly_empty :: bool
  dr_pending_prepare :: "rekey_prepare option"
  dr_prior_prepare :: "rekey_prepare option"
  dr_prior_prepare_result :: "rekey_action list option"
  dr_prior_commit_epoch :: "u32 option"
  dr_prior_commit_result :: "rekey_action list option"

type_synonym rekey_result = "directional_rekey \<times> (noise_error + rekey_action list)"

definition directional_rekey_new :: "u8 \<Rightarrow> noise_error + directional_rekey" where
  "directional_rekey_new direction =
     (if \<not> (direction = 1 \<or> direction = 2) then Inl InvalidRekey
      else Inr \<lparr>dr_direction = direction, dr_absolute_sequence = 0, dr_key_epoch = 0,
        dr_records_under_key = 0, dr_application_bytes = 0, dr_state = DS_Open, dr_acked = False,
        dr_reassembly_empty = False, dr_pending_prepare = None, dr_prior_prepare = None,
        dr_prior_prepare_result = None, dr_prior_commit_epoch = None, dr_prior_commit_result = None\<rparr>)"

definition consume_record :: "directional_rekey \<Rightarrow> u64 \<Rightarrow> directional_rekey \<times> (noise_error + u64)" where
  "consume_record s data_bytes =
     (let sequence = dr_absolute_sequence s in
      case checked_add (dr_absolute_sequence s) 1 of
        None \<Rightarrow> (s, Inl SequenceExhausted)
      | Some next_sequence \<Rightarrow>
        let s = s\<lparr>dr_absolute_sequence := next_sequence\<rparr> in
        case checked_add (dr_records_under_key s) 1 of
          None \<Rightarrow> (s, Inl BudgetExceeded)
        | Some records \<Rightarrow>
          let s = s\<lparr>dr_records_under_key := records\<rparr> in
          case checked_add (dr_application_bytes s) data_bytes of
            None \<Rightarrow> (s, Inl BudgetExceeded)
          | Some sum_bytes \<Rightarrow> (s\<lparr>dr_application_bytes := sum_bytes\<rparr>, Inr sequence))"

text \<open>\<open>checked_add(data_bytes).is_none_or(|next| next > MAX_APPLICATION_BYTES)\<close>.\<close>

definition data_over_budget :: "directional_rekey \<Rightarrow> u64 \<Rightarrow> bool" where
  "data_over_budget s data_bytes =
     (case checked_add (dr_application_bytes s) data_bytes of
        None \<Rightarrow> True | Some sum_bytes \<Rightarrow> sum_bytes > MAX_APPLICATION_BYTES)"

definition admit_authenticated_peer_record ::
    "directional_rekey \<Rightarrow> record_kind \<Rightarrow> u64 \<Rightarrow> directional_rekey \<times> (noise_error + unit)" where
  "admit_authenticated_peer_record s kind data_bytes =
     (if dr_state s = DS_Closed \<or> dr_absolute_sequence s \<ge> HARD_SEQUENCE_LIMIT then (s, Inl NoiseClosed)
      else if dr_records_under_key s \<ge> MAX_RECORDS then (s, Inl BudgetExceeded)
      else if kind = Kind_Data \<and> (dr_state s \<noteq> DS_Open \<or> data_over_budget s data_bytes)
        then (s, Inl BudgetExceeded)
      else if kind = Kind_Ack \<and> dr_state s \<noteq> DS_Open then (s, Inl InvalidState)
      else (case consume_record s (if kind = Kind_Data then data_bytes else 0) of
              (s, Inl e) \<Rightarrow> (s, Inl e)
            | (s, Inr _) \<Rightarrow>
                (if kind = Kind_Close then s\<lparr>dr_state := DS_Closed\<rparr> else s, Inr ())))"

definition reserve_generated_commit :: "directional_rekey \<Rightarrow> directional_rekey \<times> (noise_error + u64)" where
  "reserve_generated_commit s =
     (if dr_state s \<noteq> DS_Open \<or> dr_absolute_sequence s \<ge> HARD_SEQUENCE_LIMIT
         \<or> dr_records_under_key s \<ge> LAST_OPEN_RECORD
      then (s\<lparr>dr_state := DS_Closed\<rparr>, Inl BudgetExceeded)
      else consume_record s 0)"

definition local_record_request :: "directional_rekey \<Rightarrow> record_kind \<Rightarrow> u64 \<Rightarrow> rekey_result" where
  "local_record_request s kind data_bytes =
     (if dr_state s \<noteq> DS_Open then (s, Inl InvalidState)
      else if dr_absolute_sequence s \<ge> HARD_SEQUENCE_LIMIT
        then (s\<lparr>dr_state := DS_Closed\<rparr>, Inr [Action_Close])
      else if kind = Kind_Close then
        (if dr_records_under_key s \<ge> MAX_RECORDS then (s, Inl BudgetExceeded)
         else case consume_record s 0 of
           (s, Inl e) \<Rightarrow> (s, Inl e)
         | (s, Inr sequence) \<Rightarrow>
             (s\<lparr>dr_state := DS_Closed\<rparr>, Inr [Action_Open sequence (dr_key_epoch s), Action_Close]))
      else if kind = Kind_RekeyPrepare \<or> kind = Kind_RekeyCommit then (s, Inl InvalidState)
      else if dr_records_under_key s \<ge> LAST_OPEN_RECORD
              \<or> (kind = Kind_Data \<and> data_over_budget s data_bytes)
        then (s\<lparr>dr_state := DS_Draining\<rparr>, Inr [])
      else (case consume_record s (if kind = Kind_Data then data_bytes else 0) of
              (s, Inl e) \<Rightarrow> (s, Inl e)
            | (s, Inr sequence) \<Rightarrow> (s, Inr [Action_Open sequence (dr_key_epoch s)])))"

definition maybe_send_prepare :: "directional_rekey \<Rightarrow> rekey_result" where
  "maybe_send_prepare s =
     (if dr_state s \<noteq> DS_Draining \<or> \<not> dr_acked s \<or> \<not> dr_reassembly_empty s then (s, Inr [])
      else if dr_records_under_key s \<ge> MAX_RECORDS \<or> dr_absolute_sequence s = 0 then (s, Inl InvalidRekey)
      else case checked_add (dr_key_epoch s) 1 of
        None \<Rightarrow> (s, Inl InvalidRekey)
      | Some next_key_epoch \<Rightarrow>
        let prepare = \<lparr>rp_direction = dr_direction s, rp_key_epoch = dr_key_epoch s,
              rp_next_key_epoch = next_key_epoch, rp_through_sequence = dr_absolute_sequence s - 1\<rparr> in
        case consume_record s 0 of
          (s, Inl e) \<Rightarrow> (s, Inl e)
        | (s, Inr _) \<Rightarrow>
            (s\<lparr>dr_pending_prepare := Some prepare, dr_state := DS_WaitCommit\<rparr>,
             Inr [Action_SendPrepare prepare]))"

definition peer_prepare :: "directional_rekey \<Rightarrow> rekey_prepare \<Rightarrow> rekey_result" where
  "peer_prepare s prepare =
     (if dr_prior_prepare s = Some prepare then (s, ok_or InvalidRekey (dr_prior_prepare_result s))
      else if dr_pending_prepare s \<noteq> None
         \<or> \<not> (dr_state s = DS_Open \<or> dr_state s = DS_Draining)
         \<or> rp_direction prepare \<noteq> dr_direction s
         \<or> rp_key_epoch prepare \<noteq> dr_key_epoch s
         \<or> checked_add (dr_key_epoch s) 1 \<noteq> Some (rp_next_key_epoch prepare)
         \<or> dr_absolute_sequence s = 0
         \<or> rp_through_sequence prepare \<noteq> dr_absolute_sequence s - 1
      then (s, Inl InvalidRekey)
      else let action = Action_SendCommit (dr_direction s) (rp_next_key_epoch prepare) in
        (s\<lparr>dr_pending_prepare := Some prepare, dr_prior_prepare := Some prepare,
            dr_prior_prepare_result := Some [action], dr_state := DS_PrepareReceived\<rparr>,
         Inr [action]))"

definition apply_epoch :: "directional_rekey \<Rightarrow> u32 \<Rightarrow> directional_rekey" where
  "apply_epoch s key_epoch =
     s\<lparr>dr_key_epoch := key_epoch, dr_records_under_key := 0, dr_application_bytes := 0,
       dr_state := DS_Open, dr_acked := False, dr_reassembly_empty := False,
       dr_pending_prepare := None\<rparr>"

definition commit_queued :: "directional_rekey \<Rightarrow> u32 \<Rightarrow> rekey_result" where
  "commit_queued s key_epoch =
     (if dr_prior_commit_epoch s = Some key_epoch then (s, ok_or InvalidRekey (dr_prior_commit_result s))
      else case dr_pending_prepare s of
        None \<Rightarrow> (s, Inl InvalidRekey)
      | Some prepare \<Rightarrow>
        if dr_state s \<noteq> DS_PrepareReceived \<or> key_epoch \<noteq> rp_next_key_epoch prepare
        then (s, Inl InvalidRekey)
        else let result = [Action_ApplyReceiveRekey key_epoch, Action_Open (dr_absolute_sequence s) key_epoch] in
          (apply_epoch (s\<lparr>dr_prior_commit_epoch := Some key_epoch, dr_prior_commit_result := Some result\<rparr>)
             key_epoch, Inr result))"

definition peer_commit :: "directional_rekey \<Rightarrow> u32 \<Rightarrow> rekey_result" where
  "peer_commit s key_epoch =
     (if dr_prior_commit_epoch s = Some key_epoch then (s, ok_or InvalidRekey (dr_prior_commit_result s))
      else case dr_pending_prepare s of
        None \<Rightarrow> (s, Inl InvalidRekey)
      | Some prepare \<Rightarrow>
        if dr_state s \<noteq> DS_WaitCommit \<or> key_epoch \<noteq> rp_next_key_epoch prepare
        then (s, Inl InvalidRekey)
        else let result = [Action_ApplySendRekey key_epoch, Action_Open (dr_absolute_sequence s) key_epoch] in
          (apply_epoch (s\<lparr>dr_prior_commit_epoch := Some key_epoch, dr_prior_commit_result := Some result\<rparr>)
             key_epoch, Inr result))"

fun reduce_event :: "directional_rekey \<Rightarrow> rekey_event \<Rightarrow> rekey_result" where
  "reduce_event s Event_Close = (s\<lparr>dr_state := DS_Closed\<rparr>, Inr [Action_Close])"
| "reduce_event s (Event_Deadline elapsed_millis) =
     (if dr_state s = DS_Open \<or> elapsed_millis < REKEY_DEADLINE_MILLIS then (s, Inr [])
      else (s\<lparr>dr_state := DS_Closed\<rparr>, Inr [Action_Close]))"
| "reduce_event s (Event_LocalRecordRequest kind data_bytes) = local_record_request s kind data_bytes"
| "reduce_event s Event_PriorRecordsAcked = maybe_send_prepare (s\<lparr>dr_acked := True\<rparr>)"
| "reduce_event s Event_ReassemblyEmpty = maybe_send_prepare (s\<lparr>dr_reassembly_empty := True\<rparr>)"
| "reduce_event s (Event_PeerPrepare prepare) = peer_prepare s prepare"
| "reduce_event s (Event_CommitDurablyQueued key_epoch) = commit_queued s key_epoch"
| "reduce_event s (Event_PeerCommitAuthenticated key_epoch) = peer_commit s key_epoch"

definition reduce :: "directional_rekey \<Rightarrow> rekey_event \<Rightarrow> rekey_result" where
  "reduce s event =
     (if dr_state s = DS_Closed then (s, Inl NoiseClosed)
      else case reduce_event s event of
        (s, Inl e) \<Rightarrow> (s\<lparr>dr_state := DS_Closed\<rparr>, Inl e)
      | (s, Inr actions) \<Rightarrow> (s, Inr actions))"

subsection \<open>Runs\<close>

text \<open>The calls a child makes on one direction.\<close>

datatype rekey_call =
    Call_Reduce rekey_event
  | Call_Admit record_kind u64
  | Call_ReserveCommit

fun rekey_step :: "directional_rekey \<Rightarrow> rekey_call \<Rightarrow> directional_rekey" where
  "rekey_step s (Call_Reduce e) = fst (reduce s e)"
| "rekey_step s (Call_Admit kind data_bytes) = fst (admit_authenticated_peer_record s kind data_bytes)"
| "rekey_step s Call_ReserveCommit = fst (reserve_generated_commit s)"

text \<open>The sequence numbers that a call binds to a record.\<close>

fun opened :: "rekey_action list \<Rightarrow> u64 list" where
  "opened (Action_Open sequence _ # _) = [sequence]"
| "opened _ = []"

fun prepared :: "rekey_action list \<Rightarrow> u64 list" where
  "prepared (Action_SendPrepare p # _) = [rp_through_sequence p + 1]"
| "prepared _ = []"

fun bound_sequences :: "directional_rekey \<Rightarrow> rekey_call \<Rightarrow> u64 list" where
  "bound_sequences s (Call_Reduce (Event_LocalRecordRequest kind data_bytes)) =
     (case snd (reduce s (Event_LocalRecordRequest kind data_bytes)) of
        Inl _ \<Rightarrow> [] | Inr actions \<Rightarrow> opened actions)"
| "bound_sequences s (Call_Reduce e) = (case snd (reduce s e) of Inl _ \<Rightarrow> [] | Inr actions \<Rightarrow> prepared actions)"
| "bound_sequences s (Call_Admit kind data_bytes) =
     (case snd (admit_authenticated_peer_record s kind data_bytes) of
        Inl _ \<Rightarrow> [] | Inr _ \<Rightarrow> [dr_absolute_sequence s])"
| "bound_sequences s Call_ReserveCommit =
     (case snd (reserve_generated_commit s) of Inl _ \<Rightarrow> [] | Inr sequence \<Rightarrow> [sequence])"

fun run_sequences :: "directional_rekey \<Rightarrow> rekey_call list \<Rightarrow> u64 list" where
  "run_sequences s [] = []"
| "run_sequences s (c # cs) = bound_sequences s c @ run_sequences (rekey_step s c) cs"

subsection \<open>Invariant and order\<close>

definition rekey_inv :: "directional_rekey \<Rightarrow> bool" where
  "rekey_inv s \<longleftrightarrow>
     unat (dr_records_under_key s) \<le> unat MAX_RECORDS
     \<and> unat (dr_application_bytes s) \<le> unat MAX_APPLICATION_BYTES
     \<and> unat (dr_absolute_sequence s) \<le> unat HARD_SEQUENCE_LIMIT + 1
     \<and> (dr_state s = DS_Draining \<longrightarrow> unat (dr_absolute_sequence s) \<le> unat HARD_SEQUENCE_LIMIT)
     \<and> (\<forall>p. dr_pending_prepare s = Some p \<and> dr_state s \<noteq> DS_Closed \<longrightarrow>
          unat (rp_next_key_epoch p) = unat (dr_key_epoch s) + 1)
     \<and> (dr_state s = DS_Open \<or> dr_state s = DS_Draining \<longrightarrow> dr_pending_prepare s = None)
     \<and> (\<forall>p. dr_prior_prepare s = Some p \<and> dr_state s \<noteq> DS_Closed \<longrightarrow>
          dr_pending_prepare s = Some p \<or> unat (rp_next_key_epoch p) \<le> unat (dr_key_epoch s))
     \<and> (\<forall>e. dr_prior_commit_epoch s = Some e \<longrightarrow> unat e \<le> unat (dr_key_epoch s))
     \<and> (\<forall>acts. dr_prior_prepare_result s = Some acts \<or> dr_prior_commit_result s = Some acts \<longrightarrow>
          prepared acts = [])"

text \<open>
  The state only moves forward: sequence and epoch never decrease, within an epoch the counters never
  decrease, and a closed direction is final.
\<close>

definition rekey_below :: "directional_rekey \<Rightarrow> directional_rekey \<Rightarrow> bool" where
  "rekey_below s t \<longleftrightarrow>
     dr_absolute_sequence s \<le> dr_absolute_sequence t
     \<and> dr_key_epoch s \<le> dr_key_epoch t
     \<and> (dr_key_epoch s = dr_key_epoch t \<longrightarrow>
          dr_records_under_key s \<le> dr_records_under_key t
          \<and> dr_application_bytes s \<le> dr_application_bytes t)
     \<and> dr_direction t = dr_direction s
     \<and> (dr_state s = DS_Closed \<longrightarrow> t = s)"

section \<open>Facts about single calls\<close>

lemma unat_rekey_consts [simp]:
  "unat MAX_RECORDS = 1048576" "unat LAST_OPEN_RECORD = 1048575"
  "unat MAX_APPLICATION_BYTES = 1073741824" "unat HARD_SEQUENCE_LIMIT = 4294967296"
  by (simp_all add: MAX_RECORDS_def LAST_OPEN_RECORD_def MAX_APPLICATION_BYTES_def
      HARD_SEQUENCE_LIMIT_def unat_numeral)

lemma consume_record_ok:
  assumes "unat (dr_absolute_sequence s) \<le> 4294967297"
    and "unat (dr_records_under_key s) < 1048576"
    and "unat (dr_application_bytes s) + unat d \<le> 1073741824"
  shows "consume_record s d =
    (s\<lparr>dr_absolute_sequence := dr_absolute_sequence s + 1, dr_records_under_key := dr_records_under_key s + 1,
       dr_application_bytes := dr_application_bytes s + d\<rparr>, Inr (dr_absolute_sequence s))"
  using assms by (simp add: consume_record_def checked_add_def Let_def)

lemma data_over_budget_False:
  "\<not> data_over_budget s d \<longleftrightarrow> unat (dr_application_bytes s) + unat d \<le> 1073741824"
  by (auto simp: data_over_budget_def checked_add_def unat_add_no_wrap word_less_nat_alt not_le
      split: option.splits)

text \<open>What one consumption does to the counters, read over the naturals.\<close>

lemma consumed_counters:
  assumes "unat (dr_absolute_sequence s) \<le> 4294967297"
    and "unat (dr_records_under_key s) < 1048576"
    and "unat (dr_application_bytes s) + unat d \<le> 1073741824"
  shows "unat (dr_absolute_sequence s + 1) = unat (dr_absolute_sequence s) + 1"
    and "unat (dr_records_under_key s + 1) = unat (dr_records_under_key s) + 1"
    and "unat (dr_application_bytes s + d) = unat (dr_application_bytes s) + unat d"
  using assms by (simp_all add: unat_add_no_wrap)

lemmas word_nat = word_le_nat_alt word_less_nat_alt

lemma rekey_inv_new: "directional_rekey_new d = Inr s \<Longrightarrow> rekey_inv s"
  by (auto simp: directional_rekey_new_def rekey_inv_def split: if_splits)

lemma rekey_below_refl: "rekey_below s s"
  by (simp add: rekey_below_def)

lemma rekey_below_trans: "rekey_below s t \<Longrightarrow> rekey_below t u \<Longrightarrow> rekey_below s u"
  by (fastforce simp: rekey_below_def)

section \<open>Every call keeps the invariant and moves forward\<close>

definition rekey_ok :: "directional_rekey \<Rightarrow> directional_rekey \<Rightarrow> bool" where
  "rekey_ok s t \<longleftrightarrow> rekey_inv t \<and> rekey_below s t"

lemma rekey_ok_refl: "rekey_inv s \<Longrightarrow> rekey_ok s s"
  by (simp add: rekey_ok_def rekey_below_refl)

lemma rekey_ok_closed: "rekey_inv s \<Longrightarrow> rekey_ok s (s\<lparr>dr_state := DS_Closed\<rparr>)"
  by (cases s) (simp add: rekey_ok_def rekey_inv_def rekey_below_def)

lemma rekey_ok_consumed:
  assumes "rekey_inv s" and "dr_state s \<noteq> DS_Closed"
    and "unat (dr_absolute_sequence s) < 4294967296"
    and "unat (dr_records_under_key s) < 1048576"
    and "unat (dr_application_bytes s) + unat d \<le> 1073741824"
  shows "rekey_ok s (s\<lparr>dr_absolute_sequence := dr_absolute_sequence s + 1,
    dr_records_under_key := dr_records_under_key s + 1, dr_application_bytes := dr_application_bytes s + d\<rparr>)"
  using assms consumed_counters [of s d]
  by (simp add: rekey_ok_def rekey_inv_def rekey_below_def word_nat)

lemma rekey_ok_close_after:
  "rekey_ok s t \<Longrightarrow> dr_state s \<noteq> DS_Closed \<Longrightarrow> rekey_ok s (t\<lparr>dr_state := DS_Closed\<rparr>)"
  by (auto simp: rekey_ok_def rekey_inv_def rekey_below_def)

lemma rekey_ok_local_record_request:
  assumes "rekey_inv s" and "dr_state s \<noteq> DS_Closed"
  shows "rekey_ok s (fst (local_record_request s kind d))"
proof -
  have A: "unat (dr_application_bytes s) \<le> 1073741824"
    using assms(1) by (simp add: rekey_inv_def)
  have drain: "dr_absolute_sequence s < HARD_SEQUENCE_LIMIT \<Longrightarrow> dr_state s = DS_Open \<Longrightarrow>
      rekey_ok s (s\<lparr>dr_state := DS_Draining\<rparr>)"
    using assms by (auto simp: rekey_ok_def rekey_inv_def rekey_below_def word_nat)
  show ?thesis
    using assms A rekey_ok_consumed [of s d] rekey_ok_consumed [of s 0]
      rekey_ok_close_after [of s] rekey_ok_closed [of s] rekey_ok_refl [of s] drain
      data_over_budget_False [of s d]
    by (auto simp: local_record_request_def consume_record_ok word_nat not_le not_less)
qed

lemma rekey_ok_admit:
  assumes "rekey_inv s"
  shows "rekey_ok s (fst (admit_authenticated_peer_record s kind d))"
proof -
  have A: "unat (dr_application_bytes s) \<le> 1073741824"
    using assms(1) by (simp add: rekey_inv_def)
  show ?thesis
    using assms A rekey_ok_consumed [of s d] rekey_ok_consumed [of s 0]
      rekey_ok_close_after [of s] rekey_ok_refl [of s] data_over_budget_False [of s d]
    by (auto simp: admit_authenticated_peer_record_def consume_record_ok word_nat not_le not_less)
qed

lemma rekey_ok_reserve:
  assumes "rekey_inv s"
  shows "rekey_ok s (fst (reserve_generated_commit s))"
proof -
  have A: "unat (dr_application_bytes s) \<le> 1073741824"
    using assms(1) by (simp add: rekey_inv_def)
  show ?thesis
    using assms A rekey_ok_consumed [of s 0] rekey_ok_closed [of s]
    by (auto simp: reserve_generated_commit_def consume_record_ok word_nat not_le not_less)
qed

lemma rekey_ok_maybe_send_prepare:
  assumes "rekey_inv s"
  shows "rekey_ok s (fst (maybe_send_prepare s))"
proof -
  have A: "unat (dr_application_bytes s) \<le> 1073741824"
    "dr_state s = DS_Draining \<Longrightarrow> unat (dr_absolute_sequence s) \<le> 4294967296"
    using assms(1) by (simp_all add: rekey_inv_def)
  have "rekey_ok s (s\<lparr>dr_absolute_sequence := dr_absolute_sequence s + 1,
      dr_records_under_key := dr_records_under_key s + 1, dr_pending_prepare := Some p,
      dr_state := DS_WaitCommit\<rparr>)"
    if "dr_state s = DS_Draining" "unat (dr_records_under_key s) < 1048576"
      "checked_add (dr_key_epoch s) 1 = Some (rp_next_key_epoch p)" for p
    using assms that A consumed_counters [of s 0]
    by (auto simp: rekey_ok_def rekey_inv_def rekey_below_def word_nat arith_simps)
  then show ?thesis
    using assms A rekey_ok_refl [of s]
    by (auto simp: maybe_send_prepare_def consume_record_ok word_nat not_le not_less Let_def
        split: option.splits)
qed

lemma rekey_ok_peer_prepare: "rekey_inv s \<Longrightarrow> dr_state s \<noteq> DS_Closed \<Longrightarrow> rekey_ok s (fst (peer_prepare s p))"
  by (auto simp: peer_prepare_def rekey_ok_def rekey_inv_def rekey_below_def Let_def arith_simps)

lemma rekey_ok_apply_epoch:
  assumes "rekey_inv s" and "dr_pending_prepare s = Some p" and "dr_state s \<noteq> DS_Closed"
    and "prepared acts = []"
  shows "rekey_ok s (apply_epoch (s\<lparr>dr_prior_commit_epoch := Some (rp_next_key_epoch p),
    dr_prior_commit_result := Some acts\<rparr>) (rp_next_key_epoch p))"
  using assms by (auto simp: apply_epoch_def rekey_ok_def rekey_inv_def rekey_below_def word_nat)

lemma rekey_ok_commits:
  assumes "rekey_inv s" and "dr_state s \<noteq> DS_Closed"
  shows "rekey_ok s (fst (commit_queued s e))" and "rekey_ok s (fst (peer_commit s e))"
  using assms rekey_ok_apply_epoch [of s] rekey_ok_refl [of s]
  by (auto simp: commit_queued_def peer_commit_def Let_def split: option.splits)

lemma rekey_ok_reduce_event:
  assumes "rekey_inv s" and "dr_state s \<noteq> DS_Closed"
  shows "rekey_ok s (fst (reduce_event s e))"
proof (cases e)
  case Event_PriorRecordsAcked
  have "rekey_ok (s\<lparr>dr_acked := True\<rparr>) (fst (reduce_event s e))"
    using assms(1) Event_PriorRecordsAcked
    by (simp add: rekey_ok_maybe_send_prepare rekey_inv_def)
  then show ?thesis
    using assms(2) by (simp add: rekey_ok_def rekey_below_def)
next
  case Event_ReassemblyEmpty
  have "rekey_ok (s\<lparr>dr_reassembly_empty := True\<rparr>) (fst (reduce_event s e))"
    using assms(1) Event_ReassemblyEmpty
    by (simp add: rekey_ok_maybe_send_prepare rekey_inv_def)
  then show ?thesis
    using assms(2) by (simp add: rekey_ok_def rekey_below_def)
qed (use assms in \<open>auto simp: rekey_ok_refl rekey_ok_closed rekey_ok_local_record_request
      rekey_ok_peer_prepare rekey_ok_commits\<close>)

lemma rekey_ok_reduce: "rekey_inv s \<Longrightarrow> rekey_ok s (fst (reduce s e))"
  using rekey_ok_reduce_event [of s e]
  by (auto simp: reduce_def rekey_ok_refl rekey_ok_close_after split: prod.splits sum.splits)

lemma rekey_ok_step: "rekey_inv s \<Longrightarrow> rekey_ok s (rekey_step s c)"
  by (cases c) (simp_all add: rekey_ok_reduce rekey_ok_admit rekey_ok_reserve)

interpretation rekey: monotone_machine rekey_step "\<lambda>c. True" rekey_inv rekey_below
  by unfold_locales
    (use rekey_ok_step in \<open>auto simp: rekey_ok_def intro: rekey_below_refl rekey_below_trans\<close>)

section \<open>Sequence numbers\<close>

lemma bound_sequences_cases:
  assumes "rekey_inv s"
  shows "bound_sequences s c = [] \<or>
    (bound_sequences s c = [dr_absolute_sequence s] \<and> dr_absolute_sequence s < dr_absolute_sequence (rekey_step s c))"
proof -
  have A: "unat (dr_application_bytes s) \<le> 1073741824"
    "dr_state s = DS_Draining \<Longrightarrow> unat (dr_absolute_sequence s) \<le> 4294967296"
    using assms(1) by (simp_all add: rekey_inv_def)
  have inc: "unat (dr_absolute_sequence s) \<le> 4294967297 \<Longrightarrow>
      dr_absolute_sequence s < dr_absolute_sequence s + 1"
    by (simp add: word_nat unat_add_no_wrap)
  have prep: "\<lbrakk>snd (maybe_send_prepare t) = Inr acts; dr_application_bytes t = dr_application_bytes s;
      dr_absolute_sequence t = dr_absolute_sequence s; dr_state t = dr_state s\<rbrakk> \<Longrightarrow>
      prepared acts = [] \<or> (prepared acts = [dr_absolute_sequence s] \<and>
        dr_absolute_sequence s < dr_absolute_sequence (fst (maybe_send_prepare t)))" for t acts
    using A inc
    by (auto simp: maybe_send_prepare_def consume_record_ok word_nat not_le not_less Let_def
        split: option.splits if_splits)
  show ?thesis
  proof (cases c)
    case (Call_Reduce e)
    then show ?thesis
    proof (cases e)
      case (Event_LocalRecordRequest kind d)
      then show ?thesis
        using Call_Reduce A inc data_over_budget_False [of s d]
        by (auto simp: reduce_def local_record_request_def consume_record_ok word_nat not_le not_less
            split: sum.splits)
    next
      case Event_PriorRecordsAcked
      then show ?thesis
        using Call_Reduce prep [of "s\<lparr>dr_acked := True\<rparr>"]
        by (auto simp: reduce_def split: sum.splits prod.splits)
    next
      case Event_ReassemblyEmpty
      then show ?thesis
        using Call_Reduce prep [of "s\<lparr>dr_reassembly_empty := True\<rparr>"]
        by (auto simp: reduce_def split: sum.splits prod.splits)
    qed (use assms Call_Reduce in \<open>auto simp: reduce_def peer_prepare_def commit_queued_def
          peer_commit_def rekey_inv_def ok_or_def Let_def split: sum.splits option.splits if_splits\<close>)
  next
    case (Call_Admit kind d)
    then show ?thesis
      using A inc data_over_budget_False [of s d]
      by (auto simp: admit_authenticated_peer_record_def consume_record_ok word_nat not_le not_less)
  next
    case Call_ReserveCommit
    then show ?thesis
      using A inc
      by (auto simp: reserve_generated_commit_def consume_record_ok word_nat not_le not_less)
  qed
qed

lemma run_sequences_sorted:
  "rekey_inv s \<Longrightarrow> sorted_wrt (<) (run_sequences s cs) \<and> (\<forall>q \<in> set (run_sequences s cs). dr_absolute_sequence s \<le> q)"
proof (induction cs arbitrary: s)
  case Nil
  then show ?case by simp
next
  case (Cons c cs)
  have "rekey_inv (rekey_step s c)" and "dr_absolute_sequence s \<le> dr_absolute_sequence (rekey_step s c)"
    using rekey_ok_step [OF Cons.prems] by (simp_all add: rekey_ok_def rekey_below_def)
  with Cons.IH [OF this(1)] bound_sequences_cases [OF Cons.prems, of c]
  show ?case
    by (auto intro: order_trans) (metis less_le_trans)
qed

section \<open>Emitting a prepare\<close>

lemma maybe_send_prepare_emits:
  assumes "rekey_inv s" and "maybe_send_prepare s = (t, Inr [Action_SendPrepare p])"
  shows "unat (rp_next_key_epoch p) = unat (dr_key_epoch s) + 1 \<and> rp_direction p = dr_direction s
    \<and> rp_key_epoch p = dr_key_epoch s \<and> dr_absolute_sequence s \<noteq> 0
    \<and> rp_through_sequence p = dr_absolute_sequence s - 1 \<and> dr_state t = DS_WaitCommit
    \<and> dr_pending_prepare t = Some p \<and> dr_prior_commit_epoch t = dr_prior_commit_epoch s
    \<and> dr_absolute_sequence t = dr_absolute_sequence s + 1"
proof -
  have A: "unat (dr_application_bytes s) \<le> 1073741824"
    "dr_state s = DS_Draining \<Longrightarrow> unat (dr_absolute_sequence s) \<le> 4294967296"
    using assms(1) by (simp_all add: rekey_inv_def)
  show ?thesis
    using assms(2) A
    by (auto simp: maybe_send_prepare_def consume_record_ok word_nat not_le arith_simps Let_def
        split: if_splits option.splits)
qed

lemma emits_prepare:
  assumes "rekey_inv s" and "reduce s e = (t, Inr [Action_SendPrepare p])"
  shows "unat (rp_next_key_epoch p) = unat (dr_key_epoch s) + 1 \<and> rp_direction p = dr_direction s
    \<and> rp_key_epoch p = dr_key_epoch s \<and> dr_absolute_sequence s \<noteq> 0
    \<and> rp_through_sequence p = dr_absolute_sequence s - 1 \<and> dr_state t = DS_WaitCommit
    \<and> dr_pending_prepare t = Some p \<and> dr_prior_commit_epoch t = dr_prior_commit_epoch s
    \<and> dr_absolute_sequence t = dr_absolute_sequence s + 1"
proof (cases e)
  case Event_PriorRecordsAcked
  moreover have "rekey_inv (s\<lparr>dr_acked := True\<rparr>)"
    using assms(1) by (simp add: rekey_inv_def)
  ultimately show ?thesis
    using assms(2) maybe_send_prepare_emits [of "s\<lparr>dr_acked := True\<rparr>" t p]
    by (auto simp: reduce_def split: if_splits prod.splits sum.splits)
next
  case Event_ReassemblyEmpty
  moreover have "rekey_inv (s\<lparr>dr_reassembly_empty := True\<rparr>)"
    using assms(1) by (simp add: rekey_inv_def)
  ultimately show ?thesis
    using assms(2) maybe_send_prepare_emits [of "s\<lparr>dr_reassembly_empty := True\<rparr>" t p]
    by (auto simp: reduce_def split: if_splits prod.splits sum.splits)
next
  case (Event_LocalRecordRequest kind d)
  with assms show ?thesis
    by (auto simp: reduce_def local_record_request_def split: if_splits prod.splits sum.splits)
qed (use assms in \<open>auto simp: reduce_def peer_prepare_def commit_queued_def peer_commit_def Let_def
      result_simps rekey_inv_def split: if_splits prod.splits sum.splits option.splits\<close>)

section \<open>A concrete direction and prepare\<close>

abbreviation sample_direction :: directional_rekey where
  "sample_direction \<equiv> \<lparr>dr_direction = 1, dr_absolute_sequence = 9, dr_key_epoch = 0, dr_records_under_key = 9,
    dr_application_bytes = 0, dr_state = DS_Open, dr_acked = False, dr_reassembly_empty = False,
    dr_pending_prepare = None, dr_prior_prepare = None, dr_prior_prepare_result = None,
    dr_prior_commit_epoch = None, dr_prior_commit_result = None\<rparr>"

abbreviation sample_prepare :: rekey_prepare where
  "sample_prepare \<equiv> \<lparr>rp_direction = 1, rp_key_epoch = 0, rp_next_key_epoch = 1, rp_through_sequence = 8\<rparr>"

section \<open>Repeated peer messages\<close>

lemma reduce_Inr_iff:
  "reduce s e = (t, Inr acts) \<longleftrightarrow> dr_state s \<noteq> DS_Closed \<and> reduce_event s e = (t, Inr acts)"
  by (auto simp: reduce_def split: prod.splits sum.splits)

lemma repeat_peer_prepare:
  assumes "reduce s (Event_PeerPrepare p) = (t, Inr acts)"
  shows "reduce t (Event_PeerPrepare p) = (t, Inr acts)"
proof -
  have "dr_prior_prepare t = Some p \<and> dr_prior_prepare_result t = Some acts \<and> dr_state t \<noteq> DS_Closed"
    using assms
    by (cases "dr_prior_prepare s = Some p")
      (auto simp: reduce_Inr_iff peer_prepare_def result_simps Let_def split: if_splits)
  then show ?thesis by (simp add: reduce_Inr_iff peer_prepare_def)
qed

lemma repeat_commit_queued:
  assumes "reduce s (Event_CommitDurablyQueued k) = (t, Inr acts)"
  shows "reduce t (Event_CommitDurablyQueued k) = (t, Inr acts)"
proof -
  have "dr_prior_commit_epoch t = Some k \<and> dr_prior_commit_result t = Some acts \<and> dr_state t \<noteq> DS_Closed"
    using assms
    by (cases "dr_prior_commit_epoch s = Some k")
      (auto simp: reduce_Inr_iff commit_queued_def apply_epoch_def result_simps Let_def
        split: if_splits option.splits)
  then show ?thesis by (simp add: reduce_Inr_iff commit_queued_def)
qed

lemma repeat_peer_commit:
  assumes "reduce s (Event_PeerCommitAuthenticated k) = (t, Inr acts)"
  shows "reduce t (Event_PeerCommitAuthenticated k) = (t, Inr acts)"
proof -
  have "dr_prior_commit_epoch t = Some k \<and> dr_prior_commit_result t = Some acts \<and> dr_state t \<noteq> DS_Closed"
    using assms
    by (cases "dr_prior_commit_epoch s = Some k")
      (auto simp: reduce_Inr_iff peer_commit_def apply_epoch_def result_simps Let_def
        split: if_splits option.splits)
  then show ?thesis by (simp add: reduce_Inr_iff peer_commit_def)
qed

section \<open>Properties\<close>

text \<open>
  C4. Nonce uniqueness. From a fresh direction, whatever sequence of reducer events, peer-record
  admissions and generated commits is made, the sequence numbers bound to records are strictly
  increasing: no sequence number (and so no AEAD nonce) is ever used for two records.
\<close>

theorem rekey_sequences_never_reused:
  assumes "directional_rekey_new d = Inr s"
  shows "sorted_wrt (<) (run_sequences s cs)"
  using run_sequences_sorted rekey_inv_new [OF assms] by blast

theorem rekey_sequences_never_reused_witness:
  "\<exists>s. directional_rekey_new 1 = Inr s \<and>
     run_sequences s [Call_Reduce (Event_LocalRecordRequest Kind_Data 5), Call_ReserveCommit,
       Call_Reduce (Event_LocalRecordRequest Kind_Ack 0)] = [0, 1, 2] \<and>
     sorted_wrt (<) (run_sequences s [Call_Reduce (Event_LocalRecordRequest Kind_Data 5), Call_ReserveCommit,
       Call_Reduce (Event_LocalRecordRequest Kind_Ack 0)])"
proof -
  obtain s where s: "directional_rekey_new 1 = Inr s"
    by (simp add: directional_rekey_new_def)
  moreover have "run_sequences s [Call_Reduce (Event_LocalRecordRequest Kind_Data 5), Call_ReserveCommit,
       Call_Reduce (Event_LocalRecordRequest Kind_Ack 0)] = [0, 1, 2]"
    using s by (auto simp: directional_rekey_new_def reduce_def local_record_request_def
      reserve_generated_commit_def consume_record_def checked_add_def data_over_budget_def word_nat unat_add_no_wrap)
  ultimately show ?thesis
    using rekey_sequences_never_reused [OF s] by blast
qed

text \<open>
  C10. Key budgets. Along every run from a fresh direction the records sealed under one key never exceed
  \<open>MAX_RECORDS\<close>, its application bytes never exceed \<open>MAX_APPLICATION_BYTES\<close>, and the sequence stays
  within one of the hard limit; sequence and epoch never move backwards.
\<close>

theorem rekey_budgets:
  assumes "directional_rekey_new d = Inr s"
  shows "dr_records_under_key (foldl rekey_step s cs) \<le> MAX_RECORDS
    \<and> dr_application_bytes (foldl rekey_step s cs) \<le> MAX_APPLICATION_BYTES
    \<and> dr_absolute_sequence (foldl rekey_step s cs) \<le> HARD_SEQUENCE_LIMIT + 1
    \<and> dr_key_epoch (foldl rekey_step s cs) \<le> dr_key_epoch (foldl rekey_step s (cs @ cs'))
    \<and> dr_absolute_sequence (foldl rekey_step s cs) \<le> dr_absolute_sequence (foldl rekey_step s (cs @ cs'))"
proof -
  have inv: "rekey_inv (foldl rekey_step s cs)"
    using rekey.inv_run [OF rekey_inv_new [OF assms], of cs] by (simp add: list_all_iff)
  moreover have "rekey_below (foldl rekey_step s cs) (foldl rekey_step s (cs @ cs'))"
    using rekey.below_run [OF inv, of cs'] by (simp add: list_all_iff)
  moreover have "unat (HARD_SEQUENCE_LIMIT + 1) = 4294967297"
    by (simp add: unat_add_no_wrap)
  ultimately show ?thesis
    by (simp add: rekey_inv_def rekey_below_def word_nat)
qed

theorem rekey_budgets_witness:
  "\<exists>s. directional_rekey_new 2 = Inr s \<and>
     dr_records_under_key (foldl rekey_step s [Call_Admit Kind_Data 7]) = 1 \<and>
     dr_records_under_key (foldl rekey_step s [Call_Admit Kind_Data 7]) \<le> MAX_RECORDS"
proof -
  obtain s where s: "directional_rekey_new 2 = Inr s"
    by (simp add: directional_rekey_new_def)
  moreover have "dr_records_under_key (foldl rekey_step s [Call_Admit Kind_Data 7]) = 1"
    using s by (auto simp: directional_rekey_new_def admit_authenticated_peer_record_def
      consume_record_def checked_add_def data_over_budget_def word_nat unat_add_no_wrap)
  ultimately show ?thesis
    using rekey_budgets [OF s, of "[Call_Admit Kind_Data 7]" "[]"] by blast
qed

text \<open>
  Fail closed. When the reducer answers an event with an error the direction is closed, and a
  closed direction neither changes nor binds a sequence number, whatever is called on it.
\<close>

theorem rekey_error_closes:
  assumes "snd (reduce s e) = Inl err"
  shows "dr_state (fst (reduce s e)) = DS_Closed
    \<and> foldl rekey_step (fst (reduce s e)) cs = fst (reduce s e)
    \<and> run_sequences (fst (reduce s e)) cs = []"
proof -
  have closed: "dr_state (fst (reduce s e)) = DS_Closed"
    using assms by (auto simp: reduce_def split: if_splits prod.splits sum.splits)
  have "dr_state t = DS_Closed \<Longrightarrow> rekey_step t c = t" for t c
    by (cases t; cases c)
      (auto simp: reduce_def admit_authenticated_peer_record_def reserve_generated_commit_def)
  moreover have "dr_state t = DS_Closed \<Longrightarrow> bound_sequences t c = []" for t c
    by (cases "(t, c)" rule: bound_sequences.cases)
      (auto simp: reduce_def admit_authenticated_peer_record_def reserve_generated_commit_def)
  ultimately have "dr_state t = DS_Closed \<Longrightarrow> foldl rekey_step t cs = t \<and> run_sequences t cs = []" for t
    by (induction cs) auto
  with closed show ?thesis by blast
qed

theorem rekey_error_closes_witness:
  "\<exists>s. directional_rekey_new 1 = Inr s
     \<and> snd (reduce s (Event_PeerCommitAuthenticated 3)) = Inl InvalidRekey
     \<and> foldl rekey_step (fst (reduce s (Event_PeerCommitAuthenticated 3)))
         [Call_Reduce (Event_LocalRecordRequest Kind_Data 1), Call_Admit Kind_Data 1]
       = fst (reduce s (Event_PeerCommitAuthenticated 3))"
proof -
  obtain s where s: "directional_rekey_new 1 = Inr s"
    by (simp add: directional_rekey_new_def)
  moreover from s have err: "snd (reduce s (Event_PeerCommitAuthenticated 3)) = Inl InvalidRekey"
    by (auto simp: directional_rekey_new_def reduce_def peer_commit_def)
  ultimately show ?thesis
    using rekey_error_closes [OF err] by blast
qed

text \<open>
  Idempotent peer messages. A prepare, a durable-commit notice or a peer commit that was answered
  with actions is answered with the same actions when it is repeated, and the state does not move.
\<close>

theorem rekey_repeat_is_idempotent:
  assumes "e = Event_PeerPrepare p \<or> e = Event_CommitDurablyQueued k \<or> e = Event_PeerCommitAuthenticated k"
    and "reduce s e = (t, Inr acts)"
  shows "reduce t e = (t, Inr acts)"
  using assms repeat_peer_prepare repeat_commit_queued repeat_peer_commit by blast

theorem rekey_repeat_is_idempotent_witness:
  "\<exists>s t. reduce s (Event_PeerPrepare sample_prepare)
      = (t, Inr [Action_SendCommit 1 1])
    \<and> reduce t (Event_PeerPrepare sample_prepare)
      = (t, Inr [Action_SendCommit 1 1])"
proof -
  let ?p = "sample_prepare"
  let ?s = "sample_direction"
  have "\<exists>t. reduce ?s (Event_PeerPrepare ?p) = (t, Inr [Action_SendCommit 1 1])"
    by (simp add: reduce_def peer_prepare_def checked_add_def Let_def)
  then obtain t where "reduce ?s (Event_PeerPrepare ?p) = (t, Inr [Action_SendCommit 1 1])" by blast
  with rekey_repeat_is_idempotent [of "Event_PeerPrepare ?p" ?p 0 ?s t] show ?thesis by blast
qed

text \<open>
  The rekey exchange as the reducer alone has it. When a sending direction emits a prepare and the receiving
  direction for it has not counted the prepare, so that it stands at its sequence number under the same key,
  the three messages complete: the receiver answers with a commit for the next epoch and both directions open
  under that epoch with fresh budgets. \<open>NoiseChild::decrypt_record\<close> counts every record before it is reduced,
  so the composed child does not meet this condition; what it does instead is the next theorem.
\<close>

theorem rekey_barrier_completes:
  assumes "rekey_inv s" and "rekey_inv r"
    and "reduce s e = (s1, Inr [Action_SendPrepare p])"
    and "dr_state r = DS_Open \<or> dr_state r = DS_Draining"
    and "dr_direction r = dr_direction s" and "dr_key_epoch r = dr_key_epoch s"
    and "dr_absolute_sequence r = dr_absolute_sequence s"
  shows "\<exists>r1 r2 s2 k. unat k = unat (dr_key_epoch s) + 1
    \<and> reduce r (Event_PeerPrepare p) = (r1, Inr [Action_SendCommit (dr_direction s) k])
    \<and> reduce r1 (Event_CommitDurablyQueued k)
        = (r2, Inr [Action_ApplyReceiveRekey k, Action_Open (dr_absolute_sequence r) k])
    \<and> reduce s1 (Event_PeerCommitAuthenticated k)
        = (s2, Inr [Action_ApplySendRekey k, Action_Open (dr_absolute_sequence s1) k])
    \<and> dr_state r2 = DS_Open \<and> dr_state s2 = DS_Open \<and> dr_key_epoch r2 = k \<and> dr_key_epoch s2 = k
    \<and> dr_records_under_key r2 = 0 \<and> dr_records_under_key s2 = 0"
proof -
  let ?k = "rp_next_key_epoch p"
  have A: "unat (dr_application_bytes s) \<le> 1073741824"
    "dr_state s = DS_Draining \<Longrightarrow> unat (dr_absolute_sequence s) \<le> 4294967296"
    using assms(1) by (simp_all add: rekey_inv_def)
  have p: "unat ?k = unat (dr_key_epoch s) + 1" "rp_direction p = dr_direction s"
      "rp_key_epoch p = dr_key_epoch s" "dr_absolute_sequence s \<noteq> 0"
      "rp_through_sequence p = dr_absolute_sequence s - 1"
    and s1: "dr_state s1 = DS_WaitCommit" "dr_pending_prepare s1 = Some p"
      "dr_prior_commit_epoch s1 = dr_prior_commit_epoch s"
    using emits_prepare [OF assms(1, 3)] by simp_all
  have fresh: "dr_prior_commit_epoch s \<noteq> Some ?k" "dr_prior_commit_epoch r \<noteq> Some ?k"
      "dr_prior_prepare r \<noteq> Some p" "dr_pending_prepare r = None"
    using assms(1, 2, 4, 6) p(1) by (auto simp: rekey_inv_def)
  have k: "checked_add (dr_key_epoch s) 1 = Some ?k"
    using p(1) by (simp add: arith_simps)
  have r1: "reduce r (Event_PeerPrepare p) =
      (r\<lparr>dr_pending_prepare := Some p, dr_prior_prepare := Some p,
         dr_prior_prepare_result := Some [Action_SendCommit (dr_direction s) ?k],
         dr_state := DS_PrepareReceived\<rparr>, Inr [Action_SendCommit (dr_direction s) ?k])"
    using p k fresh(3,4) assms(4-7) by (auto simp: reduce_def peer_prepare_def Let_def)
  have r2: "reduce r' (Event_CommitDurablyQueued ?k) =
      (apply_epoch (r'\<lparr>dr_prior_commit_epoch := Some ?k, dr_prior_commit_result :=
         Some [Action_ApplyReceiveRekey ?k, Action_Open (dr_absolute_sequence r) ?k]\<rparr>) ?k,
       Inr [Action_ApplyReceiveRekey ?k, Action_Open (dr_absolute_sequence r) ?k])"
    if "dr_pending_prepare r' = Some p" "dr_state r' = DS_PrepareReceived"
      "dr_prior_commit_epoch r' = dr_prior_commit_epoch r"
      "dr_absolute_sequence r' = dr_absolute_sequence r" for r'
    using that fresh(2) by (simp add: reduce_def commit_queued_def Let_def)
  have s2: "reduce s1 (Event_PeerCommitAuthenticated ?k) =
      (apply_epoch (s1\<lparr>dr_prior_commit_epoch := Some ?k, dr_prior_commit_result :=
         Some [Action_ApplySendRekey ?k, Action_Open (dr_absolute_sequence s1) ?k]\<rparr>) ?k,
       Inr [Action_ApplySendRekey ?k, Action_Open (dr_absolute_sequence s1) ?k])"
    using s1 fresh(1) by (simp add: reduce_def peer_commit_def Let_def)
  show ?thesis
    by (intro exI conjI, rule p(1), rule r1, rule r2, simp_all, rule s2)
      (simp_all add: apply_epoch_def)
qed

theorem rekey_barrier_completes_witness:
  "\<exists>s r p s1 r1. rekey_inv s \<and> rekey_inv r \<and> dr_absolute_sequence r = dr_absolute_sequence s
    \<and> reduce s Event_ReassemblyEmpty = (s1, Inr [Action_SendPrepare p])
    \<and> reduce r (Event_PeerPrepare p) = (r1, Inr [Action_SendCommit 1 1])"
proof -
  let ?r = "sample_direction"
  let ?s = "?r\<lparr>dr_state := DS_Draining, dr_acked := True\<rparr>"
  let ?p = "sample_prepare"
  have inv: "rekey_inv ?s" "rekey_inv ?r"
    by (simp_all add: rekey_inv_def)
  obtain s1 where s1: "reduce ?s Event_ReassemblyEmpty = (s1, Inr [Action_SendPrepare ?p])"
    by (simp add: reduce_def maybe_send_prepare_def consume_record_def checked_add_def word_nat Let_def)
  obtain r1 k where "unat k = unat (dr_key_epoch ?s) + 1"
      "reduce ?r (Event_PeerPrepare ?p) = (r1, Inr [Action_SendCommit (dr_direction ?s) k])"
    using rekey_barrier_completes [OF inv s1] by auto
  moreover from this(1) have "k = 1"
    by (simp add: word_unat_eq_iff)
  ultimately have "reduce ?r (Event_PeerPrepare ?p) = (r1, Inr [Action_SendCommit 1 1])" by simp
  with inv s1 show ?thesis
    by (intro exI [of _ ?s] exI [of _ ?r] exI [of _ ?p] exI [of _ s1] exI [of _ r1]) simp
qed

text \<open>
  The prepare of a live child is refused. A receiving direction that admits the prepare as an
  authenticated record, as \<open>NoiseChild::decrypt_record\<close> does before anything else, has counted it; the
  \<open>through_sequence\<close> of the prepare names the record before it, so the reducer then rejects the
  prepare and closes the direction.
\<close>

theorem rekey_prepare_refused_after_admission:
  assumes "rekey_inv s" and "rekey_inv r"
    and "reduce s e = (s1, Inr [Action_SendPrepare p])"
    and "dr_key_epoch r = dr_key_epoch s"
    and "dr_absolute_sequence r = dr_absolute_sequence s"
    and "dr_state r = DS_Open"
    and "admit_authenticated_peer_record r Kind_RekeyPrepare n = (r1, Inr ())"
  shows "snd (reduce r1 (Event_PeerPrepare p)) = Inl InvalidRekey
    \<and> dr_state (fst (reduce r1 (Event_PeerPrepare p))) = DS_Closed"
proof -
  have through: "rp_through_sequence p = dr_absolute_sequence s - 1"
    and next_epoch: "unat (rp_next_key_epoch p) = unat (dr_key_epoch s) + 1"
    using emits_prepare [OF assms(1, 3)] by simp_all
  have "unat (dr_application_bytes r) \<le> 1073741824"
    using assms(2) by (simp add: rekey_inv_def)
  then have r1: "dr_absolute_sequence r1 = dr_absolute_sequence r + 1" "dr_state r1 = DS_Open"
      "dr_prior_prepare r1 = dr_prior_prepare r"
    using assms(6, 7)
    by (auto simp: admit_authenticated_peer_record_def consume_record_ok word_nat not_le
        split: if_splits)
  have "dr_prior_prepare r \<noteq> Some p"
    using assms(2, 4, 6) next_epoch by (auto simp: rekey_inv_def)
  moreover have "rp_through_sequence p \<noteq> dr_absolute_sequence r1 - 1"
    using through assms(5) r1(1) by simp
  ultimately show ?thesis
    using r1 by (simp add: reduce_def peer_prepare_def)
qed

theorem rekey_prepare_refused_after_admission_witness:
  "\<exists>s r p s1 r1. reduce s Event_ReassemblyEmpty = (s1, Inr [Action_SendPrepare p])
    \<and> admit_authenticated_peer_record r Kind_RekeyPrepare 17 = (r1, Inr ())
    \<and> dr_absolute_sequence r = dr_absolute_sequence s
    \<and> snd (reduce r1 (Event_PeerPrepare p)) = Inl InvalidRekey"
proof -
  let ?r = "sample_direction"
  let ?s = "?r\<lparr>dr_state := DS_Draining, dr_acked := True\<rparr>"
  let ?p = "sample_prepare"
  have inv: "rekey_inv ?s" "rekey_inv ?r"
    by (simp_all add: rekey_inv_def)
  obtain s1 where s1: "reduce ?s Event_ReassemblyEmpty = (s1, Inr [Action_SendPrepare ?p])"
    by (simp add: reduce_def maybe_send_prepare_def consume_record_def checked_add_def word_nat Let_def)
  obtain r1 where r1: "admit_authenticated_peer_record ?r Kind_RekeyPrepare 17 = (r1, Inr ())"
    by (simp add: admit_authenticated_peer_record_def consume_record_def checked_add_def word_nat)
  have "snd (reduce r1 (Event_PeerPrepare ?p)) = Inl InvalidRekey"
    using rekey_prepare_refused_after_admission [OF inv s1 _ _ _ r1] by simp
  with s1 r1 show ?thesis
    by (intro exI [of _ ?s] exI [of _ ?r] exI [of _ ?p] exI [of _ s1] exI [of _ r1]) simp
qed

end
