(* ===== verification/Noise_Child.thy ===== *)
theory Noise_Child
  imports Noise_Rekey
begin

text \<open>
  The Noise child (\<open>crates/cockpit-noise/src/core.rs\<close>): handshake phases, transcript authorization,
  record encryption and decryption, rekey control records, and closing. The state is the record
  \<open>noise_child\<close>; every operation returns the state and its result.

  The \<open>snow\<close> crate is a parameter: a record of the operations the code calls, over an arbitrary type
  \<open>'h\<close> of handshake states and \<open>'t\<close> of transport states. Encryption may fail (\<open>None\<close>) in every
  operation, as in the code. Zeroization of buffers has no observable effect and is left out.

  Shown here: the phase determines which key material is held; a closed child stays closed and gives
  nothing out; the plaintexts sealed along any run carry the sequence numbers 0, 1, 2, ...; and two
  children over a faithful channel exchange records exactly.
\<close>

section \<open>Definitions\<close>

datatype endpoint_role = ClientInitiator | DaemonResponder

datatype handshake_phase =
    WriteOne | ReadOne | WriteTwo | ReadTwo | AwaitAuthorization | Transport | PhaseClosed

record ('h, 't) snow =
  sn_build :: "endpoint_role \<Rightarrow> bytes \<Rightarrow> 'h option"
  sn_write_handshake :: "'h \<Rightarrow> 'h \<times> bytes option"
  sn_read_handshake :: "'h \<Rightarrow> bytes \<Rightarrow> 'h \<times> nat option"
  sn_is_finished :: "'h \<Rightarrow> bool"
  sn_handshake_hash :: "'h \<Rightarrow> bytes"
  sn_into_transport :: "'h \<Rightarrow> 't option"
  sn_write :: "'t \<Rightarrow> bytes \<Rightarrow> 't \<times> bytes option"
  sn_read :: "'t \<Rightarrow> bytes \<Rightarrow> 't \<times> bytes option"
  sn_rekey_outgoing :: "'t \<Rightarrow> 't"
  sn_rekey_incoming :: "'t \<Rightarrow> 't"

record authorization_request =
  ar_child_attempt_id :: id16
  ar_transport_epoch :: u32
  ar_handshake_hash :: digest32
  ar_prologue_digest :: digest32
  ar_connection_nonce :: digest32
  ar_initiator_ephemeral :: digest32
  ar_responder_ephemeral :: digest32
  ar_client_final_proof :: bytes
  ar_daemon_final_proof :: bytes

record ('h, 't) noise_child =
  nc_role :: endpoint_role
  nc_phase :: handshake_phase
  nc_prologue :: noise_prologue
  nc_transport_epoch :: u32
  nc_handshake :: "'h option"
  nc_transport :: "'t option"
  nc_initiator_ephemeral :: "digest32 option"
  nc_responder_ephemeral :: "digest32 option"
  nc_send_sequence :: u64
  nc_receive_sequence :: u64
  nc_send_rekey :: directional_rekey
  nc_receive_rekey :: directional_rekey
  nc_pending_control_action :: "rekey_action option"
  nc_last_control_ciphertext :: "(rekey_action \<times> bytes \<times> bytes) option"
  nc_fallback_route_generation :: "u64 option"
  nc_closed_due_to_failure :: bool

definition noise_child_new ::
    "('h, 't) snow \<Rightarrow> endpoint_role \<Rightarrow> bytes \<Rightarrow> u32 \<Rightarrow> noise_error + ('h, 't) noise_child" where
  "noise_child_new sn role prologue_bytes transport_epoch =
     rbind (prologue_decode prologue_bytes) (\<lambda>prologue.
     rbind (ok_or CryptoUnavailable (sn_build sn role prologue_bytes)) (\<lambda>handshake.
     rbind (directional_rekey_new (case role of ClientInitiator \<Rightarrow> 1 | DaemonResponder \<Rightarrow> 2)) (\<lambda>send_rekey.
     rbind (directional_rekey_new (case role of ClientInitiator \<Rightarrow> 2 | DaemonResponder \<Rightarrow> 1)) (\<lambda>receive_rekey.
       Inr \<lparr>nc_role = role,
         nc_phase = (case role of ClientInitiator \<Rightarrow> WriteOne | DaemonResponder \<Rightarrow> ReadOne),
         nc_prologue = prologue, nc_transport_epoch = transport_epoch, nc_handshake = Some handshake,
         nc_transport = None, nc_initiator_ephemeral = None, nc_responder_ephemeral = None,
         nc_send_sequence = 0, nc_receive_sequence = 0, nc_send_rekey = send_rekey,
         nc_receive_rekey = receive_rekey, nc_pending_control_action = None,
         nc_last_control_ciphertext = None, nc_fallback_route_generation = None,
         nc_closed_due_to_failure = False\<rparr>))))"

definition child_close :: "('h, 't) noise_child \<Rightarrow> ('h, 't) noise_child" where
  "child_close c =
     c\<lparr>nc_handshake := None, nc_transport := None, nc_phase := PhaseClosed, nc_send_sequence := 0,
       nc_receive_sequence := 0, nc_last_control_ciphertext := None, nc_pending_control_action := None,
       nc_fallback_route_generation := None\<rparr>"

definition child_fail ::
    "('h, 't) noise_child \<Rightarrow> noise_error \<Rightarrow> ('h, 't) noise_child \<times> (noise_error + 'r)" where
  "child_fail c error =
     (let closed_due_to_failure = (nc_phase c = Transport) in
      ((child_close c)\<lparr>nc_closed_due_to_failure := closed_due_to_failure\<rparr>, Inl error))"

definition child_invalid_state ::
    "('h, 't) noise_child \<Rightarrow> ('h, 't) noise_child \<times> (noise_error + 'r)" where
  "child_invalid_state c =
     (if nc_phase c = PhaseClosed \<and> nc_closed_due_to_failure c then (c, Inl NoiseClosed)
      else child_fail c InvalidState)"

text \<open>\<open>capture_ephemeral\<close> stores the key before it reports that the slot was taken.\<close>

definition capture_ephemeral ::
    "u8 \<Rightarrow> bytes \<Rightarrow> ('h, 't) noise_child \<Rightarrow> ('h, 't) noise_child \<times> (noise_error + unit)" where
  "capture_ephemeral index message c =
     (if length message < 32 then (c, Inl InvalidHandshakeFrame)
      else let key = rd256 0 message in
        if list_all (\<lambda>b. b = 0) (take 32 message) then (c, Inl LowOrderKey)
        else if index = 1 then
          (c\<lparr>nc_initiator_ephemeral := Some key\<rparr>,
           if nc_initiator_ephemeral c \<noteq> None then Inl InvalidState else Inr ())
        else
          (c\<lparr>nc_responder_ephemeral := Some key\<rparr>,
           if nc_responder_ephemeral c \<noteq> None then Inl InvalidState else Inr ()))"

definition write_handshake ::
    "('h, 't) snow \<Rightarrow> ('h, 't) noise_child \<Rightarrow> ('h, 't) noise_child \<times> (noise_error + bytes)" where
  "write_handshake sn c =
     (case (if nc_phase c = WriteOne then Some 1 else if nc_phase c = WriteTwo then Some 2 else None) of
        None \<Rightarrow> child_invalid_state c
      | Some index \<Rightarrow>
        (case nc_handshake c of
           None \<Rightarrow> (c, Inl InvalidState)
         | Some h \<Rightarrow>
           (case sn_write_handshake sn h of
              (h, None) \<Rightarrow> child_fail (c\<lparr>nc_handshake := Some h\<rparr>) AuthenticationFailed
            | (h, Some message) \<Rightarrow>
              (case capture_ephemeral index message (c\<lparr>nc_handshake := Some h\<rparr>) of
                 (c, Inl e) \<Rightarrow> child_fail c e
               | (c, Inr _) \<Rightarrow>
                 (c\<lparr>nc_phase := (if index = 1 then ReadTwo else AwaitAuthorization)\<rparr>,
                  handshake_frame_encode index message)))))"

definition read_handshake ::
    "('h, 't) snow \<Rightarrow> ('h, 't) noise_child \<Rightarrow> bytes \<Rightarrow> ('h, 't) noise_child \<times> (noise_error + unit)" where
  "read_handshake sn c framed =
     (case (if nc_phase c = ReadOne then Some 1 else if nc_phase c = ReadTwo then Some 2 else None) of
        None \<Rightarrow> child_invalid_state c
      | Some expected \<Rightarrow>
        (case handshake_frame_decode framed expected of
           Inl e \<Rightarrow> child_fail c e
         | Inr frame \<Rightarrow>
           (case capture_ephemeral expected (hf_message frame) c of
              (c, Inl e) \<Rightarrow> child_fail c e
            | (c, Inr _) \<Rightarrow>
              (case nc_handshake c of
                 None \<Rightarrow> (c, Inl InvalidState)
               | Some h \<Rightarrow>
                 (case sn_read_handshake sn h (hf_message frame) of
                    (h, None) \<Rightarrow> child_fail (c\<lparr>nc_handshake := Some h\<rparr>) AuthenticationFailed
                  | (h, Some n) \<Rightarrow>
                    if n \<noteq> 0 then child_fail (c\<lparr>nc_handshake := Some h\<rparr>) HandshakePayloadForbidden
                    else (c\<lparr>nc_handshake := Some h,
                            nc_phase := (if expected = 1 then WriteTwo else AwaitAuthorization)\<rparr>,
                          Inr ()))))))"

definition authorization_request_of ::
    "('h, 't) snow \<Rightarrow> (bytes \<Rightarrow> digest32) \<Rightarrow> ('h, 't) noise_child \<Rightarrow> 'h \<Rightarrow> bytes \<Rightarrow> bytes
      \<Rightarrow> noise_error + authorization_request" where
  "authorization_request_of sn sha c h client_final_proof daemon_final_proof =
     (if length (sn_handshake_hash sn h) \<noteq> 32 then Inl InvalidState
      else rbind (ok_or InvalidState (nc_initiator_ephemeral c)) (\<lambda>initiator.
        rbind (ok_or InvalidState (nc_responder_ephemeral c)) (\<lambda>responder.
        Inr \<lparr>ar_child_attempt_id = np_child_attempt_id (nc_prologue c),
             ar_transport_epoch = nc_transport_epoch c,
             ar_handshake_hash = rd256 0 (sn_handshake_hash sn h),
             ar_prologue_digest = prologue_digest sha (nc_prologue c),
             ar_connection_nonce = np_connection_nonce (nc_prologue c),
             ar_initiator_ephemeral = initiator, ar_responder_ephemeral = responder,
             ar_client_final_proof = client_final_proof, ar_daemon_final_proof = daemon_final_proof\<rparr>)))"

text \<open>The gate is a caller-supplied trait object; \<open>gate request\<close> says whether it grants a capability.\<close>

definition child_authorize ::
    "('h, 't) snow \<Rightarrow> (bytes \<Rightarrow> digest32) \<Rightarrow> (authorization_request \<Rightarrow> bool) \<Rightarrow> ('h, 't) noise_child
      \<Rightarrow> bytes \<Rightarrow> bytes \<Rightarrow> ('h, 't) noise_child \<times> (noise_error + unit)" where
  "child_authorize sn sha gate c client_final_proof daemon_final_proof =
     (if nc_phase c \<noteq> AwaitAuthorization \<or> client_final_proof = [] \<or> daemon_final_proof = []
      then child_fail c AuthorizationDenied
      else case nc_handshake c of
        None \<Rightarrow> (c, Inl InvalidState)
      | Some h \<Rightarrow>
        if \<not> sn_is_finished sn h then child_invalid_state c
        else case authorization_request_of sn sha c h client_final_proof daemon_final_proof of
          Inl e \<Rightarrow> (c, Inl e)
        | Inr request \<Rightarrow>
          if \<not> gate request then child_fail c AuthorizationDenied
          else case sn_into_transport sn h of
            None \<Rightarrow> child_fail (c\<lparr>nc_handshake := None\<rparr>) AuthenticationFailed
          | Some t \<Rightarrow> (c\<lparr>nc_handshake := None, nc_transport := Some t, nc_phase := Transport\<rparr>, Inr ()))"

subsection \<open>Records\<close>

fun find_open :: "rekey_action list \<Rightarrow> u64 option" where
  "find_open [] = None"
| "find_open (Action_Open sequence _ # rest) = Some sequence"
| "find_open (_ # rest) = find_open rest"

definition encrypt_record ::
    "('h, 't) snow \<Rightarrow> ('h, 't) noise_child \<Rightarrow> record_kind \<Rightarrow> bytes
      \<Rightarrow> ('h, 't) noise_child \<times> (noise_error + bytes)" where
  "encrypt_record sn c kind payload =
     (if nc_phase c \<noteq> Transport then child_invalid_state c
      else if length payload > MAX_PAYLOAD then (c, Inl RecordTooLarge)
      else case reduce (nc_send_rekey c) (Event_LocalRecordRequest kind (of_nat (length payload))) of
        (rk, Inl e) \<Rightarrow> child_fail (c\<lparr>nc_send_rekey := rk\<rparr>) e
      | (rk, Inr actions) \<Rightarrow>
        let c = c\<lparr>nc_send_rekey := rk\<rparr> in
        case find_open actions of
          None \<Rightarrow> (c, Inl BudgetExceeded)
        | Some sequence \<Rightarrow>
          if sequence \<noteq> nc_send_sequence c then child_fail c SequenceMismatch
          else case encode_plaintext \<lparr>nr_kind = kind, nr_sequence = sequence, nr_payload = payload\<rparr> of
            Inl e \<Rightarrow> (c, Inl e)
          | Inr plaintext \<Rightarrow>
            (case nc_transport c of
               None \<Rightarrow> (c, Inl InvalidState)
             | Some t \<Rightarrow>
               (case sn_write sn t plaintext of
                  (t, None) \<Rightarrow> child_fail (c\<lparr>nc_transport := Some t\<rparr>) AuthenticationFailed
                | (t, Some ciphertext) \<Rightarrow>
                  let c = c\<lparr>nc_transport := Some t\<rparr> in
                  if length ciphertext > MAX_CIPHERTEXT then child_fail c RecordTooLarge
                  else case checked_add (nc_send_sequence c) 1 of
                    None \<Rightarrow> (c, Inl SequenceExhausted)
                  | Some next_sequence \<Rightarrow> (c\<lparr>nc_send_sequence := next_sequence\<rparr>, Inr ciphertext))))"

definition decrypt_record ::
    "('h, 't) snow \<Rightarrow> ('h, 't) noise_child \<Rightarrow> u64 \<Rightarrow> bytes
      \<Rightarrow> ('h, 't) noise_child \<times> (noise_error + noise_record)" where
  "decrypt_record sn c routing_sequence ciphertext =
     (if nc_phase c \<noteq> Transport then child_invalid_state c
      else if length ciphertext > MAX_CIPHERTEXT then child_fail c RecordTooLarge
      else if routing_sequence \<noteq> nc_receive_sequence c then child_fail c SequenceMismatch
      else case nc_transport c of
        None \<Rightarrow> (c, Inl InvalidState)
      | Some t \<Rightarrow>
        (case sn_read sn t ciphertext of
           (t, None) \<Rightarrow> child_fail (c\<lparr>nc_transport := Some t\<rparr>) AuthenticationFailed
         | (t, Some plaintext) \<Rightarrow>
           let c = c\<lparr>nc_transport := Some t\<rparr> in
           case decode_plaintext plaintext routing_sequence of
             Inl e \<Rightarrow> child_fail c e
           | Inr rec \<Rightarrow>
             (case admit_authenticated_peer_record (nc_receive_rekey c) (nr_kind rec)
                     (of_nat (length (nr_payload rec))) of
                (rk, Inl e) \<Rightarrow> child_fail (c\<lparr>nc_receive_rekey := rk\<rparr>) e
              | (rk, Inr _) \<Rightarrow>
                let c = c\<lparr>nc_receive_rekey := rk\<rparr> in
                case checked_add (nc_receive_sequence c) 1 of
                  None \<Rightarrow> (c, Inl SequenceExhausted)
                | Some next_sequence \<Rightarrow> (c\<lparr>nc_receive_sequence := next_sequence\<rparr>, Inr rec))))"

subsection \<open>Rekey control records\<close>

text \<open>The record kind, sequence number and body of a control action, with the state it reserves.\<close>

definition control_record ::
    "('h, 't) noise_child \<Rightarrow> rekey_action \<Rightarrow> ('h, 't) noise_child \<times> (noise_error + (record_kind \<times> u64 \<times> bytes))" where
  "control_record c action =
     (case action of
        Action_SendPrepare prepare \<Rightarrow>
          (case checked_sub (dr_absolute_sequence (nc_send_rekey c)) 1 of
             None \<Rightarrow> (c, Inl InvalidRekey)
           | Some sequence \<Rightarrow> (c, Inr (Kind_RekeyPrepare, sequence, rekey_prepare_encode prepare)))
      | Action_SendCommit direction key_epoch \<Rightarrow>
          (case reserve_generated_commit (nc_send_rekey c) of
             (rk, Inl e) \<Rightarrow> child_fail (c\<lparr>nc_send_rekey := rk\<rparr>) e
           | (rk, Inr sequence) \<Rightarrow>
               (c\<lparr>nc_send_rekey := rk\<rparr>, Inr (Kind_RekeyCommit, sequence, [direction] @ be32 key_epoch)))
      | _ \<Rightarrow> child_fail c InvalidRekey)"

definition encrypt_rekey_action_with_prefix ::
    "('h, 't) snow \<Rightarrow> ('h, 't) noise_child \<Rightarrow> rekey_action \<Rightarrow> bytes
      \<Rightarrow> ('h, 't) noise_child \<times> (noise_error + bytes)" where
  "encrypt_rekey_action_with_prefix sn c action authenticated_prefix =
     (if nc_phase c \<noteq> Transport then child_invalid_state c
      else case (case nc_last_control_ciphertext c of
                   Some (prior, prefix, ciphertext) \<Rightarrow>
                     if prior = action \<and> prefix = authenticated_prefix then Some ciphertext else None
                 | None \<Rightarrow> None) of
        Some ciphertext \<Rightarrow> (c, Inr ciphertext)
      | None \<Rightarrow>
        if nc_pending_control_action c \<noteq> Some action then child_fail c InvalidRekey
        else case control_record c action of
          (c, Inl e) \<Rightarrow> (c, Inl e)
        | (c, Inr (kind, sequence, control_payload)) \<Rightarrow>
          if sequence \<noteq> nc_send_sequence c then child_fail c SequenceMismatch
          else case encode_plaintext \<lparr>nr_kind = kind, nr_sequence = sequence,
                      nr_payload = authenticated_prefix @ control_payload\<rparr> of
            Inl e \<Rightarrow> (c, Inl e)
          | Inr plaintext \<Rightarrow>
            (case nc_transport c of
               None \<Rightarrow> (c, Inl InvalidState)
             | Some t \<Rightarrow>
               (case sn_write sn t plaintext of
                  (t, None) \<Rightarrow> child_fail (c\<lparr>nc_transport := Some t\<rparr>) AuthenticationFailed
                | (t, Some ciphertext) \<Rightarrow>
                  let c = c\<lparr>nc_transport := Some t\<rparr> in
                  case checked_add (nc_send_sequence c) 1 of
                    None \<Rightarrow> (c, Inl SequenceExhausted)
                  | Some next_sequence \<Rightarrow>
                    (c\<lparr>nc_send_sequence := next_sequence,
                       nc_last_control_ciphertext := Some (action, authenticated_prefix, ciphertext),
                       nc_pending_control_action := None\<rparr>, Inr ciphertext))))"

definition encrypt_rekey_action ::
    "('h, 't) snow \<Rightarrow> ('h, 't) noise_child \<Rightarrow> rekey_action \<Rightarrow> ('h, 't) noise_child \<times> (noise_error + bytes)" where
  "encrypt_rekey_action sn c action = encrypt_rekey_action_with_prefix sn c action []"

fun apply_send_actions ::
    "('h, 't) snow \<Rightarrow> ('h, 't) noise_child \<Rightarrow> rekey_action list \<Rightarrow> ('h, 't) noise_child \<times> (noise_error + unit)" where
  "apply_send_actions sn c [] = (c, Inr ())"
| "apply_send_actions sn c (Action_SendPrepare p # rest) =
     apply_send_actions sn (c\<lparr>nc_pending_control_action := Some (Action_SendPrepare p)\<rparr>) rest"
| "apply_send_actions sn c (Action_ApplySendRekey k # rest) =
     (case nc_transport c of
        None \<Rightarrow> (c, Inl InvalidState)
      | Some t \<Rightarrow> apply_send_actions sn (c\<lparr>nc_transport := Some (sn_rekey_outgoing sn t)\<rparr>) rest)"
| "apply_send_actions sn c (Action_ApplyReceiveRekey k # rest) = child_invalid_state c"
| "apply_send_actions sn c (_ # rest) = apply_send_actions sn c rest"

definition handle_send_rekey_event ::
    "('h, 't) snow \<Rightarrow> ('h, 't) noise_child \<Rightarrow> rekey_event \<Rightarrow> ('h, 't) noise_child \<times> (noise_error + rekey_action list)" where
  "handle_send_rekey_event sn c event =
     (if nc_phase c \<noteq> Transport then child_invalid_state c
      else case reduce (nc_send_rekey c) event of
        (rk, Inl e) \<Rightarrow> child_fail (c\<lparr>nc_send_rekey := rk\<rparr>) e
      | (rk, Inr actions) \<Rightarrow>
        (case apply_send_actions sn (c\<lparr>nc_send_rekey := rk\<rparr>) actions of
           (c, Inl e) \<Rightarrow> (c, Inl e)
         | (c, Inr _) \<Rightarrow> (c, Inr actions)))"

fun apply_receive_actions ::
    "('h, 't) snow \<Rightarrow> ('h, 't) noise_child \<Rightarrow> rekey_action list \<Rightarrow> ('h, 't) noise_child \<times> (noise_error + unit)" where
  "apply_receive_actions sn c [] = (c, Inr ())"
| "apply_receive_actions sn c (Action_SendCommit d k # rest) =
     apply_receive_actions sn (c\<lparr>nc_pending_control_action := Some (Action_SendCommit d k)\<rparr>) rest"
| "apply_receive_actions sn c (Action_ApplyReceiveRekey k # rest) =
     (case nc_transport c of
        None \<Rightarrow> (c, Inl InvalidState)
      | Some t \<Rightarrow> apply_receive_actions sn (c\<lparr>nc_transport := Some (sn_rekey_incoming sn t)\<rparr>) rest)"
| "apply_receive_actions sn c (Action_ApplySendRekey k # rest) = child_invalid_state c"
| "apply_receive_actions sn c (_ # rest) = apply_receive_actions sn c rest"

definition handle_receive_rekey_event ::
    "('h, 't) snow \<Rightarrow> ('h, 't) noise_child \<Rightarrow> rekey_event \<Rightarrow> ('h, 't) noise_child \<times> (noise_error + rekey_action list)" where
  "handle_receive_rekey_event sn c event =
     (if nc_phase c \<noteq> Transport then child_invalid_state c
      else case reduce (nc_receive_rekey c) event of
        (rk, Inl e) \<Rightarrow> child_fail (c\<lparr>nc_receive_rekey := rk\<rparr>) e
      | (rk, Inr actions) \<Rightarrow>
        (case apply_receive_actions sn (c\<lparr>nc_receive_rekey := rk\<rparr>) actions of
           (c, Inl e) \<Rightarrow> (c, Inl e)
         | (c, Inr _) \<Rightarrow> (c, Inr actions)))"

definition child_handshake_hash :: "('h, 't) snow \<Rightarrow> ('h, 't) noise_child \<Rightarrow> digest32 option" where
  "child_handshake_hash sn c =
     (case nc_handshake c of
        None \<Rightarrow> None
      | Some h \<Rightarrow> if length (sn_handshake_hash sn h) = 32 then Some (rd256 0 (sn_handshake_hash sn h)) else None)"

definition bind_fallback_route_generation ::
    "('h, 't) noise_child \<Rightarrow> u64 \<Rightarrow> ('h, 't) noise_child \<times> (noise_error + unit)" where
  "bind_fallback_route_generation c route_generation =
     (if nc_phase c \<noteq> Transport \<or> route_generation = 0 then child_fail c InvalidFallback
      else case nc_fallback_route_generation c of
        None \<Rightarrow> (c\<lparr>nc_fallback_route_generation := Some route_generation\<rparr>, Inr ())
      | Some prior \<Rightarrow>
        if prior = route_generation then (c, Inr ()) else child_fail c InvalidFallback)"

subsection \<open>The transcript the final proofs sign\<close>

definition final_proof_binding_bytes ::
    "u8 \<Rightarrow> id16 \<Rightarrow> u32 \<Rightarrow> digest32 \<Rightarrow> digest32 \<Rightarrow> digest32 \<Rightarrow> digest32 \<Rightarrow> digest32 \<Rightarrow> digest32 \<Rightarrow> digest32
      \<Rightarrow> u64 \<Rightarrow> bytes" where
  "final_proof_binding_bytes role child_attempt_id transport_epoch initiator_ephemeral responder_ephemeral
     prologue_dig handshake_hash connection_nonce grant_digest policy_digest peer_certificate_generation =
     ascii ''flycockpit-remote-endpoint-final-proof-noise-v1'' @ [0] @ [role] @ be128 child_attempt_id
     @ be32 transport_epoch @ be256 initiator_ephemeral @ be256 responder_ephemeral @ be256 prologue_dig
     @ be256 handshake_hash @ be256 connection_nonce @ be256 grant_digest @ be256 policy_digest
     @ be64 peer_certificate_generation"

definition final_proof_binding_digest ::
    "(bytes \<Rightarrow> digest32) \<Rightarrow> u8 \<Rightarrow> id16 \<Rightarrow> u32 \<Rightarrow> digest32 \<Rightarrow> digest32 \<Rightarrow> digest32 \<Rightarrow> digest32 \<Rightarrow> digest32
      \<Rightarrow> digest32 \<Rightarrow> digest32 \<Rightarrow> u64 \<Rightarrow> digest32" where
  "final_proof_binding_digest sha role child_attempt_id transport_epoch initiator_ephemeral
     responder_ephemeral prologue_dig handshake_hash connection_nonce grant_digest policy_digest
     peer_certificate_generation =
     sha (final_proof_binding_bytes role child_attempt_id transport_epoch initiator_ephemeral
       responder_ephemeral prologue_dig handshake_hash connection_nonce grant_digest policy_digest
       peer_certificate_generation)"

subsection \<open>Runs\<close>

datatype child_call =
    Child_WriteHandshake
  | Child_ReadHandshake bytes
  | Child_Authorize bytes bytes
  | Child_Encrypt record_kind bytes
  | Child_Decrypt u64 bytes
  | Child_EncryptRekey rekey_action bytes
  | Child_SendEvent rekey_event
  | Child_ReceiveEvent rekey_event
  | Child_BindRoute u64
  | Child_Close

fun child_step ::
    "('h, 't) snow \<Rightarrow> (bytes \<Rightarrow> digest32) \<Rightarrow> (authorization_request \<Rightarrow> bool) \<Rightarrow> ('h, 't) noise_child
      \<Rightarrow> child_call \<Rightarrow> ('h, 't) noise_child" where
  "child_step sn sha gate c Child_WriteHandshake = fst (write_handshake sn c)"
| "child_step sn sha gate c (Child_ReadHandshake framed) = fst (read_handshake sn c framed)"
| "child_step sn sha gate c (Child_Authorize p q) = fst (child_authorize sn sha gate c p q)"
| "child_step sn sha gate c (Child_Encrypt kind payload) = fst (encrypt_record sn c kind payload)"
| "child_step sn sha gate c (Child_Decrypt sequence ciphertext) = fst (decrypt_record sn c sequence ciphertext)"
| "child_step sn sha gate c (Child_EncryptRekey action prefix) =
     fst (encrypt_rekey_action_with_prefix sn c action prefix)"
| "child_step sn sha gate c (Child_SendEvent event) = fst (handle_send_rekey_event sn c event)"
| "child_step sn sha gate c (Child_ReceiveEvent event) = fst (handle_receive_rekey_event sn c event)"
| "child_step sn sha gate c (Child_BindRoute generation) = fst (bind_fallback_route_generation c generation)"
| "child_step sn sha gate c Child_Close = child_close c"

text \<open>
  \<open>logging sn\<close> is the given \<open>snow\<close> with a transport that also records, in order, every plaintext it
  is asked to seal.
\<close>

definition logging :: "('h, 't) snow \<Rightarrow> ('h, 't \<times> bytes list) snow" where
  "logging sn =
     \<lparr>sn_build = sn_build sn, sn_write_handshake = sn_write_handshake sn,
      sn_read_handshake = sn_read_handshake sn, sn_is_finished = sn_is_finished sn,
      sn_handshake_hash = sn_handshake_hash sn,
      sn_into_transport = (\<lambda>h. map_option (\<lambda>t. (t, [])) (sn_into_transport sn h)),
      sn_write = (\<lambda>(t, log) p. case sn_write sn t p of (t, c) \<Rightarrow> ((t, log @ [p]), c)),
      sn_read = (\<lambda>(t, log) c. case sn_read sn t c of (t, p) \<Rightarrow> ((t, log), p)),
      sn_rekey_outgoing = (\<lambda>(t, log). (sn_rekey_outgoing sn t, log)),
      sn_rekey_incoming = (\<lambda>(t, log). (sn_rekey_incoming sn t, log))\<rparr>"

subsection \<open>Invariants\<close>

text \<open>The phase determines which key material exists; both rekey reducers are in order.\<close>

definition child_inv :: "('h, 't) noise_child \<Rightarrow> bool" where
  "child_inv c \<longleftrightarrow>
     rekey_inv (nc_send_rekey c) \<and> rekey_inv (nc_receive_rekey c)
     \<and> (nc_phase c = Transport \<longrightarrow> nc_transport c \<noteq> None \<and> nc_handshake c = None)
     \<and> (nc_phase c = PhaseClosed \<longrightarrow> nc_transport c = None \<and> nc_handshake c = None
          \<and> nc_last_control_ciphertext c = None \<and> nc_pending_control_action c = None)
     \<and> (nc_phase c \<noteq> Transport \<and> nc_phase c \<noteq> PhaseClosed \<longrightarrow>
          nc_transport c = None \<and> nc_handshake c \<noteq> None \<and> nc_send_sequence c = 0)"

definition log_inv :: "('h, 't \<times> bytes list) noise_child \<Rightarrow> bool" where
  "log_inv c \<longleftrightarrow> child_inv c
     \<and> (\<forall>t log. nc_transport c = Some (t, log) \<longrightarrow>
          map (\<lambda>p. unat (rd64 2 p)) log = [0..<unat (nc_send_sequence c)])"

section \<open>Closing\<close>

lemma child_fail_simps [simp]:
  "nc_phase (fst (child_fail c e)) = PhaseClosed" "nc_transport (fst (child_fail c e)) = None"
  "nc_handshake (fst (child_fail c e)) = None" "snd (child_fail c e) = Inl e"
  "nc_send_rekey (fst (child_fail c e)) = nc_send_rekey c"
  "nc_receive_rekey (fst (child_fail c e)) = nc_receive_rekey c"
  "nc_last_control_ciphertext (fst (child_fail c e)) = None"
  "nc_pending_control_action (fst (child_fail c e)) = None"
  by (simp_all add: child_fail_def child_close_def Let_def)

lemma child_inv_fail:
  "rekey_inv (nc_send_rekey c) \<Longrightarrow> rekey_inv (nc_receive_rekey c) \<Longrightarrow> child_inv (fst (child_fail c e))"
  by (simp add: child_inv_def)

lemma log_inv_fail:
  "rekey_inv (nc_send_rekey c) \<Longrightarrow> rekey_inv (nc_receive_rekey c) \<Longrightarrow> log_inv (fst (child_fail c e))"
  by (simp add: log_inv_def child_inv_fail)

lemma log_inv_rekeys: "log_inv c \<Longrightarrow> rekey_inv (nc_send_rekey c) \<and> rekey_inv (nc_receive_rekey c)"
  by (simp add: log_inv_def child_inv_def)

lemma log_inv_invalid_state: "log_inv c \<Longrightarrow> log_inv (fst (child_invalid_state c))"
  by (auto simp: child_invalid_state_def intro!: log_inv_fail dest: log_inv_rekeys)

lemma log_inv_close: "log_inv c \<Longrightarrow> log_inv (child_close c)"
  by (simp add: log_inv_def child_inv_def child_close_def)

lemma rekey_inv_reduce: "rekey_inv s \<Longrightarrow> reduce s e = (t, r) \<Longrightarrow> rekey_inv t"
  using rekey_ok_reduce [of s e] by (simp add: rekey_ok_def)

lemma rekey_inv_admit: "rekey_inv s \<Longrightarrow> admit_authenticated_peer_record s k n = (t, r) \<Longrightarrow> rekey_inv t"
  using rekey_ok_admit [of s k n] by (simp add: rekey_ok_def)

lemma rekey_inv_reserve: "rekey_inv s \<Longrightarrow> reserve_generated_commit s = (t, r) \<Longrightarrow> rekey_inv t"
  using rekey_ok_reserve [of s] by (simp add: rekey_ok_def)

section \<open>Handshake\<close>

lemma capture_ephemeral_frame:
  assumes "capture_ephemeral i m c = (c', r)"
  shows "nc_phase c' = nc_phase c \<and> nc_handshake c' = nc_handshake c \<and> nc_transport c' = nc_transport c
    \<and> nc_send_rekey c' = nc_send_rekey c \<and> nc_receive_rekey c' = nc_receive_rekey c
    \<and> nc_send_sequence c' = nc_send_sequence c \<and> nc_prologue c' = nc_prologue c
    \<and> nc_transport_epoch c' = nc_transport_epoch c"
  using assms by (auto simp: capture_ephemeral_def Let_def split: if_splits)

lemma log_inv_next_phase:
  assumes "log_inv c" and "nc_phase c \<noteq> Transport" and "nc_phase c \<noteq> PhaseClosed"
    and "capture_ephemeral i m c1 = (c2, r)" and "c1 = c \<or> (\<exists>h. c1 = c\<lparr>nc_handshake := Some h\<rparr>)"
    and "ph \<noteq> Transport" and "ph \<noteq> PhaseClosed"
  shows "log_inv (c2\<lparr>nc_phase := ph\<rparr>)" and "log_inv (c2\<lparr>nc_handshake := Some h, nc_phase := ph\<rparr>)"
    and "log_inv (fst (child_fail c2 e))" and "log_inv (fst (child_fail (c2\<lparr>nc_handshake := Some h\<rparr>) e))"
    and "nc_handshake c2 \<noteq> None"
  using assms(1-3, 5-7) capture_ephemeral_frame [OF assms(4)]
  by (auto simp: log_inv_def child_inv_def)

lemma log_inv_write_handshake:
  assumes "log_inv c"
  shows "log_inv (fst (write_handshake sn c))"
proof (cases "nc_phase c = WriteOne \<or> nc_phase c = WriteTwo")
  case False
  then show ?thesis
    using log_inv_invalid_state [OF assms] by (auto simp: write_handshake_def)
next
  case True
  then have np: "nc_phase c \<noteq> Transport" "nc_phase c \<noteq> PhaseClosed" by auto
  have fail: "log_inv (fst (child_fail (c\<lparr>nc_handshake := Some h\<rparr>) e))" for h e
    using log_inv_rekeys [OF assms] by (simp add: log_inv_fail)
  note ok = log_inv_next_phase [OF assms np]
  show ?thesis
    using True assms fail
    by (auto simp: write_handshake_def split: option.splits prod.splits sum.splits intro: ok)
qed

lemma log_inv_read_handshake:
  assumes "log_inv c"
  shows "log_inv (fst (read_handshake sn c framed))"
proof (cases "nc_phase c = ReadOne \<or> nc_phase c = ReadTwo")
  case False
  then show ?thesis
    using log_inv_invalid_state [OF assms] by (auto simp: read_handshake_def)
next
  case True
  then have np: "nc_phase c \<noteq> Transport" "nc_phase c \<noteq> PhaseClosed" by auto
  have fail: "log_inv (fst (child_fail c e))" for e
    using log_inv_rekeys [OF assms] by (simp add: log_inv_fail)
  note ok = log_inv_next_phase [OF assms np]
  show ?thesis
    using True assms fail
    by (auto simp: read_handshake_def split: option.splits prod.splits sum.splits intro: ok
        dest: ok(5))
qed

lemma log_inv_authorize:
  assumes "log_inv c"
  shows "log_inv (fst (child_authorize (logging sn) sha gate c p q))"
proof -
  have fail: "log_inv (fst (child_fail c e))" "log_inv (fst (child_fail (c\<lparr>nc_handshake := None\<rparr>) e))" for e
    using log_inv_rekeys [OF assms] by (simp_all add: log_inv_fail)
  have granted: "nc_phase c = AwaitAuthorization \<Longrightarrow>
      log_inv (c\<lparr>nc_handshake := None, nc_transport := Some (t, []), nc_phase := Transport\<rparr>)" for t
    using assms by (simp add: log_inv_def child_inv_def)
  show ?thesis
    using assms fail granted log_inv_invalid_state [OF assms]
    by (auto simp: child_authorize_def logging_def split: option.splits sum.splits)
qed

section \<open>Sealing\<close>

lemma encode_plaintext_sequence: "encode_plaintext r = Inr bs \<Longrightarrow> rd64 2 bs = nr_sequence r"
  by (auto simp: encode_plaintext_def result_simps be_simps split: if_splits)

lemma find_open_local:
  assumes "rekey_inv s" and "reduce s (Event_LocalRecordRequest kind n) = (t, Inr acts)" and "find_open acts = Some q"
  shows "q = dr_absolute_sequence s \<and> unat q < 4294967296 \<and> dr_absolute_sequence t = q + 1"
proof -
  have "unat (dr_application_bytes s) \<le> 1073741824"
    using assms(1) by (simp add: rekey_inv_def)
  then show ?thesis
    using assms(2, 3) data_over_budget_False [of s n]
    by (auto simp: reduce_Inr_iff local_record_request_def consume_record_ok word_nat not_le not_less
        split: if_splits)
qed

lemma log_inv_sealed:
  assumes "log_inv c" and "nc_phase c = Transport" and "nc_transport c = Some t"
    and "sn_write (logging sn) t p = (t', x)" and "rd64 2 p = nc_send_sequence c"
    and "checked_add (nc_send_sequence c) 1 = Some q" and "rekey_inv rk"
    and "nc_transport c' = Some t'" and "nc_send_sequence c' = q" and "nc_phase c' = Transport"
    and "nc_send_rekey c' = rk" and "nc_receive_rekey c' = nc_receive_rekey c" and "nc_handshake c' = nc_handshake c"
  shows "log_inv c'"
proof -
  obtain u log where t: "t = (u, log)" by fastforce
  then have t': "\<exists>v. t' = (v, log @ [p])"
    using assms(4) by (auto simp: logging_def split: prod.splits)
  have "unat q = Suc (unat (nc_send_sequence c))"
    using assms(6) by (simp add: arith_simps)
  then show ?thesis
    using assms(1-3, 5, 7-13) t t' by (auto simp: log_inv_def child_inv_def)
qed

lemma log_inv_rekey_update:
  assumes "log_inv c" and "nc_phase c = Transport" and "rekey_inv rk"
  shows "log_inv (c\<lparr>nc_send_rekey := rk\<rparr>)" and "log_inv (c\<lparr>nc_receive_rekey := rk\<rparr>)"
  using assms by (auto simp: log_inv_def child_inv_def)

lemma log_inv_encrypt_record:
  assumes "log_inv c"
  shows "log_inv (fst (encrypt_record (logging sn) c kind payload))"
proof (cases "nc_phase c = Transport \<and> length payload \<le> MAX_PAYLOAD")
  case False
  then show ?thesis
    using assms log_inv_invalid_state [OF assms] by (auto simp: encrypt_record_def)
next
  case True
  obtain rk res where red: "reduce (nc_send_rekey c) (Event_LocalRecordRequest kind (of_nat (length payload))) = (rk, res)"
    by fastforce
  have rk: "rekey_inv rk" and both: "rekey_inv (nc_send_rekey c)" "rekey_inv (nc_receive_rekey c)"
    using rekey_inv_reduce [OF _ red] log_inv_rekeys [OF assms] by simp_all
  let ?c = "c\<lparr>nc_send_rekey := rk\<rparr>"
  have c: "log_inv ?c" using log_inv_rekey_update(1) [OF assms _ rk] True by simp
  have fail: "log_inv (fst (child_fail c' e))" if "nc_send_rekey c' = rk" "nc_receive_rekey c' = nc_receive_rekey c"
    for c' e
    using that rk both by (simp add: log_inv_fail)
  show ?thesis
  proof (cases res)
    case (Inl e)
    then show ?thesis using True red by (simp add: encrypt_record_def fail)
  next
    case (Inr acts)
    show ?thesis
    proof (cases "find_open acts = Some (nc_send_sequence c)")
      case False
      then show ?thesis
        using True red Inr c by (auto simp: encrypt_record_def Let_def fail split: option.splits)
    next
      case opens: True
      let ?r = "\<lparr>nr_kind = kind, nr_sequence = nc_send_sequence c, nr_payload = payload\<rparr>"
      have small: "unat (nc_send_sequence c) < 4294967296"
        using find_open_local [OF both(1) red [unfolded Inr] opens] by blast
      then obtain q where q: "checked_add (nc_send_sequence c) 1 = Some q"
        by (simp add: checked_add_def)
      obtain p where p: "encode_plaintext ?r = Inr p"
        using True encode_plaintext_ok [of ?r] by auto
      obtain t where t: "nc_transport c = Some t"
        using assms True by (auto simp: log_inv_def child_inv_def)
      obtain t' x where w: "sn_write (logging sn) t p = (t', x)" by fastforce
      have "log_inv (?c\<lparr>nc_transport := Some t', nc_send_sequence := q\<rparr>)"
        by (rule log_inv_sealed [OF assms _ t w]) (use True q rk encode_plaintext_sequence [OF p] in simp_all)
      then show ?thesis
        using True red Inr opens p t w q
        by (auto simp: encrypt_record_def Let_def fail split: option.splits)
    qed
  qed
qed

lemma log_inv_read_transport:
  assumes "log_inv c" and "nc_phase c = Transport" and "nc_transport c = Some t"
    and "sn_read (logging sn) t x = (t', y)"
  shows "log_inv (c\<lparr>nc_transport := Some t'\<rparr>)"
proof -
  obtain u log where "t = (u, log)" by fastforce
  moreover from this obtain v where "t' = (v, log)"
    using assms(4) by (auto simp: logging_def split: prod.splits)
  ultimately show ?thesis
    using assms(1-3) by (auto simp: log_inv_def child_inv_def)
qed

lemma log_inv_decrypt_record:
  assumes "log_inv c"
  shows "log_inv (fst (decrypt_record (logging sn) c seq ciphertext))"
proof (cases "nc_phase c = Transport \<and> length ciphertext \<le> MAX_CIPHERTEXT \<and> seq = nc_receive_sequence c")
  case False
  then show ?thesis
    using assms log_inv_rekeys [OF assms]
    by (auto simp: decrypt_record_def log_inv_invalid_state log_inv_fail)
next
  case True
  obtain t where t: "nc_transport c = Some t"
    using assms True by (auto simp: log_inv_def child_inv_def)
  obtain t' y where r: "sn_read (logging sn) t ciphertext = (t', y)" by fastforce
  let ?c = "c\<lparr>nc_transport := Some t'\<rparr>"
  have c: "log_inv ?c" using log_inv_read_transport [OF assms _ t r] True by simp
  have both: "rekey_inv (nc_send_rekey c)" "rekey_inv (nc_receive_rekey c)"
    using log_inv_rekeys [OF assms] by simp_all
  have upd: "log_inv (?c\<lparr>nc_receive_rekey := rk\<rparr>)" "log_inv (?c\<lparr>nc_receive_rekey := rk, nc_receive_sequence := q\<rparr>)"
    if "rekey_inv rk" for rk q
    using c that True by (auto simp: log_inv_def child_inv_def)
  show ?thesis
    using True t r c both
    by (auto simp: decrypt_record_def Let_def log_inv_fail split: option.splits sum.splits prod.splits
        dest!: rekey_inv_admit [rotated] intro: upd)
qed

lemma control_record_ok:
  assumes "log_inv c" and "nc_phase c = Transport" and "control_record c action = (c', Inr (kind, q, body))"
  shows "unat q \<le> 4294967296 \<and> (\<exists>rk. c' = c\<lparr>nc_send_rekey := rk\<rparr> \<and> rekey_inv rk)"
proof -
  have both: "rekey_inv (nc_send_rekey c)"
    using log_inv_rekeys [OF assms(1)] by simp
  show ?thesis
  proof (cases action)
    case (Action_SendPrepare p)
    then show ?thesis
      using assms(3) both
      by (auto simp: control_record_def arith_simps rekey_inv_def split: option.splits
          intro!: exI [of _ "nc_send_rekey c"])
  next
    case (Action_SendCommit d k)
    obtain rk res where res: "reserve_generated_commit (nc_send_rekey c) = (rk, res)" by fastforce
    have "rekey_inv rk" using rekey_inv_reserve [OF both res] .
    moreover have "unat q \<le> 4294967296" if "res = Inr q"
      using res that both
      by (auto simp: reserve_generated_commit_def consume_record_ok rekey_inv_def word_nat not_le split: if_splits)
    ultimately show ?thesis
      using assms(3) res Action_SendCommit by (auto simp: control_record_def child_fail_def Let_def split: sum.splits)
  qed (use assms(3) in \<open>auto simp: control_record_def child_fail_def Let_def\<close>)
qed

lemma control_record_error:
  assumes "log_inv c" and "nc_phase c = Transport" and "control_record c action = (c', Inl e)"
  shows "log_inv c'"
proof -
  have both: "rekey_inv (nc_send_rekey c)" "rekey_inv (nc_receive_rekey c)"
    using log_inv_rekeys [OF assms(1)] by simp_all
  obtain rk res where res: "reserve_generated_commit (nc_send_rekey c) = (rk, res)" by fastforce
  have rk: "rekey_inv rk" using rekey_inv_reserve [OF both(1) res] .
  have fail: "log_inv (fst (child_fail d e'))"
    if "rekey_inv (nc_send_rekey d)" "rekey_inv (nc_receive_rekey d)" for d e'
    using that by (rule log_inv_fail)
  have "c' = c \<or> c' = fst (child_fail c InvalidRekey) \<or> (\<exists>e. c' = fst (child_fail (c\<lparr>nc_send_rekey := rk\<rparr>) e))"
    using assms(3) res
    by (auto simp: control_record_def child_fail_def Let_def split: rekey_action.splits option.splits sum.splits)
  then show ?thesis
    using assms(1) both rk by (auto intro!: log_inv_fail)
qed

lemma log_inv_encrypt_rekey:
  assumes "log_inv c"
  shows "log_inv (fst (encrypt_rekey_action_with_prefix (logging sn) c action prefix))"
proof (cases "nc_phase c = Transport")
  case False
  then show ?thesis
    using log_inv_invalid_state [OF assms] by (simp add: encrypt_rekey_action_with_prefix_def)
next
  case True
  let ?enc = "encrypt_rekey_action_with_prefix (logging sn) c action prefix"
  have both: "rekey_inv (nc_send_rekey c)" "rekey_inv (nc_receive_rekey c)"
    using log_inv_rekeys [OF assms] by simp_all
  obtain d res where cr: "control_record c action = (d, res)" by fastforce
  show ?thesis
  proof (cases res)
    case (Inl e)
    with cr have d: "log_inv d" using control_record_error [OF assms True] by simp
    show ?thesis
      using True cr Inl d assms both
      by (auto simp: encrypt_rekey_action_with_prefix_def log_inv_fail split: option.splits prod.splits)
  next
    case (Inr kqb)
    obtain kind q body where kqb: "kqb = (kind, q, body)" by (cases kqb)
    from control_record_ok [OF assms True, of action d kind q body] cr Inr kqb
    obtain rk where q: "unat q \<le> 4294967296" and d: "d = c\<lparr>nc_send_rekey := rk\<rparr>" and rk: "rekey_inv rk"
      by auto
    have dinv: "log_inv d" using log_inv_rekey_update(1) [OF assms True rk] d by simp
    obtain t where t: "nc_transport c = Some t"
      using assms True by (auto simp: log_inv_def child_inv_def)
    have sealed: "log_inv (d\<lparr>nc_transport := Some t', nc_send_sequence := n, nc_last_control_ciphertext := l,
        nc_pending_control_action := None\<rparr>)"
      if "encode_plaintext \<lparr>nr_kind = kind, nr_sequence = q, nr_payload = prefix @ body\<rparr> = Inr p"
        "sn_write (logging sn) t p = (t', x)" "q = nc_send_sequence c" "checked_add (nc_send_sequence c) 1 = Some n"
      for p t' x n l
      by (rule log_inv_sealed [OF assms True t that(2)])
        (use that rk d True encode_plaintext_sequence [OF that(1)] in simp_all)
    have add: "checked_add (nc_send_sequence c) 1 \<noteq> None" if "q = nc_send_sequence c"
      using q that by (simp add: checked_add_def)
    have fail: "log_inv (fst (child_fail (d\<lparr>nc_transport := u\<rparr>) e))" "log_inv (fst (child_fail d e))"
        "log_inv (fst (child_fail c e))" for u e
      using rk both d by (simp_all add: log_inv_fail)
    show ?thesis
      using True cr Inr kqb assms dinv t d add
      by (auto simp: encrypt_rekey_action_with_prefix_def Let_def fail [unfolded d] fail
          split: option.splits prod.splits sum.splits intro: sealed [unfolded d])
  qed
qed

lemma log_inv_rekey_transport:
  assumes "log_inv c" and "nc_phase c = Transport" and "nc_transport c = Some t"
  shows "log_inv (c\<lparr>nc_transport := Some (sn_rekey_outgoing (logging sn) t)\<rparr>)"
    and "log_inv (c\<lparr>nc_transport := Some (sn_rekey_incoming (logging sn) t)\<rparr>)"
  using assms by (auto simp: log_inv_def child_inv_def logging_def split: prod.splits)

lemma log_inv_pending:
  "log_inv c \<Longrightarrow> nc_phase c = Transport \<Longrightarrow> log_inv (c\<lparr>nc_pending_control_action := x\<rparr>)"
  by (simp add: log_inv_def child_inv_def)

lemma log_inv_apply_send_actions:
  "log_inv c \<Longrightarrow> nc_phase c = Transport \<Longrightarrow> log_inv (fst (apply_send_actions (logging sn) c acts))"
proof (induction acts arbitrary: c)
  case Nil
  then show ?case by simp
next
  case (Cons a acts)
  show ?case
  proof (cases a)
    case (Action_ApplySendRekey k)
    then show ?thesis
      using Cons.prems by (cases "nc_transport c") (simp_all add: Cons.IH log_inv_rekey_transport(1))
  qed (use Cons.prems in \<open>simp_all add: Cons.IH log_inv_pending log_inv_invalid_state\<close>)
qed

lemma log_inv_apply_receive_actions:
  "log_inv c \<Longrightarrow> nc_phase c = Transport \<Longrightarrow> log_inv (fst (apply_receive_actions (logging sn) c acts))"
proof (induction acts arbitrary: c)
  case Nil
  then show ?case by simp
next
  case (Cons a acts)
  show ?case
  proof (cases a)
    case (Action_ApplyReceiveRekey k)
    then show ?thesis
      using Cons.prems by (cases "nc_transport c") (simp_all add: Cons.IH log_inv_rekey_transport(2))
  qed (use Cons.prems in \<open>simp_all add: Cons.IH log_inv_pending log_inv_invalid_state\<close>)
qed

lemma log_inv_send_event:
  assumes "log_inv c"
  shows "log_inv (fst (handle_send_rekey_event (logging sn) c event))"
proof -
  obtain rk res where red: "reduce (nc_send_rekey c) event = (rk, res)" by fastforce
  have rk: "rekey_inv rk" and r: "rekey_inv (nc_receive_rekey c)"
    using rekey_inv_reduce [OF _ red] log_inv_rekeys [OF assms] by simp_all
  have "nc_phase c = Transport \<Longrightarrow>
      log_inv (fst (apply_send_actions (logging sn) (c\<lparr>nc_send_rekey := rk\<rparr>) acts))" for acts
    using log_inv_rekey_update(1) [OF assms _ rk] by (intro log_inv_apply_send_actions) simp_all
  then show ?thesis
    using red rk r log_inv_invalid_state [OF assms]
    by (auto simp: handle_send_rekey_event_def log_inv_fail split: sum.splits prod.splits) (metis fst_conv)+
qed

lemma log_inv_receive_event:
  assumes "log_inv c"
  shows "log_inv (fst (handle_receive_rekey_event (logging sn) c event))"
proof -
  obtain rk res where red: "reduce (nc_receive_rekey c) event = (rk, res)" by fastforce
  have rk: "rekey_inv rk" and r: "rekey_inv (nc_send_rekey c)"
    using rekey_inv_reduce [OF _ red] log_inv_rekeys [OF assms] by simp_all
  have "nc_phase c = Transport \<Longrightarrow>
      log_inv (fst (apply_receive_actions (logging sn) (c\<lparr>nc_receive_rekey := rk\<rparr>) acts))" for acts
    using log_inv_rekey_update(2) [OF assms _ rk] by (intro log_inv_apply_receive_actions) simp_all
  then show ?thesis
    using red rk r log_inv_invalid_state [OF assms]
    by (auto simp: handle_receive_rekey_event_def log_inv_fail split: sum.splits prod.splits) (metis fst_conv)+
qed

lemma log_inv_bind_route: "log_inv c \<Longrightarrow> log_inv (fst (bind_fallback_route_generation c g))"
  using log_inv_rekeys [of c]
  by (auto simp: bind_fallback_route_generation_def log_inv_fail split: option.splits)
    (auto simp: log_inv_def child_inv_def)

lemma log_inv_step: "log_inv c \<Longrightarrow> log_inv (child_step (logging sn) sha gate c call)"
  by (cases call)
    (simp_all add: log_inv_write_handshake log_inv_read_handshake log_inv_authorize log_inv_encrypt_record
      log_inv_decrypt_record log_inv_encrypt_rekey log_inv_send_event log_inv_receive_event
      log_inv_bind_route log_inv_close)

interpretation logged: guarded_machine "child_step (logging sn) sha gate" "\<lambda>c. True" log_inv for sn sha gate
  by unfold_locales (rule log_inv_step)

lemma log_inv_new: "noise_child_new (logging sn) role bs epoch = Inr c \<Longrightarrow> log_inv c"
  by (auto simp: noise_child_new_def result_simps log_inv_def child_inv_def dest!: rekey_inv_new
      split: endpoint_role.splits)

section \<open>A faithful channel\<close>

text \<open>
  \<open>lockstep\<close> relates a sending child and its peer: both in transport, with linked keys, and the
  sender's outgoing direction agreeing with the receiver's incoming one.
\<close>

definition lockstep :: "('t \<Rightarrow> 't \<Rightarrow> bool) \<Rightarrow> ('h, 't) noise_child \<Rightarrow> ('h, 't) noise_child \<Rightarrow> bool" where
  "lockstep linked a b \<longleftrightarrow>
     nc_phase a = Transport \<and> nc_phase b = Transport
     \<and> (\<exists>ta tb. nc_transport a = Some ta \<and> nc_transport b = Some tb \<and> linked ta tb)
     \<and> nc_receive_sequence b = nc_send_sequence a
     \<and> rekey_inv (nc_send_rekey a) \<and> rekey_inv (nc_receive_rekey b)
     \<and> dr_state (nc_send_rekey a) = DS_Open \<and> dr_state (nc_receive_rekey b) = DS_Open
     \<and> dr_absolute_sequence (nc_send_rekey a) = nc_send_sequence a
     \<and> dr_absolute_sequence (nc_receive_rekey b) = nc_send_sequence a
     \<and> dr_records_under_key (nc_receive_rekey b) = dr_records_under_key (nc_send_rekey a)
     \<and> dr_application_bytes (nc_receive_rekey b) = dr_application_bytes (nc_send_rekey a)"

text \<open>
  What the code relies on of \<open>snow\<close>: transports that are linked stay linked, and what one seals the
  other opens.
\<close>

definition faithful_channel :: "('h, 't) snow \<Rightarrow> ('t \<Rightarrow> 't \<Rightarrow> bool) \<Rightarrow> bool" where
  "faithful_channel sn linked \<longleftrightarrow>
     (\<forall>ta tb p ta' c. linked ta tb \<and> sn_write sn ta p = (ta', Some c) \<longrightarrow>
        (\<exists>tb'. sn_read sn tb c = (tb', Some p) \<and> linked ta' tb'))"

lemma local_record_request_opens:
  assumes "rekey_inv s" and "kind = Kind_Data \<or> kind = Kind_Ack"
    and "reduce s (Event_LocalRecordRequest kind n) = (t, Inr acts)" and "find_open acts = Some q"
  shows "dr_state s = DS_Open \<and> q = dr_absolute_sequence s \<and> unat q < 4294967296
    \<and> unat (dr_records_under_key s) < 1048575
    \<and> (kind = Kind_Data \<longrightarrow> \<not> data_over_budget s n)
    \<and> t = s\<lparr>dr_absolute_sequence := dr_absolute_sequence s + 1, dr_records_under_key := dr_records_under_key s + 1,
            dr_application_bytes := dr_application_bytes s + (if kind = Kind_Data then n else 0)\<rparr>"
proof -
  have "unat (dr_application_bytes s) \<le> 1073741824"
    using assms(1) by (simp add: rekey_inv_def)
  then show ?thesis
    using assms(2-4) data_over_budget_False [of s n]
    by (auto simp: reduce_Inr_iff local_record_request_def consume_record_ok word_nat not_le not_less
        split: if_splits)
qed

lemma admit_opens:
  assumes "rekey_inv s" and "kind = Kind_Data \<or> kind = Kind_Ack" and "dr_state s = DS_Open"
    and "unat (dr_absolute_sequence s) < 4294967296" and "unat (dr_records_under_key s) < 1048575"
    and "kind = Kind_Data \<longrightarrow> \<not> data_over_budget s n"
  shows "admit_authenticated_peer_record s kind n =
    (s\<lparr>dr_absolute_sequence := dr_absolute_sequence s + 1, dr_records_under_key := dr_records_under_key s + 1,
       dr_application_bytes := dr_application_bytes s + (if kind = Kind_Data then n else 0)\<rparr>, Inr ())"
proof -
  have "unat (dr_application_bytes s) \<le> 1073741824"
    using assms(1) by (simp add: rekey_inv_def)
  then show ?thesis
    using assms(2-6) data_over_budget_False [of s n]
    by (auto simp: admit_authenticated_peer_record_def consume_record_ok word_nat not_le not_less)
qed

lemma encrypt_record_Inr:
  assumes "encrypt_record sn a kind payload = (a', Inr ct)"
  obtains rk acts t p t' where
    "nc_phase a = Transport" "length payload \<le> MAX_PAYLOAD"
    "reduce (nc_send_rekey a) (Event_LocalRecordRequest kind (of_nat (length payload))) = (rk, Inr acts)"
    "find_open acts = Some (nc_send_sequence a)" "nc_transport a = Some t"
    "encode_plaintext \<lparr>nr_kind = kind, nr_sequence = nc_send_sequence a, nr_payload = payload\<rparr> = Inr p"
    "sn_write sn t p = (t', Some ct)" "length ct \<le> MAX_CIPHERTEXT"
    "checked_add (nc_send_sequence a) 1 = Some (nc_send_sequence a + 1)"
    "a' = a\<lparr>nc_send_rekey := rk, nc_transport := Some t', nc_send_sequence := nc_send_sequence a + 1\<rparr>"
proof -
  have phase: "nc_phase a = Transport" and len: "length payload \<le> MAX_PAYLOAD"
    using assms by (auto simp: encrypt_record_def child_invalid_state_def child_fail_def Let_def split: if_splits)
  obtain rk acts where red:
      "reduce (nc_send_rekey a) (Event_LocalRecordRequest kind (of_nat (length payload))) = (rk, Inr acts)"
    using assms phase len
    by (auto simp: encrypt_record_def child_fail_def Let_def split: prod.splits sum.splits)
  have opens: "find_open acts = Some (nc_send_sequence a)"
    using assms phase len red
    by (auto simp: encrypt_record_def child_fail_def Let_def split: option.splits if_splits)
  obtain t where t: "nc_transport a = Some t"
    using assms phase len red opens
    by (auto simp: encrypt_record_def child_fail_def Let_def split: option.splits sum.splits)
  obtain p where p: "encode_plaintext \<lparr>nr_kind = kind, nr_sequence = nc_send_sequence a, nr_payload = payload\<rparr> = Inr p"
    using encode_plaintext_ok [of "\<lparr>nr_kind = kind, nr_sequence = nc_send_sequence a, nr_payload = payload\<rparr>"] len
    by simp
  obtain t' x where w: "sn_write sn t p = (t', x)" by fastforce
  have rest: "x = Some ct \<and> length ct \<le> MAX_CIPHERTEXT
      \<and> (\<exists>n. checked_add (nc_send_sequence a) 1 = Some n
           \<and> a' = a\<lparr>nc_send_rekey := rk, nc_transport := Some t', nc_send_sequence := n\<rparr>)"
    using assms phase len red opens t p w
    by (auto simp: encrypt_record_def child_fail_def Let_def split: option.splits if_splits)
  moreover from rest obtain n where n: "checked_add (nc_send_sequence a) 1 = Some n" by blast
  moreover have "n = nc_send_sequence a + 1"
    using n by (simp add: checked_add_def split: if_splits)
  ultimately show ?thesis
    using that [OF phase len red opens t p] w by auto
qed

lemma channel_one:
  assumes sn: "faithful_channel sn linked"
    and kind: "kind = Kind_Data \<or> kind = Kind_Ack"
    and lock: "lockstep linked a b" and enc: "encrypt_record sn a kind payload = (a', Inr ct)"
  shows "\<exists>b'. decrypt_record sn b (nc_receive_sequence b) ct
      = (b', Inr \<lparr>nr_kind = kind, nr_sequence = nc_send_sequence a, nr_payload = payload\<rparr>)
    \<and> lockstep linked a' b'"
  using enc
proof (cases rule: encrypt_record_Inr)
  case (1 rk acts t p t')
  let ?s = "nc_send_rekey a" and ?r = "nc_receive_rekey b" and ?n = "of_nat (length payload) :: u64"
  have inv: "rekey_inv ?s" "rekey_inv ?r"
    using lock by (simp_all add: lockstep_def)
  note o = local_record_request_opens [OF inv(1) kind 1(3, 4)]
  obtain tb where tb: "nc_transport b = Some tb" "linked t tb"
    using lock 1(5) by (auto simp: lockstep_def)
  obtain tb' where rd: "sn_read sn tb ct = (tb', Some p)" "linked t' tb'"
    using sn tb(2) 1(7) unfolding faithful_channel_def by blast
  have dec: "decode_plaintext p (nc_send_sequence a)
      = Inr \<lparr>nr_kind = kind, nr_sequence = nc_send_sequence a, nr_payload = payload\<rparr>"
    by (rule decode_encode_plaintext [OF _ 1(6)]) (use 1(2) in \<open>simp add: noise_record_ok_def\<close>)
  have over: "data_over_budget ?r ?n = data_over_budget ?s ?n"
    using lock by (simp add: data_over_budget_def lockstep_def)
  have adm: "admit_authenticated_peer_record ?r kind ?n =
      (?r\<lparr>dr_absolute_sequence := dr_absolute_sequence ?r + 1, dr_records_under_key := dr_records_under_key ?r + 1,
         dr_application_bytes := dr_application_bytes ?r + (if kind = Kind_Data then ?n else 0)\<rparr>, Inr ())"
    by (rule admit_opens [OF inv(2) kind]) (use o lock over in \<open>auto simp: lockstep_def\<close>)
  have inv': "rekey_inv rk" "rekey_inv (fst (admit_authenticated_peer_record ?r kind ?n))"
    using rekey_inv_reduce [OF inv(1) 1(3)] rekey_ok_admit [OF inv(2)] by (simp_all add: rekey_ok_def)
  show ?thesis
    using lock 1 tb rd dec adm o inv'
    by (auto simp: decrypt_record_def lockstep_def Let_def)
qed

text \<open>A batch of records, sealed in order and opened in order.\<close>

fun encrypt_all ::
    "('h, 't) snow \<Rightarrow> ('h, 't) noise_child \<Rightarrow> (record_kind \<times> bytes) list
      \<Rightarrow> ('h, 't) noise_child \<times> (noise_error + bytes list)" where
  "encrypt_all sn c [] = (c, Inr [])"
| "encrypt_all sn c ((kind, payload) # msgs) =
     (case encrypt_record sn c kind payload of
        (c, Inl e) \<Rightarrow> (c, Inl e)
      | (c, Inr ct) \<Rightarrow>
        (case encrypt_all sn c msgs of
           (c, Inl e) \<Rightarrow> (c, Inl e)
         | (c, Inr cts) \<Rightarrow> (c, Inr (ct # cts))))"

fun decrypt_all ::
    "('h, 't) snow \<Rightarrow> ('h, 't) noise_child \<Rightarrow> bytes list
      \<Rightarrow> ('h, 't) noise_child \<times> (noise_error + noise_record list)" where
  "decrypt_all sn c [] = (c, Inr [])"
| "decrypt_all sn c (ct # cts) =
     (case decrypt_record sn c (nc_receive_sequence c) ct of
        (c, Inl e) \<Rightarrow> (c, Inl e)
      | (c, Inr rec) \<Rightarrow>
        (case decrypt_all sn c cts of
           (c, Inl e) \<Rightarrow> (c, Inl e)
         | (c, Inr recs) \<Rightarrow> (c, Inr (rec # recs))))"

lemma channel_all:
  assumes sn: "faithful_channel sn linked"
    and "list_all (\<lambda>(kind, _). kind = Kind_Data \<or> kind = Kind_Ack) msgs"
    and "lockstep linked a b" and "encrypt_all sn a msgs = (a', Inr cts)"
  shows "\<exists>b' recs. decrypt_all sn b cts = (b', Inr recs) \<and> lockstep linked a' b'
    \<and> map (\<lambda>r. (nr_kind r, nr_payload r)) recs = msgs"
  using assms(2-4)
proof (induction msgs arbitrary: a b cts)
  case Nil
  then show ?case by simp
next
  case (Cons m msgs)
  obtain kind payload where m: "m = (kind, payload)" by fastforce
  obtain a1 ct where one: "encrypt_record sn a kind payload = (a1, Inr ct)"
    using Cons.prems(3) m by (auto split: prod.splits sum.splits)
  obtain cts' where rest: "encrypt_all sn a1 msgs = (a', Inr cts')" "cts = ct # cts'"
    using Cons.prems(3) m one by (auto split: prod.splits sum.splits)
  have kind: "kind = Kind_Data \<or> kind = Kind_Ack" using Cons.prems(1) m by simp
  obtain b1 where b1: "decrypt_record sn b (nc_receive_sequence b) ct
      = (b1, Inr \<lparr>nr_kind = kind, nr_sequence = nc_send_sequence a, nr_payload = payload\<rparr>)"
      "lockstep linked a1 b1"
    using channel_one [OF sn kind Cons.prems(2) one] by blast
  from Cons.IH [OF _ b1(2) rest(1)] Cons.prems(1) show ?case
    using b1(1) rest(2) m by auto
qed

section \<open>Closed children\<close>

lemma closed_step:
  assumes "child_inv c" and "nc_phase c = PhaseClosed"
  shows "child_inv (child_step sn sha gate c call) \<and> nc_phase (child_step sn sha gate c call) = PhaseClosed"
proof -
  have k: "child_inv (fst (child_fail c e))" "child_inv (fst (child_invalid_state c))" "child_inv (child_close c)"
      "nc_phase (fst (child_invalid_state c)) = PhaseClosed" "nc_phase (child_close c) = PhaseClosed" for e
    using assms by (auto simp: child_inv_def child_invalid_state_def child_close_def)
  show ?thesis
    using assms(2)
    by (cases call)
      (auto simp: k write_handshake_def read_handshake_def child_authorize_def encrypt_record_def
        decrypt_record_def encrypt_rekey_action_with_prefix_def handle_send_rekey_event_def
        handle_receive_rekey_event_def bind_fallback_route_generation_def)
qed

interpretation closed: guarded_machine "child_step sn sha gate" "\<lambda>c. True"
    "\<lambda>c. child_inv c \<and> nc_phase c = PhaseClosed" for sn sha gate
  by unfold_locales (metis closed_step)

section \<open>A concrete channel and child\<close>

text \<open>A transport that counts messages and appends an all-zero tag.\<close>

definition loopback :: "(unit, nat) snow" where
  "loopback =
     \<lparr>sn_build = (\<lambda>_ _. Some ()), sn_write_handshake = (\<lambda>_. ((), Some (replicate 32 1))),
      sn_read_handshake = (\<lambda>_ _. ((), Some 0)), sn_is_finished = (\<lambda>_. True),
      sn_handshake_hash = (\<lambda>_. replicate 32 0), sn_into_transport = (\<lambda>_. Some 0),
      sn_write = (\<lambda>t p. (Suc t, Some (p @ replicate 16 0))),
      sn_read = (\<lambda>t c. (Suc t, Some (take (length c - 16) c))),
      sn_rekey_outgoing = (\<lambda>t. t + 1000), sn_rekey_incoming = (\<lambda>t. t + 1000)\<rparr>"

definition sample_prologue :: noise_prologue where
  "sample_prologue =
     \<lparr>np_child_attempt_id = 1, np_grant_jti = 2, np_client_certificate_id = 3,
      np_client_certificate_generation = 4, np_daemon_certificate_id = 5,
      np_daemon_certificate_generation = 6, np_selected_tuple_id = 7, np_negotiation_digest = 8,
      np_policy_digest = 9, np_connection_nonce = 10\<rparr>"

definition fresh_direction :: "u8 \<Rightarrow> directional_rekey" where
  "fresh_direction d =
     \<lparr>dr_direction = d, dr_absolute_sequence = 0, dr_key_epoch = 0, dr_records_under_key = 0,
      dr_application_bytes = 0, dr_state = DS_Open, dr_acked = False, dr_reassembly_empty = False,
      dr_pending_prepare = None, dr_prior_prepare = None, dr_prior_prepare_result = None,
      dr_prior_commit_epoch = None, dr_prior_commit_result = None\<rparr>"

definition sample_child :: "handshake_phase \<Rightarrow> 'h option \<Rightarrow> 't option \<Rightarrow> ('h, 't) noise_child" where
  "sample_child phase h t =
     \<lparr>nc_role = ClientInitiator, nc_phase = phase, nc_prologue = sample_prologue, nc_transport_epoch = 1,
      nc_handshake = h, nc_transport = t, nc_initiator_ephemeral = Some 1, nc_responder_ephemeral = Some 1,
      nc_send_sequence = 0, nc_receive_sequence = 0, nc_send_rekey = fresh_direction 1,
      nc_receive_rekey = fresh_direction 2, nc_pending_control_action = None,
      nc_last_control_ciphertext = None, nc_fallback_route_generation = None,
      nc_closed_due_to_failure = False\<rparr>"

lemma fresh_direction_inv [simp]: "rekey_inv (fresh_direction d)"
  by (simp add: rekey_inv_def fresh_direction_def)

lemma loopback_faithful: "faithful_channel loopback (=)"
  by (simp add: faithful_channel_def loopback_def)

lemma sample_encrypt:
  "encrypt_record loopback (sample_child Transport None (Some 0)) Kind_Data [5] =
    ((sample_child Transport None (Some 1))\<lparr>nc_send_sequence := 1, nc_send_rekey :=
       (fresh_direction 1)\<lparr>dr_absolute_sequence := 1, dr_records_under_key := 1, dr_application_bytes := 1\<rparr>\<rparr>,
     Inr ([1, 1] @ be64 0 @ be32 1 @ [5] @ replicate 16 0))"
  by (simp add: encrypt_record_def sample_child_def fresh_direction_def loopback_def reduce_def
      local_record_request_def consume_record_def checked_add_def data_over_budget_def word_nat Let_def
      record_consts encode_plaintext_ok)

text \<open>A complete handshake of the concrete child, up to one sealed record.\<close>

abbreviation sample_frame :: bytes where
  "sample_frame \<equiv> [1, 2] @ be16 32 @ replicate 32 1"

abbreviation sample_calls :: "child_call list" where
  "sample_calls \<equiv> [Child_WriteHandshake, Child_ReadHandshake sample_frame, Child_Authorize [1] [2],
     Child_Encrypt Kind_Data [5]]"

lemma sample_new:
  "noise_child_new (logging loopback) ClientInitiator (prologue_encode sample_prologue) 1
    = Inr ((sample_child WriteOne (Some ()) None)\<lparr>nc_initiator_ephemeral := None, nc_responder_ephemeral := None\<rparr>)"
  by (simp add: noise_child_new_def prologue_decode_encode logging_def loopback_def directional_rekey_new_def
      sample_child_def fresh_direction_def)

lemma sample_run:
  "\<exists>t log. nc_transport (foldl (child_step (logging loopback) (\<lambda>_. 0) (\<lambda>_. True))
     ((sample_child WriteOne (Some ()) None)\<lparr>nc_initiator_ephemeral := None, nc_responder_ephemeral := None\<rparr>)
     sample_calls) = Some (t, log)
   \<and> nc_send_sequence (foldl (child_step (logging loopback) (\<lambda>_. 0) (\<lambda>_. True))
     ((sample_child WriteOne (Some ()) None)\<lparr>nc_initiator_ephemeral := None, nc_responder_ephemeral := None\<rparr>)
     sample_calls) = 1"
proof -
  let ?k = "rd256 0 (replicate 32 (1 :: u8))"
  let ?c0 = "(sample_child WriteOne (Some ()) None :: (unit, nat \<times> bytes list) noise_child)
    \<lparr>nc_initiator_ephemeral := None, nc_responder_ephemeral := None\<rparr>"
  let ?c1 = "?c0\<lparr>nc_phase := ReadTwo, nc_initiator_ephemeral := Some ?k\<rparr>"
  let ?c2 = "?c1\<lparr>nc_phase := AwaitAuthorization, nc_responder_ephemeral := Some ?k\<rparr>"
  let ?c3 = "?c2\<lparr>nc_phase := Transport, nc_handshake := None, nc_transport := Some (0, [])\<rparr>"
  have s1: "fst (write_handshake (logging loopback) ?c0) = ?c1"
    by (simp add: write_handshake_def capture_ephemeral_def sample_child_def logging_def loopback_def
        list_all_iff Let_def)
  have frame: "handshake_frame_decode sample_frame 2 = Inr \<lparr>hf_message_index = 2, hf_message = replicate 32 1\<rparr>"
    by (simp add: handshake_frame_decode_def handshake_consts be_simps)
  have s2: "fst (read_handshake (logging loopback) ?c1 sample_frame) = ?c2"
    by (simp add: read_handshake_def frame capture_ephemeral_def sample_child_def logging_def loopback_def
        list_all_iff Let_def del: append.simps)
  have s3: "fst (child_authorize (logging loopback) (\<lambda>_. 0) (\<lambda>_. True) ?c2 [1] [2]) = ?c3"
    by (simp add: child_authorize_def authorization_request_of_def sample_child_def logging_def loopback_def)
  have s4: "\<exists>t log. nc_transport (fst (encrypt_record (logging loopback) ?c3 Kind_Data [5])) = Some (t, log)
      \<and> nc_send_sequence (fst (encrypt_record (logging loopback) ?c3 Kind_Data [5])) = 1"
    by (simp add: encrypt_record_def sample_child_def fresh_direction_def loopback_def logging_def reduce_def
      local_record_request_def consume_record_def checked_add_def data_over_budget_def word_nat Let_def
      record_consts encode_plaintext_ok)
  show ?thesis
    using s4 by (simp only: foldl.simps child_step.simps s1 s2 s3)
qed

section \<open>Properties\<close>

text \<open>
  Sealed sequence numbers. Let a fresh child make any sequence of calls, over any \<open>snow\<close>. As long
  as it holds a transport, the plaintexts sealed so far, of application records, acknowledgements and
  rekey control records alike, carry the sequence numbers \<open>0, 1, 2, ...\<close> in order, one per record,
  and as many as the child has counted.
\<close>

theorem child_seals_consecutive_sequences:
  assumes "noise_child_new (logging sn) role prologue epoch = Inr c"
    and "nc_transport (foldl (child_step (logging sn) sha gate) c calls) = Some (t, log)"
  shows "map (\<lambda>p. unat (rd64 2 p)) log
    = [0..<unat (nc_send_sequence (foldl (child_step (logging sn) sha gate) c calls))]"
proof -
  have "log_inv (foldl (child_step (logging sn) sha gate) c calls)"
    using logged.inv_run [OF log_inv_new [OF assms(1)], of calls sn sha gate] by (simp add: list_all_iff)
  with assms(2) show ?thesis by (auto simp: log_inv_def)
qed

theorem child_seals_consecutive_sequences_witness:
  "\<exists>c t log. noise_child_new (logging loopback) ClientInitiator (prologue_encode sample_prologue) 1 = Inr c
    \<and> nc_transport (foldl (child_step (logging loopback) (\<lambda>_. 0) (\<lambda>_. True)) c sample_calls) = Some (t, log)
    \<and> map (\<lambda>p. unat (rd64 2 p)) log = [0]"
proof -
  obtain t log where run: "nc_transport (foldl (child_step (logging loopback) (\<lambda>_. 0) (\<lambda>_. True))
      ((sample_child WriteOne (Some ()) None)\<lparr>nc_initiator_ephemeral := None, nc_responder_ephemeral := None\<rparr>)
      sample_calls) = Some (t, log)"
    and n: "nc_send_sequence (foldl (child_step (logging loopback) (\<lambda>_. 0) (\<lambda>_. True))
      ((sample_child WriteOne (Some ()) None)\<lparr>nc_initiator_ephemeral := None, nc_responder_ephemeral := None\<rparr>)
      sample_calls) = 1"
    using sample_run by (elim exE conjE)
  from child_seals_consecutive_sequences [OF sample_new run] have "map (\<lambda>p. unat (rd64 2 p)) log = [0]"
    unfolding n by simp
  with sample_new run show ?thesis by (intro exI conjI)
qed

text \<open>
  C8. No transport without authorization. A call that brings a child into the transport phase is an
  authorization of a finished handshake with non-empty proofs, and the gate granted the request that
  binds the child's own prologue, transport epoch, handshake hash and both ephemeral keys.
\<close>

theorem child_transport_needs_authorization:
  assumes "nc_phase c \<noteq> Transport" and "nc_phase (child_step sn sha gate c call) = Transport"
  shows "\<exists>p q h request. call = Child_Authorize p q \<and> p \<noteq> [] \<and> q \<noteq> [] \<and> nc_phase c = AwaitAuthorization
    \<and> nc_handshake c = Some h \<and> sn_is_finished sn h \<and> gate request
    \<and> authorization_request_of sn sha c h p q = Inr request
    \<and> ar_prologue_digest request = prologue_digest sha (nc_prologue c)
    \<and> ar_transport_epoch request = nc_transport_epoch c
    \<and> nc_initiator_ephemeral c = Some (ar_initiator_ephemeral request)
    \<and> nc_responder_ephemeral c = Some (ar_responder_ephemeral request)"
proof (cases call)
  case (Child_Authorize p q)
  show ?thesis
    using assms Child_Authorize
    by (auto simp: child_authorize_def child_invalid_state_def authorization_request_of_def result_simps
        split: if_splits option.splits sum.splits)
next
  case Child_WriteHandshake
  then show ?thesis
    using assms
    by (auto simp: write_handshake_def child_invalid_state_def split: if_splits option.splits sum.splits prod.splits
        dest!: capture_ephemeral_frame)
next
  case (Child_ReadHandshake framed)
  then show ?thesis
    using assms
    by (auto simp: read_handshake_def child_invalid_state_def split: if_splits option.splits sum.splits prod.splits
        dest!: capture_ephemeral_frame)
qed (use assms in \<open>auto simp: encrypt_record_def decrypt_record_def encrypt_rekey_action_with_prefix_def
      handle_send_rekey_event_def handle_receive_rekey_event_def bind_fallback_route_generation_def
      child_invalid_state_def child_close_def split: if_splits\<close>)

text \<open>
  C13. A refused record closes the child for good. When decryption refuses a record, the child drops its
  keys and is closed; from then on every call leaves it closed and keyless, and no call encrypts or
  decrypts anything.
\<close>

theorem child_decrypt_error_closes:
  assumes "child_inv c" and "unat (nc_receive_sequence c) \<le> 4294967296"
    and "snd (decrypt_record sn c seq ciphertext) = Inl e"
  shows "nc_phase (foldl (child_step sn sha gate) (fst (decrypt_record sn c seq ciphertext)) calls) = PhaseClosed
    \<and> nc_transport (foldl (child_step sn sha gate) (fst (decrypt_record sn c seq ciphertext)) calls) = None"
proof -
  have "child_inv (fst (decrypt_record sn c seq ciphertext))
      \<and> nc_phase (fst (decrypt_record sn c seq ciphertext)) = PhaseClosed"
  proof -
    have both: "rekey_inv (nc_send_rekey c)" "rekey_inv (nc_receive_rekey c)"
      using assms(1) by (simp_all add: child_inv_def)
    have "checked_add (nc_receive_sequence c) 1 \<noteq> None"
      using assms(2) by (simp add: checked_add_def)
    then show ?thesis
      using assms(1, 3) both
      by (auto simp: decrypt_record_def Let_def child_invalid_state_def
          split: if_splits option.splits sum.splits prod.splits
          intro!: child_inv_fail intro: rekey_inv_admit)
        (auto simp: child_inv_def)
  qed
  from closed.inv_run [OF this, of calls sn sha gate] show ?thesis
    by (simp add: list_all_iff child_inv_def)
qed

text \<open>
  C5. End to end. Two children in lockstep over a channel that opens what it seals: every batch of data
  and acknowledgement records one child encrypts is decrypted by the other, in order, to the same kinds
  and payloads, and the children stay in lockstep.
\<close>

theorem child_channel_delivers:
  assumes "faithful_channel sn linked" and "lockstep linked a b"
    and "list_all (\<lambda>(kind, _). kind = Kind_Data \<or> kind = Kind_Ack) msgs"
    and "encrypt_all sn a msgs = (a', Inr cts)"
  shows "\<exists>b' recs. decrypt_all sn b cts = (b', Inr recs) \<and> lockstep linked a' b'
    \<and> map (\<lambda>r. (nr_kind r, nr_payload r)) recs = msgs"
  using assms(1, 3, 2, 4) by (rule channel_all)

theorem child_channel_delivers_witness:
  "\<exists>a' cts b' recs. encrypt_all loopback (sample_child Transport None (Some 0)) [(Kind_Data, [5])] = (a', Inr cts)
    \<and> decrypt_all loopback (sample_child Transport None (Some 0)) cts = (b', Inr recs)
    \<and> map (\<lambda>r. (nr_kind r, nr_payload r)) recs = [(Kind_Data, [5])]"
proof -
  let ?c = "sample_child Transport None (Some 0) :: (unit, nat) noise_child"
  have lock: "lockstep (=) ?c ?c"
    by (simp add: lockstep_def sample_child_def) (simp add: fresh_direction_def)
  obtain a' cts where enc: "encrypt_all loopback ?c [(Kind_Data, [5])] = (a', Inr cts)"
    by (simp add: sample_encrypt)
  have "list_all (\<lambda>(kind, _). kind = Kind_Data \<or> kind = Kind_Ack) [(Kind_Data, [5 :: u8])]"
    by simp
  from child_channel_delivers [OF loopback_faithful lock this enc] obtain b' recs where
      "decrypt_all loopback ?c cts = (b', Inr recs)" "map (\<lambda>r. (nr_kind r, nr_payload r)) recs = [(Kind_Data, [5])]"
    by (elim exE conjE)
  with enc show ?thesis by (intro exI conjI)
qed

theorem child_transport_needs_authorization_witness:
  "nc_phase (child_step loopback (\<lambda>_. 0) (\<lambda>_. True) (sample_child AwaitAuthorization (Some ()) None)
     (Child_Authorize [1] [2])) = Transport
   \<and> (\<exists>request. authorization_request_of loopback (\<lambda>_. 0)
        (sample_child AwaitAuthorization (Some ()) None :: (unit, nat) noise_child) () [1] [2] = Inr request)"
proof -
  let ?c = "sample_child AwaitAuthorization (Some ()) None :: (unit, nat) noise_child"
  have t: "nc_phase (child_step loopback (\<lambda>_. 0) (\<lambda>_. True) ?c (Child_Authorize [1] [2])) = Transport"
    by (simp add: child_authorize_def sample_child_def loopback_def authorization_request_of_def)
  moreover have "nc_phase ?c \<noteq> Transport" by (simp add: sample_child_def)
  from child_transport_needs_authorization [OF this t] have "\<exists>request.
      authorization_request_of loopback (\<lambda>_. 0) ?c () [1] [2] = Inr request"
    by (auto simp: sample_child_def)
  ultimately show ?thesis by blast
qed

theorem child_decrypt_error_closes_witness:
  "snd (decrypt_record loopback (sample_child Transport None (Some 0)) 3 []) = Inl SequenceMismatch
   \<and> nc_phase (foldl (child_step loopback (\<lambda>_. 0) (\<lambda>_. True))
        (fst (decrypt_record loopback (sample_child Transport None (Some 0)) 3 []))
        [Child_Encrypt Kind_Data [5]]) = PhaseClosed"
proof -
  let ?c = "sample_child Transport None (Some 0) :: (unit, nat) noise_child"
  have "child_inv ?c" "unat (nc_receive_sequence ?c) \<le> 4294967296"
    by (simp_all add: child_inv_def sample_child_def)
  moreover have e: "snd (decrypt_record loopback ?c 3 []) = Inl SequenceMismatch"
    by (simp add: decrypt_record_def sample_child_def record_consts)
  ultimately show ?thesis
    using child_decrypt_error_closes by blast
qed

text \<open>
  A repeated peer commit rekeys twice. The reducer answers a repeated commit with the same actions,
  and the child applies the actions of every answer: the outgoing transport key advances a second time
  although the epoch does not.
\<close>

theorem child_repeated_commit_rekeys_twice:
  assumes "nc_transport c = Some t" and "dr_prior_commit_epoch (nc_send_rekey c) \<noteq> Some k"
    and "handle_send_rekey_event sn c (Event_PeerCommitAuthenticated k) = (c1, Inr acts)"
  shows "nc_transport c1 = Some (sn_rekey_outgoing sn t)
    \<and> (\<exists>c2. handle_send_rekey_event sn c1 (Event_PeerCommitAuthenticated k) = (c2, Inr acts)
         \<and> nc_transport c2 = Some (sn_rekey_outgoing sn (sn_rekey_outgoing sn t))
         \<and> dr_key_epoch (nc_send_rekey c2) = dr_key_epoch (nc_send_rekey c1))"
proof -
  have phase: "nc_phase c = Transport"
    using assms(3) by (auto simp: handle_send_rekey_event_def child_invalid_state_def child_fail_def Let_def
        split: if_splits)
  obtain rk res where red: "reduce (nc_send_rekey c) (Event_PeerCommitAuthenticated k) = (rk, res)" by fastforce
  then obtain acts' where res: "res = Inr acts'"
    using assms(3) phase by (cases res) (auto simp: handle_send_rekey_event_def child_fail_def Let_def)
  have acts': "\<exists>q. acts' = [Action_ApplySendRekey k, Action_Open q k]"
    using red assms(2) by (auto simp: res reduce_Inr_iff peer_commit_def Let_def split: if_splits option.splits)
  then have c1: "acts = acts'" "c1 = c\<lparr>nc_send_rekey := rk, nc_transport := Some (sn_rekey_outgoing sn t)\<rparr>"
    using assms(1, 3) phase red res by (auto simp: handle_send_rekey_event_def)
  have "reduce rk (Event_PeerCommitAuthenticated k) = (rk, Inr acts')"
    using repeat_peer_commit red res by simp
  then show ?thesis
    using acts' c1 phase by (auto simp: handle_send_rekey_event_def)
qed

theorem child_repeated_commit_rekeys_twice_witness:
  "\<exists>c c1 c2 acts. nc_transport c = Some 7
    \<and> handle_send_rekey_event loopback c (Event_PeerCommitAuthenticated 1) = (c1, Inr acts)
    \<and> handle_send_rekey_event loopback c1 (Event_PeerCommitAuthenticated 1) = (c2, Inr acts)
    \<and> nc_transport c2 = Some 2007"
proof -
  let ?rk = "(fresh_direction 1)\<lparr>dr_state := DS_WaitCommit, dr_pending_prepare := Some sample_prepare\<rparr>"
  let ?c = "(sample_child Transport None (Some 7) :: (unit, nat) noise_child)\<lparr>nc_send_rekey := ?rk\<rparr>"
  have "\<exists>c1 acts. handle_send_rekey_event loopback ?c (Event_PeerCommitAuthenticated 1) = (c1, Inr acts)"
    by (simp add: handle_send_rekey_event_def sample_child_def fresh_direction_def reduce_def peer_commit_def Let_def)
  then obtain c1 acts where h: "handle_send_rekey_event loopback ?c (Event_PeerCommitAuthenticated 1) = (c1, Inr acts)"
    by blast
  have t: "nc_transport ?c = Some 7" and p: "dr_prior_commit_epoch (nc_send_rekey ?c) \<noteq> Some 1"
    by (simp_all add: sample_child_def fresh_direction_def)
  from child_repeated_commit_rekeys_twice [OF t p h] obtain c2 where
      "handle_send_rekey_event loopback c1 (Event_PeerCommitAuthenticated 1) = (c2, Inr acts)"
      "nc_transport c2 = Some (sn_rekey_outgoing loopback (sn_rekey_outgoing loopback 7))"
    by blast
  moreover have "sn_rekey_outgoing loopback (sn_rekey_outgoing loopback 7) = 2007"
    by (simp add: loopback_def)
  ultimately show ?thesis
    using t h by (intro exI [of _ ?c] exI [of _ c1] exI [of _ c2] exI [of _ acts]) simp
qed

end
