(* ===== verification/Ordered_Store.thy ===== *)
theory Ordered_Store
  imports Remote_Prelude
begin

text \<open>
  The keyed collections of the Rust code. A \<open>BTreeMap<K, V>\<close> is the list of its entries in ascending
  key order; a \<open>HashMap<K, V>\<close> is modelled by the same list, since the code only reads it by key, by
  size, or by folds that do not depend on the order of the entries (the one exception, an eviction
  with ties, is discussed where it occurs).

  The interface \<open>keyed_store\<close> states what the clients rely on: what a lookup returns after an
  insertion or a removal, how the size changes, and how the sum of a weight over the entries changes.
  The weight laws carry every byte-accounting proof of the development.
\<close>

section \<open>Operations\<close>

type_synonym ('k, 'v) btree = "('k \<times> 'v) list"

definition bt_wf :: "('k::linorder, 'v) btree \<Rightarrow> bool" where
  "bt_wf m \<longleftrightarrow> sorted_wrt (<) (map fst m)"

definition bt_get :: "('k, 'v) btree \<Rightarrow> 'k \<Rightarrow> 'v option" where
  "bt_get m k = map_of m k"

primrec bt_insert :: "'k::linorder \<Rightarrow> 'v \<Rightarrow> ('k, 'v) btree \<Rightarrow> ('k, 'v) btree" where
  "bt_insert k v [] = [(k, v)]"
| "bt_insert k v (e # m) =
     (if fst e < k then e # bt_insert k v m
      else if fst e = k then (k, v) # m
      else (k, v) # e # m)"

definition bt_remove :: "'k \<Rightarrow> ('k, 'v) btree \<Rightarrow> ('k, 'v) btree" where
  "bt_remove k m = filter (\<lambda>e. fst e \<noteq> k) m"

definition bt_total :: "('v \<Rightarrow> nat) \<Rightarrow> ('k, 'v) btree \<Rightarrow> nat" where
  "bt_total f m = sum_list (map (\<lambda>e. f (snd e)) m)"

definition bt_values :: "('k, 'v) btree \<Rightarrow> 'v list" where
  "bt_values m = map snd m"

section \<open>The interface\<close>

locale keyed_store =
  fixes empty :: "'m"
    and get :: "'m \<Rightarrow> 'k \<Rightarrow> 'v option"
    and insert :: "'k \<Rightarrow> 'v \<Rightarrow> 'm \<Rightarrow> 'm"
    and remove :: "'k \<Rightarrow> 'm \<Rightarrow> 'm"
    and len :: "'m \<Rightarrow> nat"
    and total :: "('v \<Rightarrow> nat) \<Rightarrow> 'm \<Rightarrow> nat"
    and invar :: "'m \<Rightarrow> bool"
  assumes get_empty: "get empty k = None"
    and len_empty: "len empty = 0"
    and total_empty: "total f empty = 0"
    and invar_empty: "invar empty"
    and get_insert: "get (insert k v m) j = (if j = k then Some v else get m j)"
    and get_remove: "get (remove k m) j = (if j = k then None else get m j)"
    and invar_insert: "invar m \<Longrightarrow> invar (insert k v m)"
    and invar_remove: "invar m \<Longrightarrow> invar (remove k m)"
    and len_insert_new: "get m k = None \<Longrightarrow> len (insert k v m) = Suc (len m)"
    and len_remove_old: "invar m \<Longrightarrow> get m k = Some v \<Longrightarrow> Suc (len (remove k m)) = len m"
    and remove_absent: "get m k = None \<Longrightarrow> remove k m = m"
    and insert_over: "invar m \<Longrightarrow> remove k (insert k v m) = remove k m"
    and total_insert_new: "get m k = None \<Longrightarrow> total f (insert k v m) = f v + total f m"
    and total_remove_old: "invar m \<Longrightarrow> get m k = Some v \<Longrightarrow> f v + total f (remove k m) = total f m"
begin

lemma total_member: "invar m \<Longrightarrow> get m k = Some v \<Longrightarrow> f v \<le> total f m"
  using total_remove_old [of m k v f] by linarith

lemma total_replace:
  assumes "invar m" and "get m k = Some v"
  shows "f v + total f (insert k v' m) = f v' + total f m"
proof -
  have "f v' + total f (remove k (insert k v' m)) = total f (insert k v' m)"
    using assms by (intro total_remove_old) (simp_all add: invar_insert get_insert)
  moreover have "f v + total f (remove k m) = total f m"
    using assms by (rule total_remove_old)
  ultimately show ?thesis
    using assms(1) by (simp add: insert_over)
qed

lemma len_replace:
  assumes "invar m" and "get m k = Some v"
  shows "len (insert k v' m) = len m"
proof -
  have "Suc (len (remove k (insert k v' m))) = len (insert k v' m)"
    using assms by (intro len_remove_old) (simp_all add: invar_insert get_insert)
  moreover have "Suc (len (remove k m)) = len m"
    using assms by (rule len_remove_old)
  ultimately show ?thesis
    using assms(1) by (simp add: insert_over)
qed

lemma len_insert_le: "invar m \<Longrightarrow> len (insert k v m) \<le> Suc (len m)"
  by (cases "get m k") (simp_all add: len_insert_new len_replace)

lemma len_remove_le: "invar m \<Longrightarrow> len (remove k m) \<le> len m"
proof (cases "get m k")
  case None
  then show ?thesis by (simp add: remove_absent)
next
  case (Some v)
  assume "invar m"
  with Some have "Suc (len (remove k m)) = len m" by (rule_tac len_remove_old)
  then show ?thesis by simp
qed

lemma total_remove_le: "invar m \<Longrightarrow> total f (remove k m) \<le> total f m"
proof (cases "get m k")
  case None
  then show ?thesis by (simp add: remove_absent)
next
  case (Some v)
  assume "invar m"
  from total_remove_old [OF this Some, of f] show ?thesis by linarith
qed

lemma len_one_of_member: "invar m \<Longrightarrow> get m k = Some v \<Longrightarrow> 0 < len m"
  using len_remove_old [of m k v] by linarith

lemmas store_laws = get_empty get_insert get_remove invar_empty invar_insert invar_remove

end

section \<open>The sorted list implements it\<close>

lemma bt_get_insert: "bt_get (bt_insert k v m) j = (if j = k then Some v else bt_get m j)"
  by (induction m) (auto simp: bt_get_def)

lemma bt_get_remove: "bt_get (bt_remove k m) j = (if j = k then None else bt_get m j)"
  by (induction m) (auto simp: bt_get_def bt_remove_def)

lemma keys_bt_insert: "fst ` set (bt_insert k v m) = insert k (fst ` set m)"
  by (induction m) auto

lemma bt_wf_Cons: "bt_wf (e # m) \<longleftrightarrow> (\<forall>x \<in> set m. fst e < fst x) \<and> bt_wf m"
  by (auto simp: bt_wf_def)

lemma bt_wf_insert: "bt_wf m \<Longrightarrow> bt_wf (bt_insert k v m)"
proof (induction m)
  case Nil
  then show ?case by (simp add: bt_wf_def)
next
  case (Cons e m)
  have "fst e < k \<Longrightarrow> \<forall>x \<in> set (bt_insert k v m). fst e < fst x"
  proof
    fix x
    assume "fst e < k" and "x \<in> set (bt_insert k v m)"
    moreover from this have "fst x \<in> insert k (fst ` set m)"
      using keys_bt_insert [of k v m] by blast
    ultimately show "fst e < fst x"
      using Cons.prems by (auto simp: bt_wf_Cons)
  qed
  with Cons show ?case
    by (auto simp: bt_wf_Cons)
qed

lemma bt_wf_filter: "bt_wf m \<Longrightarrow> bt_wf (filter P m)"
  by (induction m) (auto simp: bt_wf_Cons)

lemma bt_get_None_iff: "bt_get m k = None \<longleftrightarrow> k \<notin> fst ` set m"
  by (simp add: bt_get_def map_of_eq_None_iff)

lemma bt_get_SomeD: "bt_get m k = Some v \<Longrightarrow> (k, v) \<in> set m"
  by (simp add: bt_get_def map_of_SomeD)

lemma bt_wf_distinct: "bt_wf m \<Longrightarrow> distinct (map fst m)"
  by (auto simp: bt_wf_def strict_sorted_iff)

lemma bt_get_eq_Some_iff: "bt_wf m \<Longrightarrow> bt_get m k = Some v \<longleftrightarrow> (k, v) \<in> set m"
  by (simp add: bt_get_def bt_wf_distinct)

lemma length_bt_insert_new: "bt_get m k = None \<Longrightarrow> length (bt_insert k v m) = Suc (length m)"
  by (induction m) (auto simp: bt_get_None_iff)

lemma bt_total_insert_new: "bt_get m k = None \<Longrightarrow> bt_total f (bt_insert k v m) = f v + bt_total f m"
  by (induction m) (auto simp: bt_get_None_iff bt_total_def)

lemma bt_remove_absent: "bt_get m k = None \<Longrightarrow> bt_remove k m = m"
  by (induction m) (auto simp: bt_get_None_iff bt_remove_def)

lemma bt_remove_insert: "bt_wf m \<Longrightarrow> bt_remove k (bt_insert k v m) = bt_remove k m"
proof (induction m)
  case Nil
  then show ?case by (simp add: bt_remove_def)
next
  case (Cons e m)
  then show ?case
    by (auto simp: bt_wf_Cons bt_remove_def)
qed

lemma bt_remove_split:
  assumes "bt_wf m" and "bt_get m k = Some v"
  shows "\<exists>as bs. m = as @ (k, v) # bs \<and> bt_remove k m = as @ bs"
proof -
  from assms(2) obtain as bs where m: "m = as @ (k, v) # bs"
    by (meson bt_get_SomeD split_list)
  with assms(1) have "distinct (map fst (as @ (k, v) # bs))"
    using bt_wf_distinct by blast
  then have "k \<notin> fst ` set as" "k \<notin> fst ` set bs" by auto
  then have "bt_remove k m = as @ bs"
    unfolding m bt_remove_def by (simp add: image_iff) (metis (mono_tags, lifting) filter_True)
  with m show ?thesis by blast
qed

lemma length_bt_remove:
  "bt_wf m \<Longrightarrow> bt_get m k = Some v \<Longrightarrow> Suc (length (bt_remove k m)) = length m"
  by (drule (1) bt_remove_split) auto

lemma bt_total_remove:
  "bt_wf m \<Longrightarrow> bt_get m k = Some v \<Longrightarrow> f v + bt_total f (bt_remove k m) = bt_total f m"
  by (drule (1) bt_remove_split) (auto simp: bt_total_def)

lemma bt_wf_Nil: "bt_wf []"
  by (simp add: bt_wf_def)

lemma bt_wf_remove: "bt_wf m \<Longrightarrow> bt_wf (bt_remove k m)"
  by (simp add: bt_remove_def bt_wf_filter)

interpretation bt: keyed_store "[]" bt_get bt_insert bt_remove length bt_total bt_wf
proof unfold_locales
  fix m :: "('a, 'b) btree" and k :: 'a and v :: 'b and f :: "'b \<Rightarrow> nat"
  show "bt_get m k = None \<Longrightarrow> length (bt_insert k v m) = Suc (length m)"
    by (rule length_bt_insert_new)
  show "bt_wf m \<Longrightarrow> bt_get m k = Some v \<Longrightarrow> Suc (length (bt_remove k m)) = length m"
    by (rule length_bt_remove)
  show "bt_wf m \<Longrightarrow> bt_get m k = Some v \<Longrightarrow> f v + bt_total f (bt_remove k m) = bt_total f m"
    by (rule bt_total_remove)
qed (simp_all add: bt_get_insert bt_get_remove bt_wf_insert bt_wf_Nil bt_wf_remove
       bt_total_insert_new bt_remove_absent bt_remove_insert, simp_all add: bt_get_def bt_total_def)

declare bt.get_empty [simp] bt_get_insert [simp] bt_get_remove [simp]
  bt_wf_insert [simp, intro] bt_wf_remove [simp, intro] bt_wf_Nil [simp] bt_wf_filter [simp, intro]

end
