(* ===== verification/Noise_Fallback.thy ===== *)
theory Noise_Fallback
  imports Noise_Record Ordered_Store
begin

text \<open>
  The fallback transport of the Noise child (\<open>crates/cockpit-noise/src/fallback.rs\<close>): the outer
  record and cumulative acknowledgement codecs, the receive window that restores order, and the send
  window that retains ciphertext for retransmission. SHA-256 is the parameter \<open>sha\<close>.

  Shown here: both codecs are exact; whatever arrives, the receive window hands over records with the
  sequence numbers 0, 1, 2, ... in order and each once, holds back nothing that is deliverable, and
  stays within its record and byte budgets; the send window holds exactly the unreleased records.
\<close>

section \<open>Definitions\<close>

definition FALLBACK_OUTER_HEADER_LEN :: nat where "FALLBACK_OUTER_HEADER_LEN = 28"
definition FALLBACK_MAX_MESSAGE :: nat where "FALLBACK_MAX_MESSAGE = 65563"
definition FALLBACK_MAX_CIPHERTEXT :: nat where "FALLBACK_MAX_CIPHERTEXT = 65535"
definition FALLBACK_MIN_CIPHERTEXT :: nat where "FALLBACK_MIN_CIPHERTEXT = 30"
definition FALLBACK_WINDOW_RECORDS :: nat where "FALLBACK_WINDOW_RECORDS = 64"
definition FALLBACK_WINDOW_BYTES :: nat where "FALLBACK_WINDOW_BYTES = 4 * 1024 * 1024"
definition ACK_WIRE_LEN :: nat where "ACK_WIRE_LEN = 9"
definition ACK_NONE :: u64 where "ACK_NONE = - 1"
definition ACK_BATCH :: u8 where "ACK_BATCH = 8"
definition ACK_DEADLINE_MILLIS :: u64 where "ACK_DEADLINE_MILLIS = 25"
definition RETRY_MILLIS :: "u64 list" where "RETRY_MILLIS = [750, 1500, 3000]"
definition FALLBACK_SEQUENCE_LIMIT :: u64 where "FALLBACK_SEQUENCE_LIMIT = 4294967296"

lemmas fallback_consts = FALLBACK_OUTER_HEADER_LEN_def FALLBACK_MAX_MESSAGE_def
  FALLBACK_MAX_CIPHERTEXT_def FALLBACK_MIN_CIPHERTEXT_def FALLBACK_WINDOW_RECORDS_def
  FALLBACK_WINDOW_BYTES_def ACK_WIRE_LEN_def

subsection \<open>Outer records\<close>

datatype fallback_direction = ClientToDaemon | DaemonToClient

fun fallback_direction_u8 :: "fallback_direction \<Rightarrow> u8" where
  "fallback_direction_u8 ClientToDaemon = 0"
| "fallback_direction_u8 DaemonToClient = 1"

definition fallback_direction_try_from :: "u8 \<Rightarrow> noise_error + fallback_direction" where
  "fallback_direction_try_from value =
     (if value = 0 then Inr ClientToDaemon
      else if value = 1 then Inr DaemonToClient
      else Inl InvalidFallback)"

record fallback_outer =
  fo_route_generation :: u64
  fo_direction :: fallback_direction
  fo_record_sequence :: u64
  fo_peer_seen_through :: u64
  fo_ciphertext :: bytes

record outer_header =
  oh_route_generation :: u64
  oh_direction :: fallback_direction
  oh_record_sequence :: u64
  oh_peer_seen_through :: u64
  oh_ciphertext_len :: nat

definition validate_outer_header :: "bytes \<Rightarrow> noise_error + outer_header" where
  "validate_outer_header bs =
     (if length bs < FALLBACK_OUTER_HEADER_LEN \<or> length bs > FALLBACK_MAX_MESSAGE \<or> bs ! 0 \<noteq> 1
      then Inl InvalidFallback
      else let ciphertext_len = unat (rd16 26 bs) in
        if \<not> (FALLBACK_MIN_CIPHERTEXT \<le> ciphertext_len \<and> ciphertext_len \<le> FALLBACK_MAX_CIPHERTEXT)
           \<or> length bs \<noteq> FALLBACK_OUTER_HEADER_LEN + ciphertext_len
        then Inl InvalidFallback
        else let route_generation = rd64 1 bs; record_sequence = rd64 10 bs in
          if route_generation = 0 \<or> record_sequence \<ge> FALLBACK_SEQUENCE_LIMIT then Inl InvalidFallback
          else rbind (fallback_direction_try_from (bs ! 9)) (\<lambda>direction.
            Inr \<lparr>oh_route_generation = route_generation, oh_direction = direction,
                 oh_record_sequence = record_sequence, oh_peer_seen_through = rd64 18 bs,
                 oh_ciphertext_len = ciphertext_len\<rparr>))"

definition outer_encode :: "fallback_outer \<Rightarrow> noise_error + bytes" where
  "outer_encode r =
     (if fo_route_generation r = 0 \<or> fo_record_sequence r \<ge> FALLBACK_SEQUENCE_LIMIT
         \<or> length (fo_ciphertext r) < FALLBACK_MIN_CIPHERTEXT
         \<or> length (fo_ciphertext r) > FALLBACK_MAX_CIPHERTEXT
      then Inl InvalidFallback
      else rbind (ok_or InvalidFallback (try_from_nat (length (fo_ciphertext r)))) (\<lambda>len.
        Inr ([1] @ be64 (fo_route_generation r) @ [fallback_direction_u8 (fo_direction r)]
             @ be64 (fo_record_sequence r) @ be64 (fo_peer_seen_through r) @ be16 len @ fo_ciphertext r)))"

definition outer_decode :: "bytes \<Rightarrow> noise_error + fallback_outer" where
  "outer_decode bs =
     rbind (validate_outer_header bs) (\<lambda>header.
       Inr \<lparr>fo_route_generation = oh_route_generation header, fo_direction = oh_direction header,
            fo_record_sequence = oh_record_sequence header,
            fo_peer_seen_through = oh_peer_seen_through header, fo_ciphertext = drop 28 bs\<rparr>)"

definition validate_authenticated_outer :: "fallback_outer \<Rightarrow> noise_record \<Rightarrow> noise_error + unit" where
  "validate_authenticated_outer outer inner =
     (if length (nr_payload inner) < 8 then Inl InvalidFallback
      else let watermark = rd64 0 (nr_payload inner) in
        if nr_sequence inner \<noteq> fo_record_sequence outer \<or> watermark \<noteq> fo_peer_seen_through outer
        then Inl InvalidFallback else Inr ())"

record cumulative_ack = ca_largest_contiguous :: u64

definition ack_encode :: "cumulative_ack \<Rightarrow> bytes" where
  "ack_encode a = [1] @ be64 (ca_largest_contiguous a)"

definition ack_decode :: "bytes \<Rightarrow> noise_error + cumulative_ack" where
  "ack_decode bs =
     (if length bs \<noteq> ACK_WIRE_LEN \<or> bs ! 0 \<noteq> 1 then Inl InvalidFallback
      else Inr \<lparr>ca_largest_contiguous = rd64 1 bs\<rparr>)"

subsection \<open>The receive window\<close>

record cached_record =
  cr_bytes :: bytes
  cr_byte_cost :: nat
  cr_digest :: digest32
  cr_tracked :: bool
  cr_retry_index :: nat

datatype receive_disposition =
    Disp_Buffered
  | Disp_Duplicate cumulative_ack
  | Disp_Contiguous "bytes list"

record receive_window =
  rw_next_sequence :: u64
  rw_bytes :: nat
  rw_pending :: "(u64, cached_record) btree"
  rw_accepted :: "(u64, digest32) btree"
  rw_newly_admitted :: u8
  rw_last_ack_millis :: u64

definition receive_window_new :: "u64 \<Rightarrow> receive_window" where
  "receive_window_new now_millis =
     \<lparr>rw_next_sequence = 0, rw_bytes = 0, rw_pending = [], rw_accepted = [], rw_newly_admitted = 0,
      rw_last_ack_millis = now_millis\<rparr>"

definition window_ack :: "receive_window \<Rightarrow> cumulative_ack" where
  "window_ack w =
     \<lparr>ca_largest_contiguous = (case checked_sub (rw_next_sequence w) 1 of None \<Rightarrow> ACK_NONE | Some n \<Rightarrow> n)\<rparr>"

text \<open>The inner loop of \<open>observe\<close>: forget the oldest accepted digests.\<close>

function trim_accepted :: "(u64, digest32) btree \<Rightarrow> noise_error + (u64, digest32) btree" where
  "trim_accepted accepted =
     (if length accepted > FALLBACK_WINDOW_RECORDS then
        (case accepted of
           [] \<Rightarrow> Inl InvalidFallback
         | first # _ \<Rightarrow> trim_accepted (bt_remove (fst first) accepted))
      else Inr accepted)"
  by pat_completeness auto
termination
  by (relation "measure length")
    (auto simp: bt_remove_def less_Suc_eq_le intro: le_trans [OF length_filter_le])

declare trim_accepted.simps [simp del]

text \<open>The outer loop of \<open>observe\<close>: hand over the contiguous prefix of the pending records.\<close>

lemma length_bt_remove_less: "bt_get m k = Some v \<Longrightarrow> length (bt_remove k m) < length m"
  by (auto simp: bt_remove_def dest!: bt_get_SomeD intro!: length_filter_less)

function drain_pending ::
    "receive_window \<Rightarrow> bytes list \<Rightarrow> receive_window \<times> (noise_error + bytes list)" where
  "drain_pending w contiguous =
     (case bt_get (rw_pending w) (rw_next_sequence w) of
        None \<Rightarrow> (w, Inr contiguous)
      | Some cached \<Rightarrow>
        let w = w\<lparr>rw_pending := bt_remove (rw_next_sequence w) (rw_pending w),
                  rw_bytes := rw_bytes w - cr_byte_cost cached,
                  rw_accepted := bt_insert (rw_next_sequence w) (cr_digest cached) (rw_accepted w)\<rparr> in
        case trim_accepted (rw_accepted w) of
          Inl e \<Rightarrow> (w, Inl e)
        | Inr accepted \<Rightarrow>
          let w = w\<lparr>rw_accepted := accepted\<rparr> in
          case checked_add (rw_next_sequence w) 1 of
            None \<Rightarrow> (w, Inl SequenceExhausted)
          | Some next_sequence \<Rightarrow>
            drain_pending
              (w\<lparr>rw_next_sequence := next_sequence,
                 rw_newly_admitted := saturating_add (rw_newly_admitted w) 1\<rparr>)
              (contiguous @ [cr_bytes cached]))"
  by pat_completeness auto
termination
  by (relation "measure (\<lambda>(w, _). length (rw_pending w))") (auto simp: length_bt_remove_less)

declare drain_pending.simps [simp del]

definition window_observe ::
    "(bytes \<Rightarrow> digest32) \<Rightarrow> receive_window \<Rightarrow> bytes \<Rightarrow> receive_window \<times> (noise_error + receive_disposition)" where
  "window_observe sha w bs =
     (case validate_outer_header bs of
        Inl e \<Rightarrow> (w, Inl e)
      | Inr header \<Rightarrow>
        let byte_cost = oh_ciphertext_len header; sequence = oh_record_sequence header; digest = sha bs in
        if sequence < rw_next_sequence w then
          (case bt_get (rw_accepted w) sequence of
             Some prior \<Rightarrow> if prior = digest then (w, Inr (Disp_Duplicate (window_ack w)))
                           else (w, Inl InvalidFallback)
           | None \<Rightarrow> (w, Inl InvalidFallback))
        else if saturating_sub sequence (rw_next_sequence w) \<ge> of_nat FALLBACK_WINDOW_RECORDS
          then (w, Inl FallbackWindowExceeded)
        else case bt_get (rw_pending w) sequence of
          Some prior \<Rightarrow>
            if cr_digest prior = digest then (w, Inr (Disp_Duplicate (window_ack w)))
            else (w, Inl InvalidFallback)
        | None \<Rightarrow>
            if length (rw_pending w) \<ge> FALLBACK_WINDOW_RECORDS
               \<or> rw_bytes w + byte_cost > FALLBACK_WINDOW_BYTES
            then (w, Inl FallbackWindowExceeded)
            else let w = w\<lparr>rw_bytes := rw_bytes w + byte_cost,
                    rw_pending := bt_insert sequence
                      \<lparr>cr_bytes = bs, cr_byte_cost = byte_cost, cr_digest = digest, cr_tracked = False,
                       cr_retry_index = 0\<rparr> (rw_pending w)\<rparr> in
              if sequence \<noteq> rw_next_sequence w then (w, Inr Disp_Buffered)
              else case drain_pending w [] of
                (w, Inl e) \<Rightarrow> (w, Inl e)
              | (w, Inr contiguous) \<Rightarrow> (w, Inr (Disp_Contiguous contiguous)))"

definition ack_due :: "receive_window \<Rightarrow> u64 \<Rightarrow> bool \<Rightarrow> bool \<Rightarrow> receive_window \<times> cumulative_ack option" where
  "ack_due w now_millis immediate received_ack_only =
     (if received_ack_only \<and> \<not> immediate then (w, None)
      else if immediate \<or> rw_newly_admitted w \<ge> ACK_BATCH
         \<or> saturating_sub now_millis (rw_last_ack_millis w) \<ge> ACK_DEADLINE_MILLIS
      then (let w = w\<lparr>rw_newly_admitted := 0, rw_last_ack_millis := now_millis\<rparr> in (w, Some (window_ack w)))
      else (w, None))"

subsection \<open>The send window\<close>

record send_window =
  sw_bytes :: nat
  sw_records :: "(u64, cached_record) btree"
  sw_next_sequence :: u64
  sw_delivery_ack :: u64
  sw_peer_seen_through :: u64

definition send_window_new :: send_window where
  "send_window_new =
     \<lparr>sw_bytes = 0, sw_records = [], sw_next_sequence = 0, sw_delivery_ack = ACK_NONE,
      sw_peer_seen_through = ACK_NONE\<rparr>"

definition window_insert ::
    "(bytes \<Rightarrow> digest32) \<Rightarrow> send_window \<Rightarrow> u64 \<Rightarrow> bytes \<Rightarrow> bool \<Rightarrow> send_window \<times> (noise_error + unit)" where
  "window_insert sha w sequence ciphertext delivery_tracked =
     (case validate_outer_header ciphertext of
        Inl e \<Rightarrow> (w, Inl e)
      | Inr header \<Rightarrow>
        if oh_record_sequence header \<noteq> sequence then (w, Inl InvalidFallback)
        else let ciphertext_bytes = oh_ciphertext_len header in
          if sequence \<noteq> sw_next_sequence w \<or> bt_get (sw_records w) sequence \<noteq> None
             \<or> length (sw_records w) \<ge> FALLBACK_WINDOW_RECORDS
             \<or> sw_bytes w + ciphertext_bytes > FALLBACK_WINDOW_BYTES
          then (w, Inl FallbackWindowExceeded)
          else let w = w\<lparr>sw_bytes := sw_bytes w + ciphertext_bytes,
                  sw_records := bt_insert sequence
                    \<lparr>cr_bytes = ciphertext, cr_byte_cost = ciphertext_bytes, cr_digest = sha ciphertext,
                     cr_tracked = delivery_tracked, cr_retry_index = 0\<rparr> (sw_records w)\<rparr> in
            case checked_add (sw_next_sequence w) 1 of
              None \<Rightarrow> (w, Inl SequenceExhausted)
            | Some next_sequence \<Rightarrow> (w\<lparr>sw_next_sequence := next_sequence\<rparr>, Inr ()))"

definition window_acknowledge :: "send_window \<Rightarrow> u64 \<Rightarrow> send_window \<times> (noise_error + unit)" where
  "window_acknowledge w largest_contiguous =
     (if largest_contiguous = ACK_NONE then
        (w, if sw_delivery_ack w = ACK_NONE then Inr () else Inl InvalidFallback)
      else if largest_contiguous \<ge> sw_next_sequence w
              \<or> (sw_delivery_ack w \<noteq> ACK_NONE \<and> largest_contiguous < sw_delivery_ack w)
        then (w, Inl InvalidFallback)
      else (w\<lparr>sw_delivery_ack := largest_contiguous,
               sw_records := map (\<lambda>(k, r). (k, if k \<le> largest_contiguous then r\<lparr>cr_tracked := False\<rparr> else r))
                               (sw_records w)\<rparr>, Inr ()))"

definition retransmit_from :: "send_window \<Rightarrow> u64 \<Rightarrow> bytes list" where
  "retransmit_from w next_missing =
     map (\<lambda>e. cr_bytes (snd e)) (filter (\<lambda>e. next_missing \<le> fst e) (sw_records w))"

text \<open>The loop of \<open>retry_due\<close>, with the records it has already updated kept on an early return.\<close>

fun retry_scan ::
    "u64 \<Rightarrow> (u64, cached_record) btree \<Rightarrow> bytes list \<Rightarrow> (u64, cached_record) btree \<times> (noise_error + bytes list)" where
  "retry_scan elapsed_millis [] due = ([], Inr due)"
| "retry_scan elapsed_millis ((k, r) # rest) due =
     (if \<not> cr_tracked r then
        (case retry_scan elapsed_millis rest due of (rest, res) \<Rightarrow> ((k, r) # rest, res))
      else if cr_retry_index r < length RETRY_MILLIS \<and> elapsed_millis \<ge> RETRY_MILLIS ! cr_retry_index r then
        (case retry_scan elapsed_millis rest (due @ [cr_bytes r]) of
           (rest, res) \<Rightarrow> ((k, r\<lparr>cr_retry_index := cr_retry_index r + 1\<rparr>) # rest, res))
      else if cr_retry_index r = length RETRY_MILLIS \<and> elapsed_millis > RETRY_MILLIS ! 2 then
        ((k, r) # rest, Inl FallbackRetryExhausted)
      else (case retry_scan elapsed_millis rest due of (rest, res) \<Rightarrow> ((k, r) # rest, res)))"

definition retry_due :: "send_window \<Rightarrow> u64 \<Rightarrow> send_window \<times> (noise_error + bytes list)" where
  "retry_due w elapsed_millis =
     (case retry_scan elapsed_millis (sw_records w) [] of
        (records, res) \<Rightarrow> (w\<lparr>sw_records := records\<rparr>, res))"

text \<open>The removal loop of \<open>release_peer_seen_through\<close> over the keys up to the watermark.\<close>

fun release_keys :: "u64 list \<Rightarrow> send_window \<Rightarrow> send_window" where
  "release_keys [] w = w"
| "release_keys (key # keys) w =
     (case bt_get (sw_records w) key of
        Some r \<Rightarrow> release_keys keys (w\<lparr>sw_records := bt_remove key (sw_records w),
                    sw_bytes := sw_bytes w - cr_byte_cost r\<rparr>)
      | None \<Rightarrow> release_keys keys w)"

definition release_peer_seen_through :: "send_window \<Rightarrow> u64 \<Rightarrow> send_window \<times> (noise_error + unit)" where
  "release_peer_seen_through w watermark =
     (if watermark = ACK_NONE then
        (w, if sw_peer_seen_through w = ACK_NONE then Inr () else Inl InvalidFallback)
      else if watermark \<ge> sw_next_sequence w
              \<or> (sw_peer_seen_through w \<noteq> ACK_NONE \<and> watermark < sw_peer_seen_through w)
        then (w, Inl InvalidFallback)
      else let keys = filter (\<lambda>k. k \<le> watermark) (map fst (sw_records w)) in
        (release_keys keys (w\<lparr>sw_peer_seen_through := watermark\<rparr>), Inr ()))"

definition send_window_is_empty :: "send_window \<Rightarrow> bool" where
  "send_window_is_empty w = list_all (\<lambda>e. \<not> cr_tracked (snd e)) (sw_records w)"

definition cache_is_empty :: "send_window \<Rightarrow> bool" where
  "cache_is_empty w = (sw_records w = [])"

subsection \<open>Predicates\<close>

definition outer_ok :: "fallback_outer \<Rightarrow> bool" where
  "outer_ok r \<longleftrightarrow> fo_route_generation r \<noteq> 0 \<and> fo_record_sequence r < FALLBACK_SEQUENCE_LIMIT
     \<and> FALLBACK_MIN_CIPHERTEXT \<le> length (fo_ciphertext r) \<and> length (fo_ciphertext r) \<le> FALLBACK_MAX_CIPHERTEXT"

definition wire_sequence :: "bytes \<Rightarrow> u64" where
  "wire_sequence bs = rd64 10 bs"

text \<open>
  What the receive window guarantees of its state. \<open>P\<close> is any property that every observed record has;
  \<open>window_pre\<close> holds inside the delivery loop, \<open>window_inv\<close> between calls.
\<close>

definition cached_ok :: "(bytes \<Rightarrow> digest32) \<Rightarrow> (bytes \<Rightarrow> bool) \<Rightarrow> u64 \<Rightarrow> cached_record \<Rightarrow> bool" where
  "cached_ok sha P k r \<longleftrightarrow>
     (\<exists>h. validate_outer_header (cr_bytes r) = Inr h \<and> oh_record_sequence h = k
        \<and> oh_ciphertext_len h = cr_byte_cost r)
     \<and> cr_digest r = sha (cr_bytes r) \<and> P (cr_bytes r)"

definition window_pre :: "(bytes \<Rightarrow> digest32) \<Rightarrow> (bytes \<Rightarrow> bool) \<Rightarrow> receive_window \<Rightarrow> bool" where
  "window_pre sha P w \<longleftrightarrow>
     bt_wf (rw_pending w)
     \<and> rw_bytes w = bt_total cr_byte_cost (rw_pending w)
     \<and> rw_bytes w \<le> FALLBACK_WINDOW_BYTES
     \<and> length (rw_pending w) \<le> FALLBACK_WINDOW_RECORDS
     \<and> unat (rw_next_sequence w) \<le> 4294967296
     \<and> (\<forall>k r. bt_get (rw_pending w) k = Some r \<longrightarrow>
          unat (rw_next_sequence w) \<le> unat k \<and> unat k < unat (rw_next_sequence w) + FALLBACK_WINDOW_RECORDS
          \<and> cached_ok sha P k r)
     \<and> map (\<lambda>e. unat (fst e)) (rw_accepted w)
         = [unat (rw_next_sequence w) - FALLBACK_WINDOW_RECORDS..<unat (rw_next_sequence w)]
     \<and> (\<forall>e \<in> set (rw_accepted w). \<exists>b. P b \<and> wire_sequence b = fst e \<and> snd e = sha b)"

definition window_inv :: "(bytes \<Rightarrow> digest32) \<Rightarrow> (bytes \<Rightarrow> bool) \<Rightarrow> receive_window \<Rightarrow> bool" where
  "window_inv sha P w \<longleftrightarrow> window_pre sha P w \<and> bt_get (rw_pending w) (rw_next_sequence w) = None"

text \<open>
  What the send window guarantees of its state: it retains exactly the records from the first
  unreleased one up to the next to be sent.
\<close>

definition released_below :: "send_window \<Rightarrow> nat" where
  "released_below w = (if sw_peer_seen_through w = ACK_NONE then 0 else Suc (unat (sw_peer_seen_through w)))"

definition send_inv :: "(bytes \<Rightarrow> digest32) \<Rightarrow> send_window \<Rightarrow> bool" where
  "send_inv sha w \<longleftrightarrow>
     map (\<lambda>e. unat (fst e)) (sw_records w) = [released_below w..<unat (sw_next_sequence w)]
     \<and> released_below w \<le> unat (sw_next_sequence w)
     \<and> sw_bytes w = bt_total cr_byte_cost (sw_records w)
     \<and> sw_bytes w \<le> FALLBACK_WINDOW_BYTES
     \<and> length (sw_records w) \<le> FALLBACK_WINDOW_RECORDS
     \<and> unat (sw_next_sequence w) \<le> 4294967296
     \<and> (sw_delivery_ack w = ACK_NONE \<or> sw_delivery_ack w < sw_next_sequence w)
     \<and> (\<forall>e \<in> set (sw_records w). cached_ok sha (\<lambda>b. True) (fst e) (snd e)
          \<and> cr_retry_index (snd e) \<le> length RETRY_MILLIS
          \<and> (cr_tracked (snd e) \<longrightarrow> sw_delivery_ack w = ACK_NONE \<or> sw_delivery_ack w < fst e))"

datatype send_call =
    Call_Insert u64 bytes bool
  | Call_Acknowledge u64
  | Call_RetryDue u64
  | Call_Release u64

fun send_step :: "(bytes \<Rightarrow> digest32) \<Rightarrow> send_window \<Rightarrow> send_call \<Rightarrow> send_window" where
  "send_step sha w (Call_Insert sequence ciphertext tracked) = fst (window_insert sha w sequence ciphertext tracked)"
| "send_step sha w (Call_Acknowledge largest) = fst (window_acknowledge w largest)"
| "send_step sha w (Call_RetryDue elapsed) = fst (retry_due w elapsed)"
| "send_step sha w (Call_Release watermark) = fst (release_peer_seen_through w watermark)"

text \<open>A sequence of observations, and what they hand over.\<close>

fun handed_over :: "noise_error + receive_disposition \<Rightarrow> bytes list" where
  "handed_over (Inr (Disp_Contiguous bss)) = bss"
| "handed_over _ = []"

fun observe_all ::
    "(bytes \<Rightarrow> digest32) \<Rightarrow> receive_window \<Rightarrow> bytes list \<Rightarrow> receive_window \<times> bytes list" where
  "observe_all sha w [] = (w, [])"
| "observe_all sha w (b # bs) =
     (let (w, res) = window_observe sha w b; (w, rest) = observe_all sha w bs in (w, handed_over res @ rest))"

section \<open>Outer records\<close>

lemma fallback_direction_roundtrip [simp]:
  "fallback_direction_try_from (fallback_direction_u8 d) = Inr d"
  by (cases d) (simp_all add: fallback_direction_try_from_def)

lemma fallback_direction_canonical:
  "fallback_direction_try_from v = Inr d \<Longrightarrow> fallback_direction_u8 d = v"
  by (auto simp: fallback_direction_try_from_def split: if_splits)

lemma outer_encode_ok:
  assumes "outer_ok r"
  shows "outer_encode r = Inr ([1] @ be64 (fo_route_generation r) @ [fallback_direction_u8 (fo_direction r)]
    @ be64 (fo_record_sequence r) @ be64 (fo_peer_seen_through r)
    @ be16 (of_nat (length (fo_ciphertext r))) @ fo_ciphertext r)"
  using assms by (simp add: outer_encode_def outer_ok_def fallback_consts try_from_nat_def not_le)

lemma outer_decode_encode:
  assumes "outer_ok r" and "outer_encode r = Inr bs"
  shows "outer_decode bs = Inr r"
proof -
  have len: "30 \<le> length (fo_ciphertext r)" "length (fo_ciphertext r) \<le> 65535"
    using assms(1) by (simp_all add: outer_ok_def fallback_consts)
  then have u: "unat (of_nat (length (fo_ciphertext r)) :: u16) = length (fo_ciphertext r)"
    by (intro unat_of_nat_small) simp
  have bs: "bs = [1] @ be64 (fo_route_generation r) @ [fallback_direction_u8 (fo_direction r)]
      @ be64 (fo_record_sequence r) @ be64 (fo_peer_seen_through r)
      @ be16 (of_nat (length (fo_ciphertext r))) @ fo_ciphertext r"
    using assms by (simp add: outer_encode_ok)
  show ?thesis
    using len u assms(1)
    by (simp add: bs outer_decode_def validate_outer_header_def fallback_consts be_simps nth_append
        outer_ok_def not_le Let_def)
qed

lemma outer_encode_decode:
  assumes "outer_decode bs = Inr r"
  shows "outer_ok r \<and> outer_encode r = Inr bs"
proof -
  have len: "28 \<le> length bs" "length bs = 28 + unat (rd16 26 bs)" "30 \<le> unat (rd16 26 bs)"
      "unat (rd16 26 bs) \<le> 65535"
    and hd: "bs ! 0 = 1" "fallback_direction_u8 (fo_direction r) = bs ! 9"
    and r: "fo_route_generation r = rd64 1 bs" "fo_record_sequence r = rd64 10 bs"
      "fo_peer_seen_through r = rd64 18 bs" "fo_ciphertext r = drop 28 bs"
      "rd64 1 bs \<noteq> 0" "rd64 10 bs < FALLBACK_SEQUENCE_LIMIT"
    using assms fallback_direction_canonical [of "bs ! 9"]
    by (auto simp: outer_decode_def validate_outer_header_def fallback_consts Let_def result_simps
        not_le split: if_splits)
  have "bs = [bs ! 0] @ be64 (rd64 1 bs) @ [bs ! 9] @ be64 (rd64 10 bs) @ be64 (rd64 18 bs)
      @ be16 (rd16 26 bs) @ drop 28 bs"
    using fields_eq [of 0 "[1, 8, 1, 8, 8, 2]" bs] len(1)
    by (simp add: bslice_one be_simps del: One_nat_def)
  moreover have "of_nat (length (drop 28 bs)) = rd16 26 bs"
    using len by simp
  moreover have ok: "outer_ok r"
    using len r by (simp add: outer_ok_def fallback_consts)
  ultimately show ?thesis
    using outer_encode_ok [OF ok] hd r by simp
qed

interpretation outer_codec: wire_codec outer_encode outer_decode outer_ok
  by unfold_locales
    (auto simp: outer_encode_ok intro: outer_decode_encode dest: outer_encode_decode)

interpretation ack_codec: wire_codec "\<lambda>a. Inr (ack_encode a)" ack_decode "\<lambda>a. True"
proof unfold_locales
  fix a :: cumulative_ack and bs
  show "Inr (ack_encode a) = Inr bs \<Longrightarrow> ack_decode bs = Inr a"
    by (auto simp: ack_encode_def ack_decode_def ACK_WIRE_LEN_def be_simps)
  show "Inr (ack_encode a) = Inr bs" if "ack_decode bs = Inr a"
  proof -
    have len: "length bs = 9" "bs ! 0 = 1"
      using that by (auto simp: ack_decode_def ACK_WIRE_LEN_def split: if_splits)
    have "bs = [bs ! 0] @ be64 (rd64 1 bs)"
      using fields_eq [of 0 "[1, 8]" bs] len by (simp add: bslice_one be_simps del: One_nat_def)
    with that len show ?thesis
      by (auto simp: ack_encode_def ack_decode_def ACK_WIRE_LEN_def split: if_splits)
  qed
qed simp_all

lemma validate_outer_header_bounds:
  assumes "validate_outer_header bs = Inr h"
  shows "unat (oh_record_sequence h) < 4294967296" and "oh_ciphertext_len h \<le> 65535"
  using assms
  by (auto simp: validate_outer_header_def FALLBACK_SEQUENCE_LIMIT_def fallback_consts Let_def
      result_simps word_le_nat_alt word_less_nat_alt not_le unat_numeral split: if_splits)

lemma validate_outer_header_sequence: "validate_outer_header bs = Inr h \<Longrightarrow> oh_record_sequence h = wire_sequence bs"
  by (auto simp: validate_outer_header_def wire_sequence_def Let_def result_simps split: if_splits)

section \<open>The receive window\<close>

lemma bt_remove_head: "bt_wf (e # m) \<Longrightarrow> bt_remove (fst e) (e # m) = m"
  by (auto simp: bt_wf_Cons bt_remove_def filter_id_conv)

lemma trim_accepted_drop: "bt_wf m \<Longrightarrow> trim_accepted m = Inr (drop (length m - FALLBACK_WINDOW_RECORDS) m)"
proof (induction m)
  case Nil
  then show ?case by (simp add: trim_accepted.simps)
next
  case (Cons e m)
  then show ?case
    by (subst trim_accepted.simps)
      (auto simp: bt_remove_head bt_wf_Cons Suc_diff_le less_Suc_eq_le)
qed

lemma bt_insert_last: "\<forall>e \<in> set m. fst e < k \<Longrightarrow> bt_insert k v m = m @ [(k, v)]"
  by (induction m) auto

lemma bt_wf_of_upt: "map (\<lambda>e. unat (fst e)) m = [a..<b] \<Longrightarrow> bt_wf (m :: (u64, 'v) btree)"
proof -
  assume "map (\<lambda>e. unat (fst e)) m = [a..<b]"
  then have "sorted_wrt (<) (map (\<lambda>e. unat (fst e)) m)" by simp
  then show ?thesis
    by (simp add: bt_wf_def sorted_wrt_map word_less_nat_alt)
qed

lemma map_upt_bounds: "map f m = [a..<b] \<Longrightarrow> e \<in> set m \<Longrightarrow> a \<le> f e \<and> f e < b"
  by (metis atLeastLessThan_iff image_eqI set_map set_upt)

text \<open>Accepting the next sequence number slides the digest window by one.\<close>

lemma accepted_slide:
  fixes k :: u64
  assumes "map (\<lambda>e. unat (fst e)) m = [unat k - FALLBACK_WINDOW_RECORDS..<unat k]"
  shows "\<exists>m'. trim_accepted (bt_insert k v m) = Inr m' \<and> set m' \<subseteq> insert (k, v) (set m)
    \<and> map (\<lambda>e. unat (fst e)) m' = [Suc (unat k) - FALLBACK_WINDOW_RECORDS..<Suc (unat k)]"
proof -
  have "\<forall>e \<in> set m. fst e < k"
    using map_upt_bounds [OF assms] by (simp add: word_less_nat_alt)
  then have ins: "bt_insert k v m = m @ [(k, v)]" by (rule bt_insert_last)
  have keys: "map (\<lambda>e. unat (fst e)) (m @ [(k, v)]) = [unat k - FALLBACK_WINDOW_RECORDS..<Suc (unat k)]"
    using assms by simp
  have len: "length m = unat k - (unat k - FALLBACK_WINDOW_RECORDS)"
    using assms by (metis length_map length_upt)
  have start: "unat k - FALLBACK_WINDOW_RECORDS + (Suc (length m) - FALLBACK_WINDOW_RECORDS)
      = Suc (unat k) - FALLBACK_WINDOW_RECORDS"
    unfolding len fallback_consts by arith
  have "trim_accepted (m @ [(k, v)])
      = Inr (drop (length (m @ [(k, v)]) - FALLBACK_WINDOW_RECORDS) (m @ [(k, v)]))"
    by (rule trim_accepted_drop) (rule bt_wf_of_upt [OF keys])
  moreover have "map (\<lambda>e. unat (fst e)) (drop (length (m @ [(k, v)]) - FALLBACK_WINDOW_RECORDS) (m @ [(k, v)]))
      = [Suc (unat k) - FALLBACK_WINDOW_RECORDS..<Suc (unat k)]"
    unfolding drop_map [symmetric] keys drop_upt by (simp add: start del: upt_Suc)
  ultimately show ?thesis
    using set_drop_subset [of _ "m @ [(k, v)]"] by (fastforce simp: ins)
qed

lemma drain_pending_ok:
  assumes "window_pre sha P w"
  shows "\<exists>w' ds. drain_pending w acc = (w', Inr (acc @ ds)) \<and> window_inv sha P w'
    \<and> map (\<lambda>b. unat (wire_sequence b)) ds = [unat (rw_next_sequence w)..<unat (rw_next_sequence w')]
    \<and> rw_next_sequence w \<le> rw_next_sequence w' \<and> list_all P ds
    \<and> (\<forall>k. rw_next_sequence w' \<le> k \<longrightarrow> bt_get (rw_pending w') k = bt_get (rw_pending w) k)"
  using assms
proof (induction "length (rw_pending w)" arbitrary: w acc rule: less_induct)
  case less
  let ?n = "rw_next_sequence w"
  show ?case
  proof (cases "bt_get (rw_pending w) ?n")
    case None
    then show ?thesis
      using less.prems by (simp add: drain_pending.simps [of w acc] window_inv_def)
  next
    case (Some cached)
    note pre = less.prems [unfolded window_pre_def]
    have cok: "cached_ok sha P ?n cached"
      using pre Some by blast
    obtain h where h: "validate_outer_header (cr_bytes cached) = Inr h" "oh_record_sequence h = ?n"
      using cok by (auto simp: cached_ok_def)
    have seq: "wire_sequence (cr_bytes cached) = ?n"
      using h validate_outer_header_sequence by metis
    have small: "unat ?n < 4294967296"
      using validate_outer_header_bounds(1) [OF h(1)] h(2) by simp
    then have succ: "unat (?n + 1) = Suc (unat ?n)" "checked_add ?n 1 = Some (?n + 1)"
      by (simp_all add: unat_add_no_wrap checked_add_def)
    obtain acc' where trim: "trim_accepted (bt_insert ?n (cr_digest cached) (rw_accepted w)) = Inr acc'"
        "set acc' \<subseteq> insert (?n, cr_digest cached) (set (rw_accepted w))"
        "map (\<lambda>e. unat (fst e)) acc' = [Suc (unat ?n) - FALLBACK_WINDOW_RECORDS..<Suc (unat ?n)]"
      using accepted_slide [of "rw_accepted w" ?n "cr_digest cached"] pre by blast
    define w1 where "w1 = w\<lparr>rw_pending := bt_remove ?n (rw_pending w),
      rw_bytes := rw_bytes w - cr_byte_cost cached, rw_accepted := acc',
      rw_next_sequence := ?n + 1, rw_newly_admitted := saturating_add (rw_newly_admitted w) 1\<rparr>"
    have step: "drain_pending w acc = drain_pending w1 (acc @ [cr_bytes cached])"
      using Some trim(1) succ(2)
      by (subst drain_pending.simps) (simp add: Let_def w1_def)
    have "window_pre sha P w1"
    proof -
      have "rw_bytes w - cr_byte_cost cached = bt_total cr_byte_cost (bt_remove ?n (rw_pending w))"
          "bt_total cr_byte_cost (bt_remove ?n (rw_pending w)) \<le> FALLBACK_WINDOW_BYTES"
        using bt.total_remove_old [of "rw_pending w" ?n cached cr_byte_cost] pre Some by simp_all
      moreover have "length (bt_remove ?n (rw_pending w)) \<le> FALLBACK_WINDOW_RECORDS"
        using bt.len_remove_old [of "rw_pending w" ?n cached] pre Some by simp
      moreover have "unat ?n + 1 \<le> unat k \<and> unat k < unat ?n + 1 + FALLBACK_WINDOW_RECORDS \<and> cached_ok sha P k r"
        if "bt_get (bt_remove ?n (rw_pending w)) k = Some r" for k r
      proof -
        have "k \<noteq> ?n" and "bt_get (rw_pending w) k = Some r"
          using that by (simp_all split: if_splits)
        moreover from this have "unat ?n \<le> unat k" "unat k < unat ?n + FALLBACK_WINDOW_RECORDS"
            "cached_ok sha P k r"
          using pre by blast+
        ultimately show ?thesis
          by (simp add: word_unat_eq_iff)
      qed
      moreover have "\<exists>b. P b \<and> wire_sequence b = fst e \<and> snd e = sha b" if "e \<in> set acc'" for e
      proof -
        from that trim(2) consider "e = (?n, cr_digest cached)" | "e \<in> set (rw_accepted w)" by blast
        then show ?thesis
          using cok seq pre by cases (auto simp: cached_ok_def)
      qed
      ultimately show ?thesis
        using pre small trim(3) succ(1)
        by (simp add: window_pre_def w1_def del: upt_Suc bt_get_remove)
    qed
    moreover have "length (rw_pending w1) < length (rw_pending w)"
      using length_bt_remove_less [OF Some] by (simp add: w1_def)
    ultimately obtain w' ds where ih:
        "drain_pending w1 (acc @ [cr_bytes cached]) = (w', Inr ((acc @ [cr_bytes cached]) @ ds))"
        "window_inv sha P w'"
        "map (\<lambda>b. unat (wire_sequence b)) ds = [unat (rw_next_sequence w1)..<unat (rw_next_sequence w')]"
        "rw_next_sequence w1 \<le> rw_next_sequence w'" "list_all P ds"
        "\<forall>k. rw_next_sequence w' \<le> k \<longrightarrow> bt_get (rw_pending w') k = bt_get (rw_pending w1) k"
      using less.hyps [of w1] by blast
    have n1: "unat (rw_next_sequence w1) = Suc (unat ?n)"
      using succ by (simp add: w1_def)
    then have le: "unat ?n < unat (rw_next_sequence w')"
      using ih(4) by (simp add: word_le_nat_alt)
    have "map (\<lambda>b. unat (wire_sequence b)) (cr_bytes cached # ds) = [unat ?n..<unat (rw_next_sequence w')]"
      using ih(3) n1 le seq by (simp add: upt_conv_Cons)
    moreover have "bt_get (rw_pending w') k = bt_get (rw_pending w) k" if "rw_next_sequence w' \<le> k" for k
      using ih(6) that le by (auto simp: w1_def word_le_nat_alt)
    moreover have "P (cr_bytes cached)"
      using cok by (simp add: cached_ok_def)
    ultimately show ?thesis
      using ih(1, 2, 5) le
      by (intro exI [of _ w'] exI [of _ "cr_bytes cached # ds"]) (simp add: step word_le_nat_alt)
  qed
qed

text \<open>A record that passes every check of \<open>observe\<close> is inserted, which keeps the loop invariant.\<close>

definition insert_pending :: "(bytes \<Rightarrow> digest32) \<Rightarrow> receive_window \<Rightarrow> outer_header \<Rightarrow> bytes \<Rightarrow> receive_window" where
  "insert_pending sha w header bs =
     w\<lparr>rw_bytes := rw_bytes w + oh_ciphertext_len header,
       rw_pending := bt_insert (oh_record_sequence header)
         \<lparr>cr_bytes = bs, cr_byte_cost = oh_ciphertext_len header, cr_digest = sha bs, cr_tracked = False,
          cr_retry_index = 0\<rparr> (rw_pending w)\<rparr>"

definition admissible_record :: "receive_window \<Rightarrow> outer_header \<Rightarrow> bool" where
  "admissible_record w header \<longleftrightarrow>
     rw_next_sequence w \<le> oh_record_sequence header
     \<and> unat (oh_record_sequence header) < unat (rw_next_sequence w) + FALLBACK_WINDOW_RECORDS
     \<and> bt_get (rw_pending w) (oh_record_sequence header) = None
     \<and> length (rw_pending w) < FALLBACK_WINDOW_RECORDS
     \<and> rw_bytes w + oh_ciphertext_len header \<le> FALLBACK_WINDOW_BYTES"

lemma window_distance:
  assumes "n \<le> (k :: u64)"
  shows "saturating_sub k n \<ge> of_nat FALLBACK_WINDOW_RECORDS \<longleftrightarrow> unat n + FALLBACK_WINDOW_RECORDS \<le> unat k"
  using assms by (auto simp: word_le_nat_alt arith_simps fallback_consts)

lemma window_observe_admissible:
  assumes "validate_outer_header bs = Inr h" and "admissible_record w h"
  shows "window_observe sha w bs =
    (if oh_record_sequence h \<noteq> rw_next_sequence w then (insert_pending sha w h bs, Inr Disp_Buffered)
     else case drain_pending (insert_pending sha w h bs) [] of
       (w, Inl e) \<Rightarrow> (w, Inl e) | (w, Inr cs) \<Rightarrow> (w, Inr (Disp_Contiguous cs)))"
  using assms
  by (auto simp: window_observe_def admissible_record_def window_distance Let_def insert_pending_def)

lemma window_observe_cases:
  assumes "window_observe sha w bs = (w', res)"
  obtains
    (unchanged) "w' = w" "res \<noteq> Inr Disp_Buffered" "\<And>ds. res \<noteq> Inr (Disp_Contiguous ds)"
  | (buffered) header where "validate_outer_header bs = Inr header" "admissible_record w header"
      "oh_record_sequence header \<noteq> rw_next_sequence w"
      "w' = insert_pending sha w header bs" "res = Inr Disp_Buffered"
  | (drained) header r where "validate_outer_header bs = Inr header" "admissible_record w header"
      "oh_record_sequence header = rw_next_sequence w"
      "drain_pending (insert_pending sha w header bs) [] = (w', r)"
      "res = (case r of Inl e \<Rightarrow> Inl e | Inr cs \<Rightarrow> Inr (Disp_Contiguous cs))"
proof (cases "validate_outer_header bs")
  case (Inl e)
  then show ?thesis using assms unchanged by (auto simp: window_observe_def)
next
  case (Inr h)
  show ?thesis
  proof (cases "admissible_record w h")
    case True
    then show ?thesis
      using assms Inr buffered drained window_observe_admissible [OF Inr True, of sha]
      by (auto split: if_splits prod.splits sum.splits)
  next
    case False
    then show ?thesis
      using assms Inr unchanged
      by (auto simp: window_observe_def admissible_record_def window_distance Let_def not_le not_less
          split: if_splits option.splits prod.splits)
  qed
qed

lemma window_pre_insert:
  assumes "window_inv sha P w" and "validate_outer_header bs = Inr h" and "admissible_record w h" and "P bs"
  shows "window_pre sha P (insert_pending sha w h bs)"
  using assms bt.total_insert_new [of "rw_pending w" "oh_record_sequence h"]
    bt.len_insert_new [of "rw_pending w" "oh_record_sequence h"]
  by (auto simp: window_inv_def window_pre_def insert_pending_def admissible_record_def cached_ok_def
      word_le_nat_alt)

lemma window_observe_ok:
  assumes "window_inv sha P w" and "P bs" and "window_observe sha w bs = (w', res)"
  shows "window_inv sha P w'
    \<and> map (\<lambda>b. unat (wire_sequence b)) (handed_over res) = [unat (rw_next_sequence w)..<unat (rw_next_sequence w')]
    \<and> rw_next_sequence w \<le> rw_next_sequence w' \<and> list_all P (handed_over res)"
  using assms(3)
proof (cases rule: window_observe_cases)
  case unchanged
  then have "handed_over res = []" by (cases res rule: handed_over.cases) auto
  with unchanged assms(1) show ?thesis by simp
next
  case (buffered h)
  have "window_pre sha P w'"
    using window_pre_insert [OF assms(1) buffered(1,2) assms(2)] buffered(4) by simp
  then show ?thesis
    using assms(1) buffered by (simp add: window_inv_def insert_pending_def)
next
  case (drained h r)
  have "window_pre sha P (insert_pending sha w h bs)"
    using window_pre_insert [OF assms(1) drained(1,2) assms(2)] .
  from drain_pending_ok [OF this, of "[]"] obtain ds where "r = Inr ds" "window_inv sha P w'"
      "map (\<lambda>b. unat (wire_sequence b)) ds
        = [unat (rw_next_sequence (insert_pending sha w h bs))..<unat (rw_next_sequence w')]"
      "rw_next_sequence (insert_pending sha w h bs) \<le> rw_next_sequence w'" "list_all P ds"
    using drained(4) by auto
  then show ?thesis
    using drained(5) by (simp add: insert_pending_def)
qed

lemma window_inv_new: "window_inv sha P (receive_window_new t)"
  by (simp add: window_inv_def window_pre_def receive_window_new_def bt.total_empty)

lemma observe_all_ok:
  assumes "window_inv sha P w" and "list_all P bs" and "observe_all sha w bs = (w', ds)"
  shows "window_inv sha P w'
    \<and> map (\<lambda>b. unat (wire_sequence b)) ds = [unat (rw_next_sequence w)..<unat (rw_next_sequence w')]
    \<and> rw_next_sequence w \<le> rw_next_sequence w' \<and> list_all P ds"
  using assms
proof (induction bs arbitrary: w ds)
  case Nil
  then show ?case by simp
next
  case (Cons b bs)
  obtain w1 res where o1: "window_observe sha w b = (w1, res)" by fastforce
  obtain rest where o2: "observe_all sha w1 bs = (w', rest)" and ds: "ds = handed_over res @ rest"
    using Cons.prems(3) o1 by (auto simp: Let_def split: prod.splits)
  have "P b" "list_all P bs" using Cons.prems(2) by simp_all
  note one = window_observe_ok [OF Cons.prems(1) this(1) o1]
  note rest = Cons.IH [OF _ \<open>list_all P bs\<close> o2]
  have "[unat (rw_next_sequence w)..<unat (rw_next_sequence w1)] @ [unat (rw_next_sequence w1)..<unat (rw_next_sequence w')]
      = [unat (rw_next_sequence w)..<unat (rw_next_sequence w')]"
    using one rest by (intro upt_join) (simp_all add: word_le_nat_alt)
  then show ?case
    using one rest ds by auto
qed

section \<open>The send window\<close>

lemma release_keys_ok:
  assumes "bt_wf (sw_records w)" and "sw_bytes w = bt_total cr_byte_cost (sw_records w)"
  shows "release_keys ks w =
    w\<lparr>sw_records := filter (\<lambda>e. fst e \<notin> set ks) (sw_records w),
      sw_bytes := bt_total cr_byte_cost (filter (\<lambda>e. fst e \<notin> set ks) (sw_records w))\<rparr>"
  using assms
proof (induction ks arbitrary: w)
  case Nil
  then show ?case by simp
next
  case (Cons k ks)
  have rm: "filter (\<lambda>e. fst e \<notin> set ks) (bt_remove k (sw_records w))
      = filter (\<lambda>e. fst e \<notin> set (k # ks)) (sw_records w)"
    unfolding bt_remove_def filter_filter by (rule filter_cong) auto
  show ?case
  proof (cases "bt_get (sw_records w) k")
    case None
    then show ?thesis
      using Cons.IH [OF Cons.prems] rm by (simp add: bt_remove_absent)
  next
    case (Some r)
    let ?w = "w\<lparr>sw_records := bt_remove k (sw_records w), sw_bytes := sw_bytes w - cr_byte_cost r\<rparr>"
    have "sw_bytes w - cr_byte_cost r = bt_total cr_byte_cost (bt_remove k (sw_records w))"
      using bt_total_remove [OF Cons.prems(1) Some, of cr_byte_cost] Cons.prems(2) by simp
    then show ?thesis
      using Cons.IH [of ?w] Cons.prems(1) Some rm by simp
  qed
qed

text \<open>A retry scan moves only retry counters.\<close>

definition same_but_retry :: "u64 \<times> cached_record \<Rightarrow> u64 \<times> cached_record \<Rightarrow> bool" where
  "same_but_retry a b \<longleftrightarrow> fst b = fst a \<and> (\<exists>i. snd b = snd a\<lparr>cr_retry_index := i\<rparr>
     \<and> cr_retry_index (snd a) \<le> i \<and> (cr_retry_index (snd a) \<le> length RETRY_MILLIS \<longrightarrow> i \<le> length RETRY_MILLIS))"

lemma same_but_retry_refl: "same_but_retry a a"
  by (auto simp: same_but_retry_def intro!: exI [of _ "cr_retry_index (snd a)"])

lemma retry_scan_same: "list_all2 same_but_retry m (fst (retry_scan elapsed m due))"
proof (induction elapsed m due rule: retry_scan.induct)
  case (1 elapsed due)
  then show ?case by simp
next
  case (2 elapsed k r rest due)
  have "list_all2 same_but_retry rest rest"
    by (simp add: list_all2_refl same_but_retry_refl)
  moreover have "same_but_retry (k, r) (k, r)"
    by (rule same_but_retry_refl)
  moreover have "cr_retry_index r < length RETRY_MILLIS \<Longrightarrow>
      same_but_retry (k, r) (k, r\<lparr>cr_retry_index := Suc (cr_retry_index r)\<rparr>)"
    by (auto simp: same_but_retry_def intro!: exI [of _ "Suc (cr_retry_index r)"])
  ultimately show ?case
    using 2 by (auto split: prod.splits)
qed

lemma send_inv_wf: "send_inv sha w \<Longrightarrow> bt_wf (sw_records w)"
  by (auto simp: send_inv_def dest: bt_wf_of_upt)

lemma send_inv_get:
  assumes "send_inv sha w" and "released_below w \<le> unat k" and "k < sw_next_sequence w"
  shows "\<exists>r. bt_get (sw_records w) k = Some r"
proof -
  have "unat k \<in> set (map (\<lambda>e. unat (fst e)) (sw_records w))"
    using assms by (simp add: send_inv_def word_less_nat_alt del: set_map)
  then have "k \<in> fst ` set (sw_records w)"
    by (auto simp: word_unat_eq_iff [symmetric] image_iff)
  then show ?thesis
    using bt_get_None_iff by fastforce
qed

lemma send_inv_new: "send_inv sha send_window_new"
  by (simp add: send_inv_def send_window_new_def released_below_def bt.total_empty)

lemma send_inv_insert:
  assumes "send_inv sha w"
  shows "send_inv sha (fst (window_insert sha w sequence ciphertext tracked))"
proof (cases "snd (window_insert sha w sequence ciphertext tracked)")
  case (Inl e)
  have "unat (sw_next_sequence w) \<le> 4294967296"
    using assms by (simp add: send_inv_def)
  then have "fst (window_insert sha w sequence ciphertext tracked) = w"
    using Inl
    by (auto simp: window_insert_def Let_def arith_simps split: sum.splits if_splits option.splits)
  then show ?thesis using assms by simp
next
  case (Inr u)
  then obtain h where h: "validate_outer_header ciphertext = Inr h" "oh_record_sequence h = sw_next_sequence w"
      and b: "length (sw_records w) < FALLBACK_WINDOW_RECORDS"
        "sw_bytes w + oh_ciphertext_len h \<le> FALLBACK_WINDOW_BYTES"
      and w': "fst (window_insert sha w sequence ciphertext tracked) =
        w\<lparr>sw_bytes := sw_bytes w + oh_ciphertext_len h, sw_records := bt_insert (sw_next_sequence w)
            \<lparr>cr_bytes = ciphertext, cr_byte_cost = oh_ciphertext_len h, cr_digest = sha ciphertext,
             cr_tracked = tracked, cr_retry_index = 0\<rparr> (sw_records w),
          sw_next_sequence := sw_next_sequence w + 1\<rparr>"
    by (auto simp: window_insert_def Let_def checked_add_def split: sum.splits if_splits option.splits)
  have small: "unat (sw_next_sequence w) < 4294967296"
    using validate_outer_header_bounds(1) [OF h(1)] h(2) by simp
  then have succ: "unat (sw_next_sequence w + 1) = Suc (unat (sw_next_sequence w))"
    by (simp add: unat_add_no_wrap)
  have "\<forall>e \<in> set (sw_records w). fst e < sw_next_sequence w"
    using map_upt_bounds [OF assms [unfolded send_inv_def, THEN conjunct1]] by (simp add: word_less_nat_alt)
  then have ins: "bt_insert (sw_next_sequence w) v (sw_records w) = sw_records w @ [(sw_next_sequence w, v)]" for v
    by (rule bt_insert_last)
  show ?thesis
    using assms small succ b h
    by (auto simp: w' ins send_inv_def released_below_def bt_total_def cached_ok_def word_less_nat_alt)
qed

lemma send_inv_acknowledge:
  assumes "send_inv sha w"
  shows "send_inv sha (fst (window_acknowledge w n))"
proof -
  let ?f = "\<lambda>(k, r). (k, if k \<le> n then r\<lparr>cr_tracked := False\<rparr> else r)"
  have keys: "map (\<lambda>e. unat (fst e)) (map ?f m) = map (\<lambda>e. unat (fst e)) m" for m
    by (induction m) auto
  have tot: "bt_total cr_byte_cost (map ?f m) = bt_total cr_byte_cost m" for m :: "(u64, cached_record) btree"
    by (induction m) (auto simp: bt_total_def)
  show ?thesis
    using assms
    by (auto simp: window_acknowledge_def send_inv_def keys tot released_below_def cached_ok_def not_le
        simp del: map_map split: prod.splits)
qed

lemma send_inv_retry:
  assumes "send_inv sha w"
  shows "send_inv sha (fst (retry_due w elapsed))"
proof -
  obtain m res where scan: "retry_scan elapsed (sw_records w) [] = (m, res)" by fastforce
  have same: "list_all2 same_but_retry (sw_records w) m"
    using retry_scan_same [of "sw_records w" elapsed "[]"] scan by simp
  then have "map (\<lambda>e. unat (fst e)) m = map (\<lambda>e. unat (fst e)) (sw_records w)"
      "bt_total cr_byte_cost m = bt_total cr_byte_cost (sw_records w)" "length m = length (sw_records w)"
    by (induction rule: list_all2_induct) (auto simp: same_but_retry_def bt_total_def)
  moreover have "\<exists>a \<in> set (sw_records w). same_but_retry a e" if "e \<in> set m" for e
    using same that by (metis list_all2_conv_all_nth in_set_conv_nth)
  ultimately show ?thesis
    using assms
    by (fastforce simp: retry_due_def scan send_inv_def released_below_def same_but_retry_def cached_ok_def)
qed

lemma filter_above_upt:
  assumes "map f m = [a..<b]"
  shows "map f (filter (\<lambda>e. c \<le> f e) m) = [max a c..<b]"
proof -
  have "map f (filter (\<lambda>e. c \<le> f e) m) = filter ((\<le>) c) (map f m)"
    by (simp add: filter_map o_def)
  also have "\<dots> = [max a c..<b]"
    unfolding assms by (induction b) auto
  finally show ?thesis .
qed

lemma send_inv_release:
  assumes "send_inv sha w"
  shows "send_inv sha (fst (release_peer_seen_through w n))"
proof (cases "n = ACK_NONE \<or> n \<ge> sw_next_sequence w \<or> (sw_peer_seen_through w \<noteq> ACK_NONE \<and> n < sw_peer_seen_through w)")
  case True
  then show ?thesis using assms by (auto simp: release_peer_seen_through_def)
next
  case False
  let ?keep = "filter (\<lambda>e. Suc (unat n) \<le> unat (fst e)) (sw_records w)"
  let ?ks = "filter (\<lambda>k. k \<le> n) (map fst (sw_records w))"
  let ?w = "w\<lparr>sw_peer_seen_through := n\<rparr>"
  have eq: "filter (\<lambda>e. fst e \<notin> set ?ks) (sw_records w) = ?keep"
    by (rule filter_cong) (auto simp: word_le_nat_alt)
  have same: "sw_records ?w = sw_records w" by simp
  have "release_keys ?ks ?w = ?w\<lparr>sw_records := filter (\<lambda>e. fst e \<notin> set ?ks) (sw_records ?w),
      sw_bytes := bt_total cr_byte_cost (filter (\<lambda>e. fst e \<notin> set ?ks) (sw_records ?w))\<rparr>"
    by (rule release_keys_ok) (use assms send_inv_wf [OF assms] in \<open>simp_all add: send_inv_def\<close>)
  then have "release_keys ?ks ?w = ?w\<lparr>sw_records := ?keep, sw_bytes := bt_total cr_byte_cost ?keep\<rparr>"
    by (simp only: eq same)
  then have w': "fst (release_peer_seen_through w n) =
      ?w\<lparr>sw_records := ?keep, sw_bytes := bt_total cr_byte_cost ?keep\<rparr>"
    using False by (auto simp: release_peer_seen_through_def Let_def)
  have "released_below w \<le> Suc (unat n)"
    using False by (auto simp: released_below_def word_less_nat_alt)
  then have "map (\<lambda>e. unat (fst e)) ?keep = [Suc (unat n)..<unat (sw_next_sequence w)]"
    using filter_above_upt [of "\<lambda>e. unat (fst e)" "sw_records w"] assms by (simp add: send_inv_def max_def)
  moreover have "bt_total cr_byte_cost ?keep \<le> bt_total cr_byte_cost (sw_records w)"
    unfolding bt_total_def by (induction "sw_records w") (auto simp: sum_list_filter_le_nat)
  moreover have "length ?keep \<le> length (sw_records w)" by simp
  moreover have "unat n < unat (sw_next_sequence w)"
    using False by (simp add: not_le word_less_nat_alt)
  ultimately show ?thesis
    using assms False
    by (auto simp: w' send_inv_def released_below_def word_less_nat_alt Suc_le_eq
        intro: order_trans [OF length_filter_le])
qed

interpretation send: guarded_machine "send_step sha" "\<lambda>c. True" "send_inv sha" for sha
proof unfold_locales
  fix s e assume "send_inv sha s"
  then show "send_inv sha (send_step sha s e)"
    by (cases e) (simp_all add: send_inv_insert send_inv_acknowledge send_inv_retry send_inv_release)
qed

section \<open>Recovery of a gap\<close>

lemma bt_total_mono:
  assumes "bt_wf m" and "bt_wf m'"
    and "\<And>k v. bt_get m k = Some v \<Longrightarrow> \<exists>v'. bt_get m' k = Some v' \<and> f v = f v'"
  shows "bt_total f m \<le> bt_total f m'"
  using assms
proof (induction m arbitrary: m')
  case Nil
  then show ?case by (simp add: bt_total_def)
next
  case (Cons e m)
  obtain k v where e: "e = (k, v)" by fastforce
  have wf: "bt_wf m" and fresh: "k \<notin> fst ` set m"
    using Cons.prems(1) by (auto simp: e bt_wf_Cons)
  obtain v' where v': "bt_get m' k = Some v'" "f v = f v'"
    using Cons.prems(3) [of k v] by (auto simp: e bt_get_def)
  have "bt_total f m \<le> bt_total f (bt_remove k m')"
  proof (rule Cons.IH [OF wf])
    fix j u assume j: "bt_get m j = Some u"
    then have "j \<noteq> k" using fresh bt_get_None_iff [of m k] by auto
    with j have "bt_get (e # m) j = Some u" by (simp add: bt_get_def e)
    from Cons.prems(3) [OF this] \<open>j \<noteq> k\<close> show "\<exists>u'. bt_get (bt_remove k m') j = Some u' \<and> f u = f u'"
      by simp
  qed (use Cons.prems(2) in simp)
  moreover have "f v' + bt_total f (bt_remove k m') = bt_total f m'"
    by (rule bt_total_remove [OF Cons.prems(2) v'(1)])
  ultimately show ?case
    using v'(2) by (simp add: bt_total_def e)
qed

lemma pending_below_window:
  assumes "window_inv sha P w"
  shows "length (rw_pending w) < FALLBACK_WINDOW_RECORDS"
proof -
  let ?n = "unat (rw_next_sequence w)"
  have wf: "bt_wf (rw_pending w)" using assms by (simp add: window_inv_def window_pre_def)
  have "unat ` fst ` set (rw_pending w) \<subseteq> {?n<..<?n + FALLBACK_WINDOW_RECORDS}"
  proof -
    have "?n < unat k \<and> unat k < ?n + FALLBACK_WINDOW_RECORDS" if "(k, r) \<in> set (rw_pending w)" for k r
    proof -
      have get: "bt_get (rw_pending w) k = Some r"
        using that wf by (simp add: bt_get_eq_Some_iff)
      then have "k \<noteq> rw_next_sequence w" "?n \<le> unat k" "unat k < ?n + FALLBACK_WINDOW_RECORDS"
        using assms by (auto simp: window_inv_def window_pre_def)
      then show ?thesis by (auto simp: word_unat_eq_iff)
    qed
    then show ?thesis by auto
  qed
  from card_mono [OF _ this] have "card (unat ` fst ` set (rw_pending w)) \<le> FALLBACK_WINDOW_RECORDS - 1"
    by simp
  moreover have "card (unat ` fst ` set (rw_pending w)) = length (rw_pending w)"
    using distinct_card [OF bt_wf_distinct [OF wf]] by (simp add: card_image inj_on_def word_unat_eq_iff)
  ultimately show ?thesis by (simp add: fallback_consts)
qed

text \<open>
  The records a sender still retains, as its peer sees them: \<open>sent s b\<close> holds of the wire bytes \<open>b\<close> the
  sender produced, where \<open>msg k\<close> is its record number \<open>k\<close>.
\<close>

definition sent :: "(u64 \<Rightarrow> bytes) \<Rightarrow> send_window \<Rightarrow> bytes \<Rightarrow> bool" where
  "sent msg s b \<longleftrightarrow> wire_sequence b < sw_next_sequence s \<and> b = msg (wire_sequence b)"

lemma observe_expected_record:
  assumes w: "window_inv sha (sent msg s) w" and s: "send_inv sha s"
    and msgs: "\<forall>e \<in> set (sw_records s). cr_bytes (snd e) = msg (fst e)"
    and low: "released_below s \<le> unat (rw_next_sequence w)" and lt: "rw_next_sequence w < sw_next_sequence s"
    and o: "window_observe sha w (msg (rw_next_sequence w)) = (w', res)"
  shows "rw_next_sequence w < rw_next_sequence w'"
proof -
  let ?n = "rw_next_sequence w"
  have sender: "\<exists>h r. bt_get (sw_records s) k = Some r \<and> validate_outer_header (msg k) = Inr h
      \<and> oh_record_sequence h = k \<and> oh_ciphertext_len h = cr_byte_cost r"
    if le: "unat ?n \<le> unat k" and below: "k < sw_next_sequence s" for k
  proof -
    obtain r where r: "bt_get (sw_records s) k = Some r"
      using send_inv_get [OF s _ below] low le by auto
    then have "(k, r) \<in> set (sw_records s)" by (rule bt_get_SomeD)
    with s msgs have "cached_ok sha (\<lambda>b. True) k r" "cr_bytes r = msg k"
      by (fastforce simp: send_inv_def)+
    with r show ?thesis by (auto simp: cached_ok_def)
  qed
  obtain h r where h: "validate_outer_header (msg ?n) = Inr h" "oh_record_sequence h = ?n"
      "oh_ciphertext_len h = cr_byte_cost r" "bt_get (sw_records s) ?n = Some r"
    using sender [of ?n] lt by auto
  let ?w = "insert_pending sha w h (msg ?n)"
  have new: "bt_get (rw_pending w) ?n = None" and wf: "bt_wf (rw_pending w)"
    and bytes: "rw_bytes w = bt_total cr_byte_cost (rw_pending w)"
    using w by (simp_all add: window_inv_def window_pre_def)
  have "bt_total cr_byte_cost (rw_pending ?w) \<le> bt_total cr_byte_cost (sw_records s)"
  proof (rule bt_total_mono)
    fix k v assume kv: "bt_get (rw_pending ?w) k = Some v"
    show "\<exists>v'. bt_get (sw_records s) k = Some v' \<and> cr_byte_cost v = cr_byte_cost v'"
    proof (cases "k = ?n")
      case True
      then show ?thesis using kv h by (auto simp: insert_pending_def)
    next
      case False
      then have "unat ?n \<le> unat k" "cached_ok sha (sent msg s) k v"
        using kv w h(2) by (auto simp: insert_pending_def window_inv_def window_pre_def)
      moreover from this(2) obtain h' where "validate_outer_header (cr_bytes v) = Inr h'"
          "oh_record_sequence h' = k" "oh_ciphertext_len h' = cr_byte_cost v" "sent msg s (cr_bytes v)"
        by (auto simp: cached_ok_def)
      moreover from this have "k < sw_next_sequence s" "cr_bytes v = msg k"
        using validate_outer_header_sequence by (metis sent_def)+
      ultimately show ?thesis
        using sender [of k] by auto
    qed
  qed (use wf send_inv_wf [OF s] in \<open>simp_all add: insert_pending_def\<close>)
  then have "rw_bytes w + oh_ciphertext_len h \<le> FALLBACK_WINDOW_BYTES"
    using s bytes h(2) bt.total_insert_new [OF new]
    by (simp add: insert_pending_def send_inv_def add.commute)
  then have adm: "admissible_record w h"
    using new h(2) pending_below_window [OF w] by (simp add: admissible_record_def fallback_consts)
  have P: "sent msg s (msg ?n)"
    using lt h validate_outer_header_sequence by (metis sent_def)
  from drain_pending_ok [OF window_pre_insert [OF w h(1) adm P], of "[]"] obtain w'' ds where
      d: "drain_pending ?w [] = (w'', Inr ds)" "window_inv sha (sent msg s) w''"
        "rw_next_sequence ?w \<le> rw_next_sequence w''"
        "\<forall>k. rw_next_sequence w'' \<le> k \<longrightarrow> bt_get (rw_pending w'') k = bt_get (rw_pending ?w) k"
    by auto
  have "w'' = w'"
    using o window_observe_admissible [OF h(1) adm, of sha] h(2) d(1) by simp
  moreover have "bt_get (rw_pending ?w) ?n \<noteq> None" "rw_next_sequence ?w = ?n"
    using h(2) by (simp_all add: insert_pending_def)
  ultimately show ?thesis
    using d by (auto simp: window_inv_def less_le)
qed

lemma retransmit_from_msgs:
  assumes "send_inv sha s" and "\<forall>e \<in> set (sw_records s). cr_bytes (snd e) = msg (fst e)"
    and "released_below s \<le> unat n"
  shows "retransmit_from s n = map (\<lambda>i. msg (of_nat i)) [unat n..<unat (sw_next_sequence s)]"
proof -
  have "retransmit_from s n = map (\<lambda>e. cr_bytes (snd e)) (filter (\<lambda>e. unat n \<le> unat (fst e)) (sw_records s))"
    by (simp add: retransmit_from_def word_le_nat_alt)
  also have "\<dots> = map (\<lambda>e. msg (of_nat (unat (fst e)))) (filter (\<lambda>e. unat n \<le> unat (fst e)) (sw_records s))"
    using assms(2) by (auto intro!: map_cong)
  also have "\<dots> = map (\<lambda>i. msg (of_nat i))
      (map (\<lambda>e. unat (fst e)) (filter (\<lambda>e. unat n \<le> unat (fst e)) (sw_records s)))"
    by simp
  also have "\<dots> = map (\<lambda>i. msg (of_nat i)) [unat n..<unat (sw_next_sequence s)]"
    using filter_above_upt [of "\<lambda>e. unat (fst e)" "sw_records s"] assms(1, 3)
    by (simp add: send_inv_def max_def)
  finally show ?thesis .
qed

lemma sender_record:
  assumes "send_inv sha s" and "\<forall>e \<in> set (sw_records s). cr_bytes (snd e) = msg (fst e)"
    and "released_below s \<le> unat k" and "k < sw_next_sequence s"
  shows "sent msg s (msg k)" and "wire_sequence (msg k) = k"
proof -
  obtain r where "(k, r) \<in> set (sw_records s)"
    using send_inv_get [OF assms(1, 3, 4)] bt_get_SomeD by metis
  with assms(1, 2) have "cached_ok sha (\<lambda>b. True) k r" "cr_bytes r = msg k"
    by (fastforce simp: send_inv_def)+
  then obtain h where h: "validate_outer_header (msg k) = Inr h" "oh_record_sequence h = k"
    by (auto simp: cached_ok_def)
  from validate_outer_header_sequence [OF h(1)] h(2) show "wire_sequence (msg k) = k" by simp
  with assms(4) show "sent msg s (msg k)" by (simp add: sent_def)
qed

lemma observe_retransmission:
  assumes "window_inv sha (sent msg s) w" and "send_inv sha s"
    and "\<forall>e \<in> set (sw_records s). cr_bytes (snd e) = msg (fst e)"
    and "released_below s \<le> i" and "i \<le> unat (rw_next_sequence w)"
    and "observe_all sha w (map (\<lambda>i. msg (of_nat i)) [i..<unat (sw_next_sequence s)]) = (w', ds)"
  shows "unat (sw_next_sequence s) \<le> unat (rw_next_sequence w')"
  using assms
proof (induction "unat (sw_next_sequence s) - i" arbitrary: i w ds)
  case 0
  then show ?case by simp
next
  case (Suc d)
  let ?m = "unat (sw_next_sequence s)"
  have i: "i < ?m" using Suc.hyps(2) by simp
  have "?m < 2 ^ LENGTH(64)"
    by (rule unsigned_less)
  with i have k: "unat (of_nat i :: u64) = i" by (intro unat_of_nat_small) simp
  then have sent: "sent msg s (msg (of_nat i))"
    using sender_record(1) [OF Suc.prems(2, 3), of "of_nat i"] Suc.prems(4) i by (simp add: word_less_nat_alt)
  obtain w1 res where o1: "window_observe sha w (msg (of_nat i)) = (w1, res)" by fastforce
  obtain rest where o2: "observe_all sha w1 (map (\<lambda>i. msg (of_nat i)) [Suc i..<?m]) = (w', rest)"
    using Suc.prems(6) i o1 by (auto simp: upt_conv_Cons split: prod.splits)
  note one = window_observe_ok [OF Suc.prems(1) sent o1]
  have "Suc i \<le> unat (rw_next_sequence w1)"
  proof (cases "i = unat (rw_next_sequence w)")
    case True
    then show ?thesis
      using observe_expected_record [OF Suc.prems(1-3), of w1 res] Suc.prems(4) i o1
      by (simp add: word_less_nat_alt)
  next
    case False
    then show ?thesis
      using one Suc.prems(5) by (simp add: word_le_nat_alt)
  qed
  then show ?case
    using Suc.hyps(1) [of "Suc i" w1 rest] Suc.hyps(2) Suc.prems(2-4) one o2 by simp
qed

section \<open>What is handed over first\<close>

lemma window_inv_expects:
  assumes "window_inv sha P w"
  shows "window_inv sha (\<lambda>b. P b \<and> (wire_sequence b = rw_next_sequence w \<longrightarrow> b = bs)) w"
proof -
  have "cached_ok sha (\<lambda>b. P b \<and> (wire_sequence b = rw_next_sequence w \<longrightarrow> b = bs)) k r"
    if "bt_get (rw_pending w) k = Some r" for k r
  proof -
    have "cached_ok sha P k r" "k \<noteq> rw_next_sequence w"
      using that assms by (auto simp: window_inv_def window_pre_def)
    then show ?thesis
      using validate_outer_header_sequence by (fastforce simp: cached_ok_def)
  qed
  moreover have "\<exists>b. (P b \<and> (wire_sequence b = rw_next_sequence w \<longrightarrow> b = bs)) \<and> wire_sequence b = fst e \<and> snd e = sha b"
    if e: "e \<in> set (rw_accepted w)" for e
  proof -
    have "unat (fst e) < unat (rw_next_sequence w)"
      using assms e map_upt_bounds [of "\<lambda>e. unat (fst e)" "rw_accepted w"]
      by (auto simp: window_inv_def window_pre_def)
    then have "fst e \<noteq> rw_next_sequence w" by auto
    then show ?thesis
      using assms e by (fastforce simp: window_inv_def window_pre_def)
  qed
  ultimately show ?thesis
    using assms by (simp add: window_inv_def window_pre_def)
qed

lemma observe_branches:
  assumes inv: "window_inv sha P w" and P: "P bs" and o: "window_observe sha w bs = (w', res)"
  shows "case res of
      Inl e \<Rightarrow> w' = w
    | Inr (Disp_Duplicate a) \<Rightarrow> w' = w \<and> a = window_ack w
    | Inr Disp_Buffered \<Rightarrow> rw_next_sequence w' = rw_next_sequence w \<and> rw_next_sequence w < wire_sequence bs
        \<and> map_option cr_bytes (bt_get (rw_pending w') (wire_sequence bs)) = Some bs
    | Inr (Disp_Contiguous ds) \<Rightarrow> wire_sequence bs = rw_next_sequence w \<and> (\<exists>rest. ds = bs # rest)"
  using o
proof (cases rule: window_observe_cases)
  case unchanged
  have "a = window_ack w" if "res = Inr (Disp_Duplicate a)" for a
    using o that
    by (auto simp: window_observe_def Let_def split: sum.splits if_splits option.splits prod.splits)
  then show ?thesis
    using unchanged by (auto split: sum.splits receive_disposition.splits)
next
  case (buffered h)
  then show ?thesis
    using validate_outer_header_sequence [OF buffered(1)]
    by (auto simp: insert_pending_def admissible_record_def less_le)
next
  case (drained h r)
  let ?P = "\<lambda>b. P b \<and> (wire_sequence b = rw_next_sequence w \<longrightarrow> b = bs)"
  have seq: "wire_sequence bs = rw_next_sequence w"
    using validate_outer_header_sequence [OF drained(1)] drained(3) by simp
  from window_observe_ok [OF window_inv_expects [OF inv, of bs] _ o] P
  have ok: "map (\<lambda>b. unat (wire_sequence b)) (handed_over res) = [unat (rw_next_sequence w)..<unat (rw_next_sequence w')]"
    and all: "list_all ?P (handed_over res)" by auto
  from drain_pending_ok [OF window_pre_insert [OF inv drained(1,2) P], of "[]"] obtain ds
    where ds: "r = Inr ds" "window_inv sha P w'" "rw_next_sequence w \<le> rw_next_sequence w'"
      "\<forall>k. rw_next_sequence w' \<le> k \<longrightarrow>
          bt_get (rw_pending w') k = bt_get (rw_pending (insert_pending sha w h bs)) k"
    using drained(4) by (auto simp: insert_pending_def)
  then have "rw_next_sequence w' \<noteq> rw_next_sequence w"
    using drained(3) by (auto simp: window_inv_def insert_pending_def)
  then have "unat (rw_next_sequence w) < unat (rw_next_sequence w')"
    using ds(3) by (simp add: word_le_nat_alt word_unat_eq_iff)
  then obtain d rest where "ds = d # rest" "unat (wire_sequence d) = unat (rw_next_sequence w)"
    using ok drained(5) ds(1) by (cases ds) (auto simp: upt_conv_Cons)
  then show ?thesis
    using all drained(5) ds(1) seq by (auto simp: word_unat_eq_iff)
qed

section \<open>A concrete wire record\<close>

definition sample_wire :: "u64 \<Rightarrow> bytes" where
  "sample_wire k = [1] @ be64 7 @ [0] @ be64 k @ be64 ACK_NONE @ be16 30 @ replicate 30 0"

lemma sample_wire_valid:
  "k < FALLBACK_SEQUENCE_LIMIT \<Longrightarrow> validate_outer_header (sample_wire k) =
    Inr \<lparr>oh_route_generation = 7, oh_direction = ClientToDaemon, oh_record_sequence = k,
         oh_peer_seen_through = ACK_NONE, oh_ciphertext_len = 30\<rparr>"
  by (simp add: sample_wire_def validate_outer_header_def fallback_consts be_simps nth_append Let_def
      fallback_direction_try_from_def not_le)

lemma wire_sequence_sample [simp]: "wire_sequence (sample_wire k) = k"
  by (simp add: sample_wire_def wire_sequence_def be_simps)

abbreviation sample_sender :: send_window where
  "sample_sender \<equiv> fst (window_insert (\<lambda>_. 0) send_window_new 0 (sample_wire 0) True)"

lemma sample_sender_fields:
  "sw_next_sequence sample_sender = 1" "released_below sample_sender = 0"
  "\<forall>e \<in> set (sw_records sample_sender). cr_bytes (snd e) = sample_wire (fst e)"
  by (simp_all add: window_insert_def sample_wire_valid FALLBACK_SEQUENCE_LIMIT_def send_window_new_def
      fallback_consts checked_add_def released_below_def Let_def bt_get_def)

section \<open>Properties\<close>

text \<open>
  C6. In order, exactly once. Whatever wire records reach the receive window, in whatever order and
  with whatever repetitions or forgeries, the records it hands over carry the sequence numbers
  \<open>0, 1, ..., n - 1\<close> in this order, where \<open>n\<close> is the next sequence it expects, and each of them was
  observed.
\<close>

theorem fallback_delivers_in_order:
  "map (\<lambda>b. unat (wire_sequence b)) (snd (observe_all sha (receive_window_new t) bs))
     = [0..<unat (rw_next_sequence (fst (observe_all sha (receive_window_new t) bs)))]
   \<and> set (snd (observe_all sha (receive_window_new t) bs)) \<subseteq> set bs"
proof -
  obtain w ds where o: "observe_all sha (receive_window_new t) bs = (w, ds)" by fastforce
  have "list_all (\<lambda>b. b \<in> set bs) bs" by (simp add: list_all_iff)
  from observe_all_ok [OF window_inv_new this o] o show ?thesis
    by (auto simp: receive_window_new_def list_all_iff)
qed

text \<open>
  Bounded and prompt. After any observations the receive window holds at most
  \<open>FALLBACK_WINDOW_RECORDS\<close> records of at most \<open>FALLBACK_WINDOW_BYTES\<close> ciphertext bytes, its byte
  counter is exact, and it does not hold the record it would deliver next.
\<close>

theorem fallback_window_bounded:
  "case observe_all sha (receive_window_new t) bs of (w, _) \<Rightarrow>
     length (rw_pending w) \<le> FALLBACK_WINDOW_RECORDS
     \<and> rw_bytes w = bt_total cr_byte_cost (rw_pending w)
     \<and> rw_bytes w \<le> FALLBACK_WINDOW_BYTES
     \<and> length (rw_accepted w) \<le> FALLBACK_WINDOW_RECORDS
     \<and> bt_get (rw_pending w) (rw_next_sequence w) = None"
proof -
  obtain w ds where o: "observe_all sha (receive_window_new t) bs = (w, ds)" by fastforce
  have "list_all (\<lambda>b. True) bs" by (simp add: list_all_iff)
  from observe_all_ok [OF window_inv_new this o] have inv: "window_inv sha (\<lambda>b. True) w" by blast
  then have "map (\<lambda>e. unat (fst e)) (rw_accepted w)
      = [unat (rw_next_sequence w) - FALLBACK_WINDOW_RECORDS..<unat (rw_next_sequence w)]"
    by (simp add: window_inv_def window_pre_def)
  from arg_cong [OF this, of length] have "length (rw_accepted w) \<le> FALLBACK_WINDOW_RECORDS" by simp
  with inv o show ?thesis
    by (simp add: window_inv_def window_pre_def)
qed

text \<open>
  Gap recovery. Let a receive window have seen only records its sender produced (in any order,
  with any losses), and let the sender have released nothing the receiver still misses. Then replaying
  \<open>retransmit_from\<close> the receiver's next sequence hands over every missing record, in order and
  once, and brings the receiver level with the sender.
\<close>

theorem fallback_gap_recovery:
  assumes "window_inv sha (sent msg s) w" and "send_inv sha s"
    and "\<forall>e \<in> set (sw_records s). cr_bytes (snd e) = msg (fst e)"
    and "released_below s \<le> unat (rw_next_sequence w)" and "rw_next_sequence w \<le> sw_next_sequence s"
    and "observe_all sha w (retransmit_from s (rw_next_sequence w)) = (w', ds)"
  shows "rw_next_sequence w' = sw_next_sequence s
    \<and> ds = map (\<lambda>i. msg (of_nat i)) [unat (rw_next_sequence w)..<unat (sw_next_sequence s)]"
proof -
  let ?n = "unat (rw_next_sequence w)" and ?m = "unat (sw_next_sequence s)"
  let ?bs = "map (\<lambda>i. msg (of_nat i)) [?n..<?m]"
  have o: "observe_all sha w ?bs = (w', ds)"
    using assms(6) retransmit_from_msgs [OF assms(2-4)] by simp
  have "sent msg s (msg (of_nat i))" if "?n \<le> i" "i < ?m" for i
  proof -
    have "unat (of_nat i :: u64) = i"
      using that(2) unsigned_less [of "sw_next_sequence s", where 'a = nat]
      by (intro unat_of_nat_small) (rule less_trans)
    then show ?thesis
      using sender_record(1) [OF assms(2, 3), of "of_nat i"] assms(4) that by (simp add: word_less_nat_alt)
  qed
  then have "list_all (sent msg s) ?bs" by (simp add: list_all_iff)
  note all = observe_all_ok [OF assms(1) this o]
  then have seqs: "map (\<lambda>b. unat (wire_sequence b)) ds = [?n..<unat (rw_next_sequence w')]"
    and P: "\<forall>b \<in> set ds. sent msg s b" by (simp_all add: list_all_iff)
  have "?m \<le> unat (rw_next_sequence w')"
    using observe_retransmission [OF assms(1-4) _ o] all by (simp add: word_le_nat_alt)
  moreover have "unat (rw_next_sequence w') \<le> ?m"
  proof (rule ccontr)
    assume "\<not> ?thesis"
    then have "?m \<in> set [?n..<unat (rw_next_sequence w')]"
      using assms(5) by (simp add: word_le_nat_alt)
    then obtain b where "b \<in> set ds" "unat (wire_sequence b) = ?m"
      unfolding seqs [symmetric] by auto
    with P show False by (auto simp: sent_def word_less_nat_alt)
  qed
  ultimately have eq: "unat (rw_next_sequence w') = ?m" by simp
  have "ds = map (\<lambda>i. msg (of_nat i)) (map (\<lambda>b. unat (wire_sequence b)) ds)"
    using P by (auto simp: sent_def intro!: map_idI [symmetric])
  then show ?thesis
    using eq seqs by (simp add: word_unat_eq_iff)
qed

theorem fallback_gap_recovery_witness:
  "\<exists>w' ds. observe_all (\<lambda>_. 0) (receive_window_new 0) (retransmit_from sample_sender 0) = (w', ds)
     \<and> rw_next_sequence w' = 1 \<and> ds = [sample_wire 0]"
proof -
  obtain w' ds where o: "observe_all (\<lambda>_. 0) (receive_window_new 0) (retransmit_from sample_sender 0) = (w', ds)"
    by fastforce
  have n: "rw_next_sequence (receive_window_new 0) = 0"
    by (simp add: receive_window_new_def)
  have "rw_next_sequence w' = sw_next_sequence sample_sender
    \<and> ds = map (\<lambda>i. sample_wire (of_nat i))
        [unat (rw_next_sequence (receive_window_new 0))..<unat (sw_next_sequence sample_sender)]"
    by (rule fallback_gap_recovery [OF window_inv_new send_inv_insert [OF send_inv_new] sample_sender_fields(3)])
      (simp_all only: n o sample_sender_fields, simp_all)
  then show ?thesis
    using o by (simp only: n sample_sender_fields) simp
qed

text \<open>
  Every outcome of \<open>observe\<close>. An error or a duplicate leaves the window as it was, and a duplicate
  is answered with the current cumulative acknowledgement; a buffered record lies beyond the next
  sequence and is retained byte for byte; a contiguous batch starts with the record just observed.
\<close>

theorem fallback_observe_outcomes:
  assumes "window_inv sha P w" and "P bs" and "window_observe sha w bs = (w', res)"
  shows "case res of
      Inl e \<Rightarrow> w' = w
    | Inr (Disp_Duplicate a) \<Rightarrow> w' = w \<and> a = window_ack w
    | Inr Disp_Buffered \<Rightarrow> rw_next_sequence w' = rw_next_sequence w \<and> rw_next_sequence w < wire_sequence bs
        \<and> map_option cr_bytes (bt_get (rw_pending w') (wire_sequence bs)) = Some bs
    | Inr (Disp_Contiguous ds) \<Rightarrow> wire_sequence bs = rw_next_sequence w \<and> (\<exists>rest. ds = bs # rest)"
  using assms by (rule observe_branches)

theorem fallback_observe_outcomes_witness:
  "\<exists>w'. window_observe (\<lambda>_. 0) (receive_window_new 0) (sample_wire 2) = (w', Inr Disp_Buffered)
     \<and> rw_next_sequence w' = 0
     \<and> map_option cr_bytes (bt_get (rw_pending w') 2) = Some (sample_wire 2)"
proof -
  obtain w' where o: "window_observe (\<lambda>_. 0) (receive_window_new 0) (sample_wire 2) = (w', Inr Disp_Buffered)"
    by (simp add: window_observe_def sample_wire_valid FALLBACK_SEQUENCE_LIMIT_def receive_window_new_def
        fallback_consts saturating_sub_def Let_def bt_get_def)
  have "rw_next_sequence (receive_window_new 0) = 0"
    by (simp add: receive_window_new_def)
  with fallback_observe_outcomes [OF window_inv_new [of _ "\<lambda>_. True"] TrueI o] o show ?thesis by simp
qed

text \<open>
  C12. The send window retains exactly what may still be needed. After any calls the retained records
  are those from the first one the peer has not confirmed seeing up to the last one inserted, without
  gaps; their ciphertext bytes are counted exactly and stay within the window, and only records beyond
  the delivery acknowledgement are still tracked for retry.
\<close>

theorem fallback_send_window_retains:
  "let s = foldl (send_step sha) send_window_new cs in
     map (\<lambda>e. unat (fst e)) (sw_records s) = [released_below s..<unat (sw_next_sequence s)]
     \<and> sw_bytes s = bt_total cr_byte_cost (sw_records s) \<and> sw_bytes s \<le> FALLBACK_WINDOW_BYTES
     \<and> length (sw_records s) \<le> FALLBACK_WINDOW_RECORDS
     \<and> list_all (\<lambda>(k, r). cr_retry_index r \<le> length RETRY_MILLIS
          \<and> (sw_delivery_ack s = ACK_NONE \<or> sw_delivery_ack s < k \<or> cr_tracked r = False)) (sw_records s)"
proof -
  have "send_inv sha (foldl (send_step sha) send_window_new cs)"
    using send.inv_run [OF send_inv_new, of cs sha] by (simp add: list_all_iff)
  then show ?thesis
    by (auto simp: send_inv_def Let_def list_all_iff)
qed

text \<open>
  The outer record codec is exact: a byte string decodes to a record exactly when the record is
  well formed and encodes to that byte string, and every well-formed record encodes.
\<close>

theorem fallback_outer_codec_exact:
  "(outer_decode bs = Inr r \<longleftrightarrow> outer_ok r \<and> outer_encode r = Inr bs) \<and> (outer_ok r \<longleftrightarrow> is_ok (outer_encode r))"
  using outer_codec.dec_iff outer_codec.enc_total [of r]
  by (auto simp: is_ok_iff) (auto simp: outer_encode_def outer_ok_def split: if_splits)

end
