(* ===== verification/Remote_Lane.thy ===== *)
theory Remote_Lane
  imports Remote_Contracts
begin

text \<open>
  The vocabulary of the logical lanes (\<open>crates/cockpit-proto/src/remote_transport/lane.rs\<close>,
  \<open>channel.rs\<close>, \<open>observability.rs\<close>): lane identity and caps, the closed set of failure reasons, size
  buckets, the payload-free error value, the fixed channel table, and the rendering of observations.

  A lane is ordered as in the code (\<open>derive(Ord)\<close>), so that lanes can key an ordered store.
\<close>

section \<open>Lanes\<close>

definition REMOTE_LANE_COUNT :: nat where "REMOTE_LANE_COUNT = 3"
definition CONTROL_MAX_PAYLOAD_BYTES :: nat where "CONTROL_MAX_PAYLOAD_BYTES = 64 * 1024"
definition INTERACTIVE_MAX_PAYLOAD_BYTES :: nat where "INTERACTIVE_MAX_PAYLOAD_BYTES = 512 * 1024"
definition BULK_MAX_PAYLOAD_BYTES :: nat where "BULK_MAX_PAYLOAD_BYTES = 512 * 1024"
definition MAX_LOGICAL_PAYLOAD_BYTES :: nat where "MAX_LOGICAL_PAYLOAD_BYTES = 512 * 1024"

lemmas lane_consts = CONTROL_MAX_PAYLOAD_BYTES_def INTERACTIVE_MAX_PAYLOAD_BYTES_def
  BULK_MAX_PAYLOAD_BYTES_def MAX_LOGICAL_PAYLOAD_BYTES_def

datatype remote_lane = Lane_Control | Lane_Interactive | Lane_Bulk

definition lane_ALL :: "remote_lane list" where
  "lane_ALL = [Lane_Control, Lane_Interactive, Lane_Bulk]"

fun lane_id :: "remote_lane \<Rightarrow> u8" where
  "lane_id Lane_Control = 0"
| "lane_id Lane_Interactive = 1"
| "lane_id Lane_Bulk = 2"

definition from_lane_id :: "u8 \<Rightarrow> remote_lane option" where
  "from_lane_id value =
     (if value = 0 then Some Lane_Control
      else if value = 1 then Some Lane_Interactive
      else if value = 2 then Some Lane_Bulk
      else None)"

fun lane_as_str :: "remote_lane \<Rightarrow> string" where
  "lane_as_str Lane_Control = ''control''"
| "lane_as_str Lane_Interactive = ''interactive''"
| "lane_as_str Lane_Bulk = ''bulk''"

definition lane_from_str_exact :: "string \<Rightarrow> remote_lane option" where
  "lane_from_str_exact value =
     (if value = ''control'' then Some Lane_Control
      else if value = ''interactive'' then Some Lane_Interactive
      else if value = ''bulk'' then Some Lane_Bulk
      else None)"

fun lane_max_payload_bytes :: "remote_lane \<Rightarrow> nat" where
  "lane_max_payload_bytes Lane_Control = CONTROL_MAX_PAYLOAD_BYTES"
| "lane_max_payload_bytes Lane_Interactive = INTERACTIVE_MAX_PAYLOAD_BYTES"
| "lane_max_payload_bytes Lane_Bulk = BULK_MAX_PAYLOAD_BYTES"

lemma lane_id_inject: "lane_id a = lane_id b \<longleftrightarrow> a = b"
  by (cases a; cases b) simp_all

instantiation remote_lane :: linorder
begin

definition less_eq_remote_lane :: "remote_lane \<Rightarrow> remote_lane \<Rightarrow> bool" where
  "less_eq_remote_lane a b \<longleftrightarrow> lane_id a \<le> lane_id b"

definition less_remote_lane :: "remote_lane \<Rightarrow> remote_lane \<Rightarrow> bool" where
  "less_remote_lane a b \<longleftrightarrow> lane_id a < lane_id b"

instance
  by standard
    (auto simp: less_eq_remote_lane_def less_remote_lane_def lane_id_inject
      dest: order_antisym)

end

section \<open>Failure reasons and size buckets\<close>

datatype remote_transport_reason =
    UnsupportedVersion | UnknownLane | UnknownFlagBit | HeaderTooShort | TrailingBytes
  | PayloadLengthMismatch | PayloadCapExceeded | DigestMismatch | ZeroStreamId
  | StreamParityViolation | ControlStreamViolation | SequenceGap | SequenceRegression
  | SequenceWrap | StreamClosed | StreamLimitExceeded | ZeroFragmentCount | FragmentCountExceeded
  | FragmentIndexOutOfRange | FragmentPayloadCapExceeded | FragmentLengthMismatch
  | FragmentEndFlagMisplaced | FragmentConflict | ReassemblyFrameLimit | ReassemblyByteLimit
  | ReassemblyTimeout | BulkUnknownKind | BulkOptionBits | BulkLengthMismatch | BulkOffsetGap
  | BulkWindowOvershoot | BulkTransferLimit | BulkClassLimit | BulkDigestMismatch
  | BulkUnknownTransfer | BulkTransferConflict | BulkLateChunk | BulkAlreadyComplete
  | BulkUnknownMimeClass | BulkUnknownAbortReason | BulkChunkIndexGap | QueueFrameLimit
  | QueueByteLimit | QueueAggregateLimit | ControlQueueOverflow | IntegerOutOfRange
  | UnclassifiedMessage | LaneNotPermittedForClass | ClientSelectedLaneRejected

fun reason_as_str :: "remote_transport_reason \<Rightarrow> string" where
  "reason_as_str UnsupportedVersion = ''unsupported_version''"
| "reason_as_str UnknownLane = ''unknown_lane''"
| "reason_as_str UnknownFlagBit = ''unknown_flag_bit''"
| "reason_as_str HeaderTooShort = ''header_too_short''"
| "reason_as_str TrailingBytes = ''trailing_bytes''"
| "reason_as_str PayloadLengthMismatch = ''payload_length_mismatch''"
| "reason_as_str PayloadCapExceeded = ''payload_cap_exceeded''"
| "reason_as_str DigestMismatch = ''digest_mismatch''"
| "reason_as_str ZeroStreamId = ''zero_stream_id''"
| "reason_as_str StreamParityViolation = ''stream_parity_violation''"
| "reason_as_str ControlStreamViolation = ''control_stream_violation''"
| "reason_as_str SequenceGap = ''sequence_gap''"
| "reason_as_str SequenceRegression = ''sequence_regression''"
| "reason_as_str SequenceWrap = ''sequence_wrap''"
| "reason_as_str StreamClosed = ''stream_closed''"
| "reason_as_str StreamLimitExceeded = ''stream_limit_exceeded''"
| "reason_as_str ZeroFragmentCount = ''zero_fragment_count''"
| "reason_as_str FragmentCountExceeded = ''fragment_count_exceeded''"
| "reason_as_str FragmentIndexOutOfRange = ''fragment_index_out_of_range''"
| "reason_as_str FragmentPayloadCapExceeded = ''fragment_payload_cap_exceeded''"
| "reason_as_str FragmentLengthMismatch = ''fragment_length_mismatch''"
| "reason_as_str FragmentEndFlagMisplaced = ''fragment_end_flag_misplaced''"
| "reason_as_str FragmentConflict = ''fragment_conflict''"
| "reason_as_str ReassemblyFrameLimit = ''reassembly_frame_limit''"
| "reason_as_str ReassemblyByteLimit = ''reassembly_byte_limit''"
| "reason_as_str ReassemblyTimeout = ''reassembly_timeout''"
| "reason_as_str BulkUnknownKind = ''bulk_unknown_kind''"
| "reason_as_str BulkOptionBits = ''bulk_option_bits''"
| "reason_as_str BulkLengthMismatch = ''bulk_length_mismatch''"
| "reason_as_str BulkOffsetGap = ''bulk_offset_gap''"
| "reason_as_str BulkWindowOvershoot = ''bulk_window_overshoot''"
| "reason_as_str BulkTransferLimit = ''bulk_transfer_limit''"
| "reason_as_str BulkClassLimit = ''bulk_class_limit''"
| "reason_as_str BulkDigestMismatch = ''bulk_digest_mismatch''"
| "reason_as_str BulkUnknownTransfer = ''bulk_unknown_transfer''"
| "reason_as_str BulkTransferConflict = ''bulk_transfer_conflict''"
| "reason_as_str BulkLateChunk = ''bulk_late_chunk''"
| "reason_as_str BulkAlreadyComplete = ''bulk_already_complete''"
| "reason_as_str BulkUnknownMimeClass = ''bulk_unknown_mime_class''"
| "reason_as_str BulkUnknownAbortReason = ''bulk_unknown_abort_reason''"
| "reason_as_str BulkChunkIndexGap = ''bulk_chunk_index_gap''"
| "reason_as_str QueueFrameLimit = ''queue_frame_limit''"
| "reason_as_str QueueByteLimit = ''queue_byte_limit''"
| "reason_as_str QueueAggregateLimit = ''queue_aggregate_limit''"
| "reason_as_str ControlQueueOverflow = ''control_queue_overflow''"
| "reason_as_str IntegerOutOfRange = ''integer_out_of_range''"
| "reason_as_str UnclassifiedMessage = ''unclassified_message''"
| "reason_as_str LaneNotPermittedForClass = ''lane_not_permitted_for_class''"
| "reason_as_str ClientSelectedLaneRejected = ''client_selected_lane_rejected''"

datatype remote_size_bucket = Le1K | Le4K | Le16K | Le64K | Le256K | Le512K | Gt512K

definition size_bucket_of :: "nat \<Rightarrow> remote_size_bucket" where
  "size_bucket_of n =
     (if n \<le> 1024 then Le1K
      else if n \<le> 4 * 1024 then Le4K
      else if n \<le> 16 * 1024 then Le16K
      else if n \<le> 64 * 1024 then Le64K
      else if n \<le> 256 * 1024 then Le256K
      else if n \<le> 512 * 1024 then Le512K
      else Gt512K)"

fun size_bucket_as_str :: "remote_size_bucket \<Rightarrow> string" where
  "size_bucket_as_str Le1K = ''le_1k''"
| "size_bucket_as_str Le4K = ''le_4k''"
| "size_bucket_as_str Le16K = ''le_16k''"
| "size_bucket_as_str Le64K = ''le_64k''"
| "size_bucket_as_str Le256K = ''le_256k''"
| "size_bucket_as_str Le512K = ''le_512k''"
| "size_bucket_as_str Gt512K = ''gt_512k''"

record remote_transport_error =
  te_reason :: remote_transport_reason
  te_lane :: "remote_lane option"
  te_size_bucket :: "remote_size_bucket option"

definition error_new :: "remote_transport_reason \<Rightarrow> remote_transport_error" where
  "error_new reason = \<lparr>te_reason = reason, te_lane = None, te_size_bucket = None\<rparr>"

definition error_with_lane :: "remote_transport_reason \<Rightarrow> remote_lane \<Rightarrow> remote_transport_error" where
  "error_with_lane reason lane = \<lparr>te_reason = reason, te_lane = Some lane, te_size_bucket = None\<rparr>"

definition error_with_size :: "remote_transport_reason \<Rightarrow> remote_lane \<Rightarrow> nat \<Rightarrow> remote_transport_error" where
  "error_with_size reason lane n =
     \<lparr>te_reason = reason, te_lane = Some lane, te_size_bucket = Some (size_bucket_of n)\<rparr>"

definition error_render :: "remote_transport_error \<Rightarrow> string" where
  "error_render e =
     reason_as_str (te_reason e)
     @ (case te_lane e of None \<Rightarrow> [] | Some lane \<Rightarrow> '' lane='' @ lane_as_str lane)
     @ (case te_size_bucket e of None \<Rightarrow> [] | Some bucket \<Rightarrow> '' size='' @ size_bucket_as_str bucket)"

section \<open>The channel table\<close>

record remote_lane_channel =
  ch_lane :: remote_lane
  ch_channel_id :: u16
  ch_label :: string
  ch_negotiated :: bool
  ch_ordered :: bool
  ch_reliable :: bool
  ch_compressed :: bool
  ch_max_payload_bytes :: nat

definition REMOTE_LANE_CHANNELS :: "remote_lane_channel list" where
  "REMOTE_LANE_CHANNELS =
     [\<lparr>ch_lane = Lane_Control, ch_channel_id = 0, ch_label = ''flycockpit.control.v1'',
       ch_negotiated = True, ch_ordered = True, ch_reliable = True, ch_compressed = False,
       ch_max_payload_bytes = CONTROL_MAX_PAYLOAD_BYTES\<rparr>,
      \<lparr>ch_lane = Lane_Interactive, ch_channel_id = 2, ch_label = ''flycockpit.interactive.v1'',
       ch_negotiated = True, ch_ordered = True, ch_reliable = True, ch_compressed = False,
       ch_max_payload_bytes = INTERACTIVE_MAX_PAYLOAD_BYTES\<rparr>,
      \<lparr>ch_lane = Lane_Bulk, ch_channel_id = 4, ch_label = ''flycockpit.bulk.v1'',
       ch_negotiated = True, ch_ordered = True, ch_reliable = True, ch_compressed = False,
       ch_max_payload_bytes = BULK_MAX_PAYLOAD_BYTES\<rparr>]"

definition channel_for_lane :: "remote_lane \<Rightarrow> remote_lane_channel" where
  "channel_for_lane lane = REMOTE_LANE_CHANNELS ! unat (lane_id lane)"

definition lane_for_channel_id :: "u16 \<Rightarrow> remote_transport_error + remote_lane" where
  "lane_for_channel_id channel_id =
     ok_or (error_new UnknownLane)
       (map_option ch_lane (find (\<lambda>c. ch_channel_id c = channel_id) REMOTE_LANE_CHANNELS))"

definition lane_for_channel_label :: "string \<Rightarrow> remote_transport_error + remote_lane" where
  "lane_for_channel_label label =
     ok_or (error_new UnknownLane)
       (map_option ch_lane (find (\<lambda>c. ch_label c = label) REMOTE_LANE_CHANNELS))"

section \<open>Observations\<close>

datatype remote_transport_metric =
    Metric_FrameSent | Metric_FrameReceived | Metric_FrameRejected | Metric_FragmentSent
  | Metric_FragmentReceived | Metric_ReassemblyExpired | Metric_QueueRejected | Metric_QueueBackpressure
  | Metric_StreamClosed | Metric_TransferBegun | Metric_TransferCompleted | Metric_TransferAborted

fun metric_as_str :: "remote_transport_metric \<Rightarrow> string" where
  "metric_as_str Metric_FrameSent = ''frame_sent''"
| "metric_as_str Metric_FrameReceived = ''frame_received''"
| "metric_as_str Metric_FrameRejected = ''frame_rejected''"
| "metric_as_str Metric_FragmentSent = ''fragment_sent''"
| "metric_as_str Metric_FragmentReceived = ''fragment_received''"
| "metric_as_str Metric_ReassemblyExpired = ''reassembly_expired''"
| "metric_as_str Metric_QueueRejected = ''queue_rejected''"
| "metric_as_str Metric_QueueBackpressure = ''queue_backpressure''"
| "metric_as_str Metric_StreamClosed = ''stream_closed''"
| "metric_as_str Metric_TransferBegun = ''transfer_begun''"
| "metric_as_str Metric_TransferCompleted = ''transfer_completed''"
| "metric_as_str Metric_TransferAborted = ''transfer_aborted''"

record remote_transport_record =
  tr_metric :: remote_transport_metric
  tr_lane :: "remote_lane option"
  tr_reason :: "remote_transport_reason option"
  tr_size_bucket :: "remote_size_bucket option"

definition record_new :: "remote_transport_metric \<Rightarrow> remote_transport_record" where
  "record_new metric = \<lparr>tr_metric = metric, tr_lane = None, tr_reason = None, tr_size_bucket = None\<rparr>"

definition record_lane :: "remote_lane \<Rightarrow> remote_transport_record \<Rightarrow> remote_transport_record" where
  "record_lane lane r = r\<lparr>tr_lane := Some lane\<rparr>"

definition record_size :: "nat \<Rightarrow> remote_transport_record \<Rightarrow> remote_transport_record" where
  "record_size n r = r\<lparr>tr_size_bucket := Some (size_bucket_of n)\<rparr>"

definition record_from_error ::
    "remote_transport_metric \<Rightarrow> remote_transport_error \<Rightarrow> remote_transport_record" where
  "record_from_error metric e =
     \<lparr>tr_metric = metric, tr_lane = te_lane e, tr_reason = Some (te_reason e),
      tr_size_bucket = te_size_bucket e\<rparr>"

definition record_render :: "remote_transport_record \<Rightarrow> string" where
  "record_render r =
     ''transport.'' @ metric_as_str (tr_metric r)
     @ (case tr_lane r of None \<Rightarrow> [] | Some lane \<Rightarrow> '' lane='' @ lane_as_str lane)
     @ (case tr_reason r of None \<Rightarrow> [] | Some reason \<Rightarrow> '' reason='' @ reason_as_str reason)
     @ (case tr_size_bucket r of None \<Rightarrow> [] | Some bucket \<Rightarrow> '' size='' @ size_bucket_as_str bucket)"

section \<open>Facts\<close>

lemma from_lane_id_roundtrip [simp]: "from_lane_id (lane_id l) = Some l"
  by (cases l) (simp_all add: from_lane_id_def)

lemma from_lane_id_canonical: "from_lane_id v = Some l \<Longrightarrow> lane_id l = v"
  by (auto simp: from_lane_id_def split: if_splits)

lemma lane_cap_le: "lane_max_payload_bytes l \<le> MAX_LOGICAL_PAYLOAD_BYTES"
  by (cases l) (simp_all add: lane_consts)

lemma lane_cap_bound: "lane_max_payload_bytes l \<le> 524288"
  using lane_cap_le [of l] by (simp add: lane_consts)

text \<open>
  The channel contract. Lanes and channels correspond one to one: looking a lane's channel up by
  its id or by its label gives the lane back, any other id or label is refused, and every channel is
  negotiated, ordered, reliable, uncompressed and repeats its lane's payload cap.
\<close>

theorem channel_table_exact:
  "(lane_for_channel_id i = Inr l \<longleftrightarrow> ch_channel_id (channel_for_lane l) = i)
   \<and> (lane_for_channel_label s = Inr l \<longleftrightarrow> ch_label (channel_for_lane l) = s)
   \<and> ch_lane (channel_for_lane l) = l
   \<and> ch_negotiated (channel_for_lane l) \<and> ch_ordered (channel_for_lane l) \<and> ch_reliable (channel_for_lane l)
   \<and> \<not> ch_compressed (channel_for_lane l)
   \<and> ch_max_payload_bytes (channel_for_lane l) = lane_max_payload_bytes l"
  by (cases l)
    (auto simp: lane_for_channel_id_def lane_for_channel_label_def channel_for_lane_def
      REMOTE_LANE_CHANNELS_def result_simps)

end
