(* ===== verification/Remote_Frame.thy ===== *)
theory Remote_Frame
  imports Remote_Lane Ordered_Store "HOL-Library.Product_Lexorder"
begin

text \<open>
  The logical frame and its streams (\<open>crates/cockpit-proto/src/remote_transport/frame.rs\<close>): frame
  flags, stream ownership, the frame codec with its 72-byte header, and \<open>RemoteStreamSequences\<close>, which
  enforces per-stream order and retires stream ids. SHA-256 is the parameter \<open>sha\<close>; the frame id check
  is that of \<open>remote_protocol_id.rs\<close>.

  Shown here: the codec is exact; per stream the accepted sequence numbers are 0, 1, 2, ... and nothing
  is accepted after a terminal frame; the retirement prefix with its closed set refines a plain set of
  retired stream ordinals; the active and the closed sets stay within their budgets.
\<close>

unbundle bit_operations_syntax

section \<open>Definitions\<close>

subsection \<open>Flags and stream ownership\<close>

definition REMOTE_TRANSPORT_FRAME_VERSION :: u8 where "REMOTE_TRANSPORT_FRAME_VERSION = 1"
definition REMOTE_TRANSPORT_FRAME_HEADER_BYTES :: nat where "REMOTE_TRANSPORT_FRAME_HEADER_BYTES = 72"
definition MAX_SERIALIZED_FRAME_BYTES :: nat where
  "MAX_SERIALIZED_FRAME_BYTES = REMOTE_TRANSPORT_FRAME_HEADER_BYTES + MAX_LOGICAL_PAYLOAD_BYTES"
definition CONTROL_STREAM_ID :: u64 where "CONTROL_STREAM_ID = 0"

lemmas frame_consts = REMOTE_TRANSPORT_FRAME_VERSION_def REMOTE_TRANSPORT_FRAME_HEADER_BYTES_def
  MAX_SERIALIZED_FRAME_BYTES_def CONTROL_STREAM_ID_def

type_synonym frame_flags = u16

definition FLAG_END_STREAM :: u16 where "FLAG_END_STREAM = 1"
definition FLAG_RESET_STREAM :: u16 where "FLAG_RESET_STREAM = 2"
definition FLAGS_DEFINED :: u16 where "FLAGS_DEFINED = FLAG_END_STREAM OR FLAG_RESET_STREAM"

definition flags_from_bits :: "u16 \<Rightarrow> frame_flags option" where
  "flags_from_bits bits = (if bits AND (NOT FLAGS_DEFINED) \<noteq> 0 then None else Some bits)"

definition flags_end_stream :: "frame_flags \<Rightarrow> bool" where
  "flags_end_stream f \<longleftrightarrow> f AND FLAG_END_STREAM \<noteq> 0"

definition flags_reset_stream :: "frame_flags \<Rightarrow> bool" where
  "flags_reset_stream f \<longleftrightarrow> f AND FLAG_RESET_STREAM \<noteq> 0"

definition with_end_stream :: "frame_flags \<Rightarrow> frame_flags" where
  "with_end_stream f = f OR FLAG_END_STREAM"

definition with_reset_stream :: "frame_flags \<Rightarrow> frame_flags" where
  "with_reset_stream f = f OR FLAG_RESET_STREAM"

datatype stream_origin = Origin_Client | Origin_Daemon

definition origin_of_stream_id :: "u64 \<Rightarrow> stream_origin option" where
  "origin_of_stream_id stream_id =
     (if stream_id = CONTROL_STREAM_ID then None
      else if stream_id mod 2 = 0 then Some Origin_Client
      else Some Origin_Daemon)"

definition client_stream_id :: "u64 \<Rightarrow> remote_transport_error + u64" where
  "client_stream_id index =
     ok_or (error_new StreamParityViolation)
       (case checked_add index 1 of None \<Rightarrow> None | Some n \<Rightarrow> checked_mul n 2)"

definition daemon_stream_id :: "u64 \<Rightarrow> remote_transport_error + u64" where
  "daemon_stream_id index =
     ok_or (error_new StreamParityViolation)
       (case checked_mul index 2 of None \<Rightarrow> None | Some n \<Rightarrow> checked_add n 1)"

definition validate_stream_id ::
    "u64 \<Rightarrow> stream_origin \<Rightarrow> remote_lane \<Rightarrow> remote_transport_error + unit" where
  "validate_stream_id stream_id origin lane =
     (if stream_id = CONTROL_STREAM_ID then
        (if lane = Lane_Control then Inr () else Inl (error_with_lane ZeroStreamId lane))
      else if origin_of_stream_id stream_id = Some origin then Inr ()
      else Inl (error_with_lane StreamParityViolation lane))"

subsection \<open>Frames\<close>

record transport_frame =
  fr_lane :: remote_lane
  fr_flags :: frame_flags
  fr_stream_id :: u64
  fr_stream_seq :: u64
  fr_frame_id :: id16
  fr_payload :: bytes

definition validate_payload_cap :: "transport_frame \<Rightarrow> remote_transport_error + unit" where
  "validate_payload_cap f =
     (if length (fr_payload f) > lane_max_payload_bytes (fr_lane f)
      then Inl (error_with_size PayloadCapExceeded (fr_lane f) (length (fr_payload f)))
      else Inr ())"

definition frame_new ::
    "remote_lane \<Rightarrow> u64 \<Rightarrow> u64 \<Rightarrow> id16 \<Rightarrow> bytes \<Rightarrow> remote_transport_error + transport_frame" where
  "frame_new lane stream_id stream_seq frame_id payload =
     (let frame = \<lparr>fr_lane = lane, fr_flags = 0, fr_stream_id = stream_id, fr_stream_seq = stream_seq,
                   fr_frame_id = frame_id, fr_payload = payload\<rparr> in
      rbind (validate_payload_cap frame) (\<lambda>_. Inr frame))"

definition frame_serialized_len :: "transport_frame \<Rightarrow> nat" where
  "frame_serialized_len f = REMOTE_TRANSPORT_FRAME_HEADER_BYTES + length (fr_payload f)"

definition frame_encode :: "(bytes \<Rightarrow> digest32) \<Rightarrow> transport_frame \<Rightarrow> remote_transport_error + bytes" where
  "frame_encode sha f =
     rbind (validate_payload_cap f) (\<lambda>_.
       Inr ([REMOTE_TRANSPORT_FRAME_VERSION, lane_id (fr_lane f)] @ be16 (fr_flags f)
            @ be64 (fr_stream_id f) @ be64 (fr_stream_seq f) @ be128 (fr_frame_id f)
            @ be32 (of_nat (length (fr_payload f))) @ be256 (sha (fr_payload f)) @ fr_payload f))"

text \<open>\<open>tag_protocol_id_bytes\<close> of \<open>remote_protocol_id.rs\<close>: the all-zero id is the only one refused.\<close>

definition tag_protocol_id :: "id16 \<Rightarrow> id16 option" where
  "tag_protocol_id i = (if i = 0 then None else Some i)"

definition frame_decode :: "(bytes \<Rightarrow> digest32) \<Rightarrow> bytes \<Rightarrow> remote_transport_error + transport_frame" where
  "frame_decode sha bs =
     (if length bs < REMOTE_TRANSPORT_FRAME_HEADER_BYTES then Inl (error_new HeaderTooShort)
      else if bs ! 0 \<noteq> REMOTE_TRANSPORT_FRAME_VERSION then Inl (error_new UnsupportedVersion)
      else rbind (ok_or (error_new UnknownLane) (from_lane_id (bs ! 1))) (\<lambda>lane.
        rbind (ok_or (error_with_lane UnknownFlagBit lane) (flags_from_bits (rd16 2 bs))) (\<lambda>flags.
        let stream_id = rd64 4 bs; stream_seq = rd64 12 bs in
        rbind (ok_or (error_with_lane PayloadLengthMismatch lane) (tag_protocol_id (rd128 20 bs))) (\<lambda>frame_id.
        let payload_length = unat (rd32 36 bs) in
        if payload_length > lane_max_payload_bytes lane
        then Inl (error_with_size PayloadCapExceeded lane payload_length)
        else let actual = length bs - REMOTE_TRANSPORT_FRAME_HEADER_BYTES in
          if actual > payload_length then Inl (error_with_lane TrailingBytes lane)
          else if actual < payload_length then Inl (error_with_lane PayloadLengthMismatch lane)
          else let declared_digest = rd256 40 bs; payload = drop REMOTE_TRANSPORT_FRAME_HEADER_BYTES bs in
            if sha payload \<noteq> declared_digest then Inl (error_with_lane DigestMismatch lane)
            else Inr \<lparr>fr_lane = lane, fr_flags = flags, fr_stream_id = stream_id,
                      fr_stream_seq = stream_seq, fr_frame_id = frame_id, fr_payload = payload\<rparr>))))"

subsection \<open>Stream sequences\<close>

definition MAX_ACTIVE_STREAMS_PER_PEER :: nat where "MAX_ACTIVE_STREAMS_PER_PEER = 256"
definition MAX_OUTSTANDING_STREAM_IDS :: u64 where "MAX_OUTSTANDING_STREAM_IDS = 1024"

definition stream_ordinal :: "stream_origin \<Rightarrow> u64 \<Rightarrow> u64" where
  "stream_ordinal origin stream_id =
     (if stream_id = CONTROL_STREAM_ID then 0
      else case origin of
        Origin_Client \<Rightarrow> stream_id div 2
      | Origin_Daemon \<Rightarrow> stream_id div 2 + (if stream_id mod 2 \<noteq> 0 then 1 else 0))"

fun first_legal_ordinal :: "remote_lane \<Rightarrow> u64" where
  "first_legal_ordinal Lane_Control = 0"
| "first_legal_ordinal Lane_Interactive = 1"
| "first_legal_ordinal Lane_Bulk = 1"

record lane_stream_state =
  ls_retire_cursor :: u64
  ls_closed :: "u64 list"

record stream_sequences =
  ss_next :: "(remote_lane \<times> u64, u64) btree"
  ss_lanes :: "(remote_lane, lane_stream_state) btree"
  ss_origin :: stream_origin
  ss_max_active :: nat
  ss_max_outstanding :: u64

definition sequences_new :: "stream_origin \<Rightarrow> stream_sequences" where
  "sequences_new origin =
     \<lparr>ss_next = [], ss_lanes = [], ss_origin = origin, ss_max_active = MAX_ACTIVE_STREAMS_PER_PEER,
      ss_max_outstanding = MAX_OUTSTANDING_STREAM_IDS\<rparr>"

definition with_max_active_streams :: "stream_sequences \<Rightarrow> nat \<Rightarrow> stream_sequences" where
  "with_max_active_streams s max_active = s\<lparr>ss_max_active := max_active\<rparr>"

definition with_max_outstanding_ids :: "stream_sequences \<Rightarrow> u64 \<Rightarrow> stream_sequences" where
  "with_max_outstanding_ids s max_outstanding = s\<lparr>ss_max_outstanding := max_outstanding\<rparr>"

text \<open>\<open>lane_state\<close> inserts the initial state of a lane on its first use.\<close>

definition lane_state :: "stream_sequences \<Rightarrow> remote_lane \<Rightarrow> stream_sequences \<times> lane_stream_state" where
  "lane_state s lane =
     (case bt_get (ss_lanes s) lane of
        Some st \<Rightarrow> (s, st)
      | None \<Rightarrow>
        let st = \<lparr>ls_retire_cursor = first_legal_ordinal lane, ls_closed = []\<rparr> in
        (s\<lparr>ss_lanes := bt_insert lane st (ss_lanes s)\<rparr>, st))"

definition sequences_accept ::
    "stream_sequences \<Rightarrow> remote_lane \<Rightarrow> u64 \<Rightarrow> u64 \<Rightarrow> stream_sequences \<times> (remote_transport_error + unit)" where
  "sequences_accept s lane stream_id stream_seq =
     (case bt_get (ss_next s) (lane, stream_id) of
        Some expected \<Rightarrow>
          if stream_seq < expected then (s, Inl (error_with_lane SequenceRegression lane))
          else if stream_seq > expected then (s, Inl (error_with_lane SequenceGap lane))
          else (case checked_add stream_seq 1 of
                  None \<Rightarrow> (s, Inl (error_with_lane SequenceWrap lane))
                | Some advanced \<Rightarrow>
                    (s\<lparr>ss_next := bt_insert (lane, stream_id) advanced (ss_next s)\<rparr>, Inr ()))
      | None \<Rightarrow>
          let ordinal = stream_ordinal (ss_origin s) stream_id; active = length (ss_next s) in
          case lane_state s lane of (s, st) \<Rightarrow>
            if ordinal < ls_retire_cursor st \<or> ordinal \<in> set (ls_closed st)
            then (s, Inl (error_with_lane StreamClosed lane))
            else if saturating_sub ordinal (ls_retire_cursor st) \<ge> ss_max_outstanding s
            then (s, Inl (error_with_lane StreamLimitExceeded lane))
            else if stream_seq \<noteq> 0 then (s, Inl (error_with_lane SequenceGap lane))
            else if active \<ge> ss_max_active s then (s, Inl (error_with_lane StreamLimitExceeded lane))
            else (s\<lparr>ss_next := bt_insert (lane, stream_id) 1 (ss_next s)\<rparr>, Inr ()))"

text \<open>The loop of \<open>close\<close>: absorb the contiguous closed ordinals into the prefix.\<close>

function absorb :: "lane_stream_state \<Rightarrow> lane_stream_state" where
  "absorb st =
     (if ls_retire_cursor st \<in> set (ls_closed st)
      then absorb (st\<lparr>ls_closed := removeAll (ls_retire_cursor st) (ls_closed st),
                      ls_retire_cursor := ls_retire_cursor st + 1\<rparr>)
      else st)"
  by pat_completeness auto
termination
  by (relation "measure (\<lambda>st. length (ls_closed st))") (auto intro!: length_removeAll_less)

declare absorb.simps [simp del]

definition sequences_close :: "stream_sequences \<Rightarrow> remote_lane \<Rightarrow> u64 \<Rightarrow> stream_sequences" where
  "sequences_close s lane stream_id =
     (let s = s\<lparr>ss_next := bt_remove (lane, stream_id) (ss_next s)\<rparr>;
          ordinal = stream_ordinal (ss_origin s) stream_id in
      case lane_state s lane of (s, st) \<Rightarrow>
        if ordinal < ls_retire_cursor st then s
        else s\<lparr>ss_lanes := bt_insert lane (absorb (st\<lparr>ls_closed := List.insert ordinal (ls_closed st)\<rparr>))
                  (ss_lanes s)\<rparr>)"

definition tracked_streams :: "stream_sequences \<Rightarrow> nat" where
  "tracked_streams s = length (ss_next s)"

definition pending_closed_ordinals :: "stream_sequences \<Rightarrow> nat" where
  "pending_closed_ordinals s = sum_list (map (\<lambda>st. length (ls_closed st)) (bt_values (ss_lanes s)))"

subsection \<open>The receive gate\<close>

text \<open>
  What the reassembler does with a complete frame: ownership, sequence, and retirement after a terminal
  frame (\<open>fragment.rs\<close>, end of \<open>RemoteFragmentReassembler::accept\<close>).
\<close>

definition gate_frame ::
    "stream_origin \<Rightarrow> stream_sequences \<Rightarrow> transport_frame \<Rightarrow> stream_sequences \<times> (remote_transport_error + unit)" where
  "gate_frame origin s frame =
     (case validate_stream_id (fr_stream_id frame) origin (fr_lane frame) of
        Inl e \<Rightarrow> (s, Inl e)
      | Inr _ \<Rightarrow>
        (case sequences_accept s (fr_lane frame) (fr_stream_id frame) (fr_stream_seq frame) of
           (s, Inl e) \<Rightarrow> (s, Inl e)
         | (s, Inr _) \<Rightarrow>
           (if flags_end_stream (fr_flags frame) \<or> flags_reset_stream (fr_flags frame)
            then sequences_close s (fr_lane frame) (fr_stream_id frame) else s, Inr ())))"

subsection \<open>Predicates\<close>

definition frame_ok :: "transport_frame \<Rightarrow> bool" where
  "frame_ok f \<longleftrightarrow> flags_from_bits (fr_flags f) \<noteq> None \<and> fr_frame_id f \<noteq> 0
     \<and> length (fr_payload f) \<le> lane_max_payload_bytes (fr_lane f)"

text \<open>
  The abstract view of retirement: the set of retired ordinals of a lane. The cursor and the closed
  list are a compact representation of it.
\<close>

definition retired_state :: "lane_stream_state \<Rightarrow> u64 set" where
  "retired_state st = {q. q < ls_retire_cursor st} \<union> set (ls_closed st)"

definition current_state :: "stream_sequences \<Rightarrow> remote_lane \<Rightarrow> lane_stream_state" where
  "current_state s lane =
     (case bt_get (ss_lanes s) lane of
        Some st \<Rightarrow> st | None \<Rightarrow> \<lparr>ls_retire_cursor = first_legal_ordinal lane, ls_closed = []\<rparr>)"

definition retired :: "stream_sequences \<Rightarrow> remote_lane \<Rightarrow> u64 set" where
  "retired s lane = retired_state (current_state s lane)"

definition stream_valid :: "stream_origin \<Rightarrow> remote_lane \<Rightarrow> u64 \<Rightarrow> bool" where
  "stream_valid origin lane stream_id \<longleftrightarrow> validate_stream_id stream_id origin lane = Inr ()"

definition lane_state_ok :: "nat \<Rightarrow> lane_stream_state \<Rightarrow> bool" where
  "lane_state_ok window st \<longleftrightarrow>
     distinct (ls_closed st) \<and> unat (ls_retire_cursor st) \<le> 2 ^ 63 + 1
     \<and> (\<forall>q \<in> set (ls_closed st). unat (ls_retire_cursor st) < unat q
          \<and> unat q < unat (ls_retire_cursor st) + window \<and> unat q \<le> 2 ^ 63)"

definition streams_inv :: "stream_origin \<Rightarrow> stream_sequences \<Rightarrow> bool" where
  "streams_inv origin s \<longleftrightarrow>
     bt_wf (ss_next s) \<and> bt_wf (ss_lanes s) \<and> ss_origin s = origin
     \<and> length (ss_next s) \<le> ss_max_active s
     \<and> (\<forall>lane. lane_state_ok (unat (ss_max_outstanding s)) (current_state s lane))
     \<and> (\<forall>lane i n. bt_get (ss_next s) (lane, i) = Some n \<longrightarrow>
          n \<noteq> 0 \<and> stream_valid origin lane i \<and> stream_ordinal origin i \<notin> retired s lane
          \<and> unat (stream_ordinal origin i)
              < unat (ls_retire_cursor (current_state s lane)) + unat (ss_max_outstanding s))"

text \<open>Frames offered one after the other, and those among them that pass.\<close>

fun gate_all ::
    "stream_origin \<Rightarrow> stream_sequences \<Rightarrow> transport_frame list \<Rightarrow> stream_sequences \<times> transport_frame list" where
  "gate_all origin s [] = (s, [])"
| "gate_all origin s (f # fs) =
     (case gate_frame origin s f of
        (s, Inl _) \<Rightarrow> gate_all origin s fs
      | (s, Inr _) \<Rightarrow> (case gate_all origin s fs of (s, passed) \<Rightarrow> (s, f # passed)))"

definition frame_terminal :: "transport_frame \<Rightarrow> bool" where
  "frame_terminal f \<longleftrightarrow> flags_end_stream (fr_flags f) \<or> flags_reset_stream (fr_flags f)"

definition on_stream :: "remote_lane \<Rightarrow> u64 \<Rightarrow> transport_frame list \<Rightarrow> transport_frame list" where
  "on_stream lane i fs = filter (\<lambda>f. fr_lane f = lane \<and> fr_stream_id f = i) fs"

text \<open>What the frames passed so far say of a stream, given the current state.\<close>

definition history_ok :: "stream_origin \<Rightarrow> stream_sequences \<Rightarrow> transport_frame list \<Rightarrow> bool" where
  "history_ok origin s h \<longleftrightarrow> (\<forall>lane i.
     map (\<lambda>f. unat (fr_stream_seq f)) (on_stream lane i h) = [0..<length (on_stream lane i h)]
     \<and> (\<forall>f \<in> set (butlast (on_stream lane i h)). \<not> frame_terminal f)
     \<and> (\<forall>n. bt_get (ss_next s) (lane, i) = Some n \<longrightarrow>
          length (on_stream lane i h) = unat n \<and> (\<forall>f \<in> set (on_stream lane i h). \<not> frame_terminal f))
     \<and> (bt_get (ss_next s) (lane, i) = None \<and> on_stream lane i h \<noteq> [] \<longrightarrow>
          stream_ordinal origin i \<in> retired s lane))"

section \<open>The frame codec\<close>

lemma flags_from_bits_iff: "flags_from_bits b = Some f \<longleftrightarrow> f = b \<and> flags_from_bits b \<noteq> None"
  by (auto simp: flags_from_bits_def split: if_splits)

lemma frame_encode_ok:
  assumes "frame_ok f"
  shows "frame_encode sha f = Inr ([1, lane_id (fr_lane f)] @ be16 (fr_flags f)
    @ be64 (fr_stream_id f) @ be64 (fr_stream_seq f) @ be128 (fr_frame_id f)
    @ be32 (of_nat (length (fr_payload f))) @ be256 (sha (fr_payload f)) @ fr_payload f)"
  using assms by (simp add: frame_encode_def validate_payload_cap_def frame_ok_def frame_consts)

lemma frame_decode_encode:
  assumes "frame_ok f" and "frame_encode sha f = Inr bs"
  shows "frame_decode sha bs = Inr f"
proof -
  have len: "length (fr_payload f) \<le> lane_max_payload_bytes (fr_lane f)"
    using assms(1) by (simp add: frame_ok_def)
  then have "length (fr_payload f) \<le> 524288"
    using lane_cap_bound [of "fr_lane f"] by simp
  then have u: "unat (of_nat (length (fr_payload f)) :: u32) = length (fr_payload f)"
    by (intro unat_of_nat_small) simp
  have bs: "bs = [1, lane_id (fr_lane f)] @ be16 (fr_flags f)
      @ be64 (fr_stream_id f) @ be64 (fr_stream_seq f) @ be128 (fr_frame_id f)
      @ be32 (of_nat (length (fr_payload f))) @ be256 (sha (fr_payload f)) @ fr_payload f"
    using assms by (simp add: frame_encode_ok)
  have "flags_from_bits (fr_flags f) = Some (fr_flags f)" "tag_protocol_id (fr_frame_id f) = Some (fr_frame_id f)"
    using assms(1) by (auto simp: frame_ok_def flags_from_bits_def tag_protocol_id_def split: if_splits)
  then show ?thesis
    using len u by (simp add: bs frame_decode_def frame_consts be_simps Let_def)
qed

lemma frame_encode_decode:
  assumes "frame_decode sha bs = Inr f"
  shows "frame_ok f \<and> frame_encode sha f = Inr bs"
proof -
  have len: "72 \<le> length bs" "length bs = 72 + unat (rd32 36 bs)"
      "unat (rd32 36 bs) \<le> lane_max_payload_bytes (fr_lane f)"
    and hd: "bs ! 0 = 1" "lane_id (fr_lane f) = bs ! 1" "flags_from_bits (rd16 2 bs) \<noteq> None"
      "rd128 20 bs \<noteq> 0"
    and f: "fr_flags f = rd16 2 bs" "fr_stream_id f = rd64 4 bs" "fr_stream_seq f = rd64 12 bs"
      "fr_frame_id f = rd128 20 bs" "fr_payload f = drop 72 bs" "sha (drop 72 bs) = rd256 40 bs"
    using assms
    by (auto simp: frame_decode_def frame_consts Let_def result_simps from_lane_id_canonical
        flags_from_bits_def tag_protocol_id_def not_less split: if_splits)
  have "bs = [bs ! 0, bs ! 1] @ be16 (rd16 2 bs) @ be64 (rd64 4 bs) @ be64 (rd64 12 bs)
      @ be128 (rd128 20 bs) @ be32 (rd32 36 bs) @ be256 (rd256 40 bs) @ drop 72 bs"
    using fields_eq [of 0 "[1, 1, 2, 8, 8, 16, 4, 32]" bs] len(1)
    by (simp add: bslice_one be_simps del: One_nat_def)
  moreover have "of_nat (length (drop 72 bs)) = rd32 36 bs"
    using len by simp
  moreover have ok: "frame_ok f"
    using len hd f by (simp add: frame_ok_def)
  ultimately show ?thesis
    using frame_encode_ok [OF ok, of sha] hd f by simp
qed

interpretation frame_codec: wire_codec "frame_encode sha" "frame_decode sha" frame_ok for sha
  by unfold_locales
    (auto simp: frame_encode_ok intro: frame_decode_encode dest: frame_encode_decode)

section \<open>Stream ordinals\<close>

lemma unat_half: "unat (i div 2 :: u64) = unat i div 2" and unat_parity: "unat (i mod 2 :: u64) = unat i mod 2"
  by (simp_all add: unat_div unat_mod)

lemma stream_valid_parity:
  assumes "stream_valid origin lane i"
  shows "(i = 0 \<and> lane = Lane_Control) \<or> (i \<noteq> 0 \<and> (case origin of Origin_Client \<Rightarrow> unat i mod 2 = 0
    | Origin_Daemon \<Rightarrow> unat i mod 2 = 1))"
proof -
  have "i mod 2 = 0 \<longleftrightarrow> unat i mod 2 = 0"
    using unat_parity [of i] by (simp add: word_unat_eq_iff)
  then show ?thesis
    using assms
    by (auto simp: stream_valid_def validate_stream_id_def origin_of_stream_id_def CONTROL_STREAM_ID_def
        split: if_splits stream_origin.splits)
qed

lemma unat_stream_ordinal:
  "unat (stream_ordinal origin i) = (case origin of Origin_Client \<Rightarrow> unat i div 2 | Origin_Daemon \<Rightarrow> (unat i + 1) div 2)"
proof -
  have odd: "i mod 2 \<noteq> 0 \<longleftrightarrow> unat i mod 2 = 1"
    using unat_parity [of i] by (auto simp: word_unat_eq_iff)
  have lt: "unat i < 2 ^ 64"
    using unsigned_less [of i, where 'a = nat] by simp
  then have "unat (i div 2 + 1) = unat i div 2 + 1"
    by (subst unat_add_no_wrap) (simp_all add: unat_half)
  then show ?thesis
    using odd by (auto simp: stream_ordinal_def CONTROL_STREAM_ID_def unat_half split: stream_origin.splits)
      presburger+
qed

lemma stream_ordinal_bound: "unat (stream_ordinal origin i) \<le> 2 ^ 63"
proof -
  have "unat i < 2 ^ 64"
    using unsigned_less [of i, where 'a = nat] by simp
  then show ?thesis by (auto simp: unat_stream_ordinal split: stream_origin.splits)
qed

lemma stream_ordinal_inject:
  assumes "stream_valid origin lane i" and "stream_valid origin lane j"
    and "stream_ordinal origin i = stream_ordinal origin j"
  shows "i = j"
proof -
  have eq: "unat (stream_ordinal origin i) = unat (stream_ordinal origin j)"
    using assms(3) by simp
  note par = stream_valid_parity [OF assms(1)] stream_valid_parity [OF assms(2)]
  have "unat i = unat j"
  proof (cases origin)
    case Origin_Client
    then have "unat i mod 2 = 0" "unat j mod 2 = 0" "unat i div 2 = unat j div 2"
      using par eq by (auto simp: unat_stream_ordinal)
    then show ?thesis by presburger
  next
    case Origin_Daemon
    then have "unat i = 0 \<or> unat i mod 2 = 1" "unat j = 0 \<or> unat j mod 2 = 1"
        "(unat i + 1) div 2 = (unat j + 1) div 2"
      using par eq by (auto simp: unat_stream_ordinal)
    then show ?thesis by presburger
  qed
  then show ?thesis by (simp add: word_unat_eq_iff)
qed

section \<open>Retirement refines a set of retired ordinals\<close>

lemma absorb_ok:
  assumes "distinct (ls_closed st)" and "unat (ls_retire_cursor st) \<le> 2 ^ 63 + 1"
    and "\<forall>q \<in> set (ls_closed st). unat (ls_retire_cursor st) \<le> unat q
          \<and> unat q < unat (ls_retire_cursor st) + window \<and> unat q \<le> 2 ^ 63"
  shows "retired_state (absorb st) = retired_state st \<and> lane_state_ok window (absorb st)
    \<and> ls_retire_cursor st \<le> ls_retire_cursor (absorb st)"
  using assms
proof (induction st rule: absorb.induct)
  case (1 st)
  let ?c = "ls_retire_cursor st"
  show ?case
  proof (cases "?c \<in> set (ls_closed st)")
    case False
    then have "\<forall>q \<in> set (ls_closed st). unat ?c \<noteq> unat q"
      by (auto simp: word_unat_eq_iff [symmetric])
    with "1.prems" False show ?thesis
      by (auto simp: absorb.simps [of st] lane_state_ok_def le_neq_trans)
  next
    case True
    let ?st = "st\<lparr>ls_closed := removeAll ?c (ls_closed st), ls_retire_cursor := ?c + 1\<rparr>"
    have small: "unat ?c \<le> 2 ^ 63" using "1.prems"(3) True by blast
    then have succ: "unat (?c + 1) = unat ?c + 1"
      by (simp add: unat_add_no_wrap)
    have pre: "\<forall>q \<in> set (ls_closed ?st). unat (ls_retire_cursor ?st) \<le> unat q
        \<and> unat q < unat (ls_retire_cursor ?st) + window \<and> unat q \<le> 2 ^ 63"
    proof
      fix q assume "q \<in> set (ls_closed ?st)"
      then have q: "q \<in> set (ls_closed st)" "q \<noteq> ?c" by auto
      with "1.prems"(3) have "unat ?c \<le> unat q" "unat q < unat ?c + window" "unat q \<le> 2 ^ 63"
        by blast+
      moreover have "unat ?c \<noteq> unat q" using q(2) by (simp add: word_unat_eq_iff)
      ultimately show "unat (ls_retire_cursor ?st) \<le> unat q
          \<and> unat q < unat (ls_retire_cursor ?st) + window \<and> unat q \<le> 2 ^ 63"
        using succ by simp
    qed
    have below: "q < ?c + 1 \<longleftrightarrow> q < ?c \<or> q = ?c" for q
      using succ by (auto simp: word_less_nat_alt less_Suc_eq word_unat_eq_iff)
    have "retired_state ?st = retired_state st"
      using True by (auto simp: retired_state_def below)
    moreover have "absorb st = absorb ?st"
      using True by (subst absorb.simps) simp
    moreover have "?c \<le> ?c + 1" using succ by (simp add: word_le_nat_alt)
    ultimately show ?thesis
      using "1.IH" [OF True _ _ pre] "1.prems"(1) small succ by (auto simp: distinct_removeAll)
  qed
qed

lemma current_state_lane_state:
  assumes "lane_state s lane = (s', st)"
  shows "st = current_state s lane" "current_state s' l = current_state s l" "ss_next s' = ss_next s"
    "ss_origin s' = ss_origin s" "ss_max_active s' = ss_max_active s" "ss_max_outstanding s' = ss_max_outstanding s"
    "bt_wf (ss_lanes s) \<Longrightarrow> bt_wf (ss_lanes s')"
  using assms by (auto simp: lane_state_def current_state_def Let_def split: option.splits if_splits)

lemma streams_inv_lane_state:
  assumes "streams_inv origin s" and "lane_state s lane = (s', st)"
  shows "streams_inv origin s'"
  using assms(1) current_state_lane_state [OF assms(2)]
  by (simp add: streams_inv_def retired_def)

text \<open>Closing a stream adds exactly its ordinal to the retired set of its lane.\<close>

lemma sequences_close_ok:
  assumes inv: "streams_inv origin s" and opn: "bt_get (ss_next s) (lane, i) = Some n"
  shows "streams_inv origin (sequences_close s lane i)"
    and "retired (sequences_close s lane i) l
        = (if l = lane then insert (stream_ordinal origin i) (retired s lane) else retired s l)"
    and "ss_next (sequences_close s lane i) = bt_remove (lane, i) (ss_next s)"
proof -
  let ?q = "stream_ordinal origin i" and ?w = "unat (ss_max_outstanding s)"
  let ?s1 = "s\<lparr>ss_next := bt_remove (lane, i) (ss_next s)\<rparr>"
  obtain s2 st where ls: "lane_state ?s1 lane = (s2, st)" by fastforce
  note frame = current_state_lane_state [OF ls]
  have cs1: "current_state ?s1 l = current_state s l" for l by (simp add: current_state_def)
  have st: "st = current_state s lane" using frame(1) cs1 by simp
  let ?st = "st\<lparr>ls_closed := List.insert ?q (ls_closed st)\<rparr>"
  have ok: "lane_state_ok ?w st" and q: "?q \<notin> retired_state st"
      "unat ?q < unat (ls_retire_cursor st) + ?w" "stream_valid origin lane i"
    using inv opn by (auto simp: streams_inv_def st retired_def)
  have ge: "\<not> ?q < ls_retire_cursor st" using q(1) by (simp add: retired_state_def)
  have "\<forall>x \<in> set (ls_closed ?st). unat (ls_retire_cursor ?st) \<le> unat x
      \<and> unat x < unat (ls_retire_cursor ?st) + ?w \<and> unat x \<le> 2 ^ 63"
    using ok ge q(2) stream_ordinal_bound [of origin i]
    by (auto simp: lane_state_ok_def word_less_nat_alt not_less)
  then have ab: "retired_state (absorb ?st) = retired_state ?st" "lane_state_ok ?w (absorb ?st)"
      "ls_retire_cursor st \<le> ls_retire_cursor (absorb ?st)"
    using absorb_ok [of ?st ?w] ok by (auto simp: lane_state_ok_def)
  have o: "ss_origin s = origin" using inv by (simp add: streams_inv_def)
  have fin: "sequences_close s lane i = s2\<lparr>ss_lanes := bt_insert lane (absorb ?st) (ss_lanes s2)\<rparr>"
    using ge ls o by (simp add: sequences_close_def)
  have cs: "current_state (sequences_close s lane i) l = (if l = lane then absorb ?st else current_state s l)" for l
    using frame(2) [of l] cs1 [of l] by (auto simp: fin current_state_def)
  show nxt: "ss_next (sequences_close s lane i) = bt_remove (lane, i) (ss_next s)"
    using frame(3) by (simp add: fin)
  show ret: "retired (sequences_close s lane i) l
      = (if l = lane then insert ?q (retired s lane) else retired s l)" for l
    using ab(1) st by (auto simp: retired_def cs retired_state_def)
  have "stream_ordinal origin j \<notin> retired (sequences_close s lane i) l
      \<and> unat (stream_ordinal origin j) < unat (ls_retire_cursor (current_state (sequences_close s lane i) l)) + ?w
      \<and> m \<noteq> 0 \<and> stream_valid origin l j"
    if "bt_get (bt_remove (lane, i) (ss_next s)) (l, j) = Some m" for l j m
  proof -
    have ne: "(l, j) \<noteq> (lane, i)" and get: "bt_get (ss_next s) (l, j) = Some m"
      using that by (auto split: if_splits)
    have old: "stream_ordinal origin j \<notin> retired s l" "m \<noteq> 0" "stream_valid origin l j"
        "unat (stream_ordinal origin j) < unat (ls_retire_cursor (current_state s l)) + ?w"
      using inv get by (auto simp: streams_inv_def)
    moreover have "l = lane \<Longrightarrow> stream_ordinal origin j \<noteq> ?q"
      using stream_ordinal_inject [OF _ q(3), of j] old(3) ne by auto
    moreover have "unat (ls_retire_cursor (current_state s l))
        \<le> unat (ls_retire_cursor (current_state (sequences_close s lane i) l))"
      using ab(3) st by (auto simp: cs word_le_nat_alt)
    ultimately show ?thesis by (auto simp: ret)
  qed
  moreover have "lane_state_ok ?w (current_state (sequences_close s lane i) l)" for l
    using inv ab(2) by (simp add: cs streams_inv_def)
  moreover have "length (bt_remove (lane, i) (ss_next s)) \<le> length (ss_next s)"
    by (simp add: bt_remove_def)
  ultimately show "streams_inv origin (sequences_close s lane i)"
    using inv frame nxt
    by (simp add: streams_inv_def fin del: bt_get_remove)
qed

lemma sequences_accept_error:
  assumes "streams_inv origin s" and "sequences_accept s lane i q = (s', Inl e)"
  shows "streams_inv origin s' \<and> ss_next s' = ss_next s \<and> retired s' l = retired s l"
proof (cases "bt_get (ss_next s) (lane, i)")
  case (Some n)
  then show ?thesis
    using assms by (auto simp: sequences_accept_def split: if_splits option.splits)
next
  case None
  obtain s1 st where ls: "lane_state s lane = (s1, st)" by fastforce
  have "s' = s1"
    using assms(2) None ls by (auto simp: sequences_accept_def Let_def split: if_splits)
  then show ?thesis
    using streams_inv_lane_state [OF assms(1) ls] current_state_lane_state [OF ls]
    by (simp add: retired_def)
qed

text \<open>An accepted frame continues an open stream, or opens one whose ordinal is not retired.\<close>

lemma sequences_accept_ok:
  assumes inv: "streams_inv origin s" and val: "stream_valid origin lane i"
    and acc: "sequences_accept s lane i q = (s', Inr ())"
  shows "streams_inv origin s'" and "retired s' l = retired s l"
    and "\<exists>m. ss_next s' = bt_insert (lane, i) m (ss_next s) \<and> unat m = unat q + 1"
    and "case bt_get (ss_next s) (lane, i) of Some n \<Rightarrow> q = n
      | None \<Rightarrow> q = 0 \<and> stream_ordinal origin i \<notin> retired s lane"
proof -
  have o: "ss_origin s = origin" using inv by (simp add: streams_inv_def)
  have "streams_inv origin s' \<and> (\<forall>l. retired s' l = retired s l)
    \<and> (\<exists>m. ss_next s' = bt_insert (lane, i) m (ss_next s) \<and> unat m = unat q + 1)
    \<and> (case bt_get (ss_next s) (lane, i) of Some n \<Rightarrow> q = n
      | None \<Rightarrow> q = 0 \<and> stream_ordinal origin i \<notin> retired s lane)"
  proof (cases "bt_get (ss_next s) (lane, i)")
    case (Some n)
    obtain m where m: "q = n" "unat m = unat q + 1" "s' = s\<lparr>ss_next := bt_insert (lane, i) m (ss_next s)\<rparr>"
      using acc Some by (auto simp: sequences_accept_def arith_simps split: if_splits option.splits)
    have cs: "current_state s' l = current_state s l" for l
      by (simp add: m(3) current_state_def)
    have "m \<noteq> 0" using m(2) by auto
    then have "streams_inv origin s'"
      using inv Some bt.len_replace [of "ss_next s" "(lane, i)" n m] val
      by (auto simp: streams_inv_def m(3) retired_def cs [unfolded m(3)])
    then show ?thesis
      using Some m cs by (auto simp: retired_def)
  next
    case None
    obtain s1 st where ls: "lane_state s lane = (s1, st)" by fastforce
    note frame = current_state_lane_state [OF ls]
    let ?q = "stream_ordinal origin i"
    have a: "q = 0" "?q \<notin> retired s lane" "\<not> saturating_sub ?q (ls_retire_cursor st) \<ge> ss_max_outstanding s"
        "length (ss_next s) < ss_max_active s" "s' = s1\<lparr>ss_next := bt_insert (lane, i) 1 (ss_next s)\<rparr>"
      using acc None ls o frame
      by (auto simp: sequences_accept_def Let_def retired_def retired_state_def split: if_splits)
    have cs: "current_state s' l = current_state s l" for l
      using frame(2) [of l] by (simp add: a(5) current_state_def)
    have "\<not> ?q < ls_retire_cursor st"
      using a(2) frame(1) by (simp add: retired_def retired_state_def)
    then have "unat ?q < unat (ls_retire_cursor (current_state s lane)) + unat (ss_max_outstanding s)"
      using a(3) frame(1) by (simp add: arith_simps word_le_nat_alt word_less_nat_alt)
    moreover have "length (bt_insert (lane, i) 1 (ss_next s)) = Suc (length (ss_next s))"
      using None by (rule length_bt_insert_new)
    ultimately have "streams_inv origin s'"
      using inv val a frame
      by (auto simp: streams_inv_def retired_def cs [unfolded a(5)])
    then show ?thesis
      using None a cs by (auto simp: retired_def)
  qed
  then show "streams_inv origin s'" and "retired s' l = retired s l"
    and "\<exists>m. ss_next s' = bt_insert (lane, i) m (ss_next s) \<and> unat m = unat q + 1"
    and "case bt_get (ss_next s) (lane, i) of Some n \<Rightarrow> q = n
      | None \<Rightarrow> q = 0 \<and> stream_ordinal origin i \<notin> retired s lane"
    by blast+
qed

section \<open>The receive gate\<close>

lemma on_stream_snoc:
  "on_stream lane i (h @ [f]) = on_stream lane i h @ (if fr_lane f = lane \<and> fr_stream_id f = i then [f] else [])"
  by (simp add: on_stream_def)

lemma gate_frame_error:
  assumes "streams_inv origin s" and "history_ok origin s h" and "gate_frame origin s f = (s', Inl e)"
  shows "streams_inv origin s' \<and> history_ok origin s' h"
proof -
  have "s' = s \<or> sequences_accept s (fr_lane f) (fr_stream_id f) (fr_stream_seq f) = (s', Inl e)"
    using assms(3) by (auto simp: gate_frame_def split: sum.splits prod.splits)
  then have "streams_inv origin s' \<and> ss_next s' = ss_next s \<and> (\<forall>l. retired s' l = retired s l)"
    using sequences_accept_error [OF assms(1)] assms(1) by blast
  then show ?thesis
    using assms(2) by (simp add: history_ok_def)
qed

lemma gate_frame_passes:
  assumes inv: "streams_inv origin s" and hist: "history_ok origin s h" and gate: "gate_frame origin s f = (s', Inr ())"
  shows "streams_inv origin s' \<and> history_ok origin s' (h @ [f])"
proof -
  let ?l = "fr_lane f" and ?i = "fr_stream_id f" and ?q = "fr_stream_seq f"
  have val: "stream_valid origin ?l ?i"
    using gate by (auto simp: gate_frame_def stream_valid_def split: sum.splits prod.splits)
  obtain s1 where acc: "sequences_accept s ?l ?i ?q = (s1, Inr ())"
    and s': "s' = (if frame_terminal f then sequences_close s1 ?l ?i else s1)"
    using gate by (auto simp: gate_frame_def frame_terminal_def split: sum.splits prod.splits if_splits)
  note a = sequences_accept_ok [OF inv val acc]
  obtain m where m: "ss_next s1 = bt_insert (?l, ?i) m (ss_next s)" "unat m = unat ?q + 1" using a(3) by blast
  have opn: "bt_get (ss_next s1) (?l, ?i) = Some m" using m by simp
  note c = sequences_close_ok [OF a(1) opn]
  let ?h = "on_stream ?l ?i h"
  have len: "length ?h = unat ?q \<and> (\<forall>f \<in> set ?h. \<not> frame_terminal f)"
    using a(4) hist [unfolded history_ok_def, rule_format, of ?l ?i] by (auto split: option.splits)
  have "streams_inv origin s'" using s' a(1) c(1) by simp
  moreover have "history_ok origin s' (h @ [f])"
    unfolding history_ok_def
  proof (intro allI)
    fix l i
    note old = hist [unfolded history_ok_def, rule_format, of l i]
    have sub: "retired s l \<subseteq> retired s' l"
      using s' a(2) c(2) by (auto split: if_splits)
    show "map (\<lambda>f. unat (fr_stream_seq f)) (on_stream l i (h @ [f])) = [0..<length (on_stream l i (h @ [f]))]
        \<and> (\<forall>f \<in> set (butlast (on_stream l i (h @ [f]))). \<not> frame_terminal f)
        \<and> (\<forall>n. bt_get (ss_next s') (l, i) = Some n \<longrightarrow>
             length (on_stream l i (h @ [f])) = unat n \<and> (\<forall>f \<in> set (on_stream l i (h @ [f])). \<not> frame_terminal f))
        \<and> (bt_get (ss_next s') (l, i) = None \<and> on_stream l i (h @ [f]) \<noteq> [] \<longrightarrow>
             stream_ordinal origin i \<in> retired s' l)"
    proof (cases "l = ?l \<and> i = ?i")
      case True
      then show ?thesis
        using old len s' m c by (auto simp: on_stream_snoc)
    next
      case False
      then have "bt_get (ss_next s') (l, i) = bt_get (ss_next s) (l, i)"
        using s' m(1) c(3) by auto
      then show ?thesis
        using old False sub by (auto simp: on_stream_snoc)
    qed
  qed
  ultimately show ?thesis by blast
qed

lemma gate_all_ok:
  assumes "streams_inv origin s" and "history_ok origin s h" and "gate_all origin s fs = (s', passed)"
  shows "streams_inv origin s' \<and> history_ok origin s' (h @ passed)"
  using assms
proof (induction fs arbitrary: s h passed)
  case Nil
  then show ?case by simp
next
  case (Cons f fs)
  obtain s1 r where g: "gate_frame origin s f = (s1, r)" by fastforce
  show ?case
  proof (cases r)
    case (Inl e)
    then show ?thesis
      using Cons.IH [of s1 h passed] gate_frame_error [OF Cons.prems(1,2)] Cons.prems(3) g by auto
  next
    case (Inr u)
    then obtain rest where rest: "gate_all origin s1 fs = (s', rest)" "passed = f # rest"
      using Cons.prems(3) g by (auto split: prod.splits)
    have "streams_inv origin s1 \<and> history_ok origin s1 (h @ [f])"
      using gate_frame_passes [OF Cons.prems(1,2)] g Inr by simp
    then show ?thesis
      using Cons.IH [of s1 "h @ [f]" rest] rest by simp
  qed
qed

lemma streams_inv_new: "streams_inv origin (sequences_new origin)"
proof -
  have "unat (first_legal_ordinal lane) \<le> 2 ^ 63 + 1" for lane by (cases lane) simp_all
  then show ?thesis
    by (auto simp: streams_inv_def sequences_new_def current_state_def lane_state_ok_def)
qed

lemma history_ok_new: "history_ok origin (sequences_new origin) []"
  by (simp add: history_ok_def on_stream_def sequences_new_def)

section \<open>Budgets\<close>

lemma config_accept:
  assumes "sequences_accept s lane i q = (s', r)"
  shows "ss_max_active s' = ss_max_active s \<and> ss_max_outstanding s' = ss_max_outstanding s"
proof -
  obtain s1 st where ls: "lane_state s lane = (s1, st)" by fastforce
  show ?thesis
    using assms ls current_state_lane_state(5,6) [OF ls]
    by (auto simp: sequences_accept_def Let_def split: option.splits if_splits)
qed

lemma config_close:
  "ss_max_active (sequences_close s lane i) = ss_max_active s
   \<and> ss_max_outstanding (sequences_close s lane i) = ss_max_outstanding s"
proof -
  let ?s = "s\<lparr>ss_next := bt_remove (lane, i) (ss_next s)\<rparr>"
  obtain s1 st where ls: "lane_state ?s lane = (s1, st)" by fastforce
  show ?thesis
    using ls current_state_lane_state(5,6) [OF ls] by (simp add: sequences_close_def Let_def)
qed

lemma config_gate_all:
  "ss_max_active (fst (gate_all origin s fs)) = ss_max_active s
   \<and> ss_max_outstanding (fst (gate_all origin s fs)) = ss_max_outstanding s"
proof (induction fs arbitrary: s)
  case Nil
  then show ?case by simp
next
  case (Cons f fs)
  obtain s1 r where g: "gate_frame origin s f = (s1, r)" by fastforce
  then have "ss_max_active s1 = ss_max_active s \<and> ss_max_outstanding s1 = ss_max_outstanding s"
    using config_accept config_close
    by (auto simp: gate_frame_def split: sum.splits prod.splits if_splits)
  then show ?case
    using Cons.IH [of s1] g by (auto split: sum.splits prod.splits)
qed

lemma closed_bounded:
  assumes "lane_state_ok window st"
  shows "length (ls_closed st) \<le> window - 1"
proof -
  let ?c = "unat (ls_retire_cursor st)"
  have "unat ` set (ls_closed st) \<subseteq> {?c<..<?c + window}"
    using assms by (auto simp: lane_state_ok_def)
  from card_mono [OF _ this] have "card (unat ` set (ls_closed st)) \<le> window - 1" by simp
  moreover have "card (unat ` set (ls_closed st)) = length (ls_closed st)"
    using assms by (simp add: lane_state_ok_def card_image inj_on_def word_unat_eq_iff distinct_card)
  ultimately show ?thesis by simp
qed

lemma lanes_at_most_three:
  assumes "bt_wf (m :: (remote_lane, 'v) btree)"
  shows "length m \<le> 3"
proof -
  have "set (map fst m) \<subseteq> {Lane_Control, Lane_Interactive, Lane_Bulk}"
    using remote_lane.exhaust by blast
  from card_mono [OF _ this] have "card (set (map fst m)) \<le> 3" by simp
  then show ?thesis
    using distinct_card [OF bt_wf_distinct [OF assms]] by simp
qed

lemma pending_closed_bounded:
  assumes "streams_inv origin s" and "0 < ss_max_outstanding s"
  shows "pending_closed_ordinals s \<le> 3 * (unat (ss_max_outstanding s) - 1)"
proof -
  let ?w = "unat (ss_max_outstanding s) - 1"
  have wf: "bt_wf (ss_lanes s)" using assms(1) by (simp add: streams_inv_def)
  have "length (ls_closed (snd e)) \<le> ?w" if "e \<in> set (ss_lanes s)" for e
  proof -
    have "bt_get (ss_lanes s) (fst e) = Some (snd e)"
      using that wf by (simp add: bt_get_eq_Some_iff)
    then have "current_state s (fst e) = snd e" by (simp add: current_state_def)
    with assms(1) have "lane_state_ok (unat (ss_max_outstanding s)) (snd e)"
      unfolding streams_inv_def by metis
    then show ?thesis by (rule closed_bounded)
  qed
  then have "sum_list (map (\<lambda>e. length (ls_closed (snd e))) (ss_lanes s)) \<le> sum_list (map (\<lambda>e. ?w) (ss_lanes s))"
    by (intro sum_list_mono) auto
  also have "\<dots> = length (ss_lanes s) * ?w" by (simp add: sum_list_triv)
  also have "\<dots> \<le> 3 * ?w"
    using lanes_at_most_three [OF wf] by (rule mult_le_mono1)
  finally show ?thesis
    by (simp add: pending_closed_ordinals_def bt_values_def o_def)
qed

section \<open>Properties\<close>

text \<open>
  The frame codec is exact, for any digest function: a byte string decodes to a frame exactly when
  the frame is well formed (defined flags, nonzero id, payload within its lane's cap) and encodes to
  that byte string, and a well-formed frame always encodes.
\<close>

theorem frame_codec_exact:
  "(frame_decode sha bs = Inr f \<longleftrightarrow> frame_ok f \<and> frame_encode sha f = Inr bs)
   \<and> (frame_ok f \<longrightarrow> is_ok (frame_encode sha f))"
  using frame_codec.dec_iff [of sha bs f] frame_codec.enc_total [of f sha] by (auto simp: is_ok_iff)

theorem frame_codec_exact_witness:
  "frame_ok \<lparr>fr_lane = Lane_Bulk, fr_flags = 1, fr_stream_id = 4, fr_stream_seq = 7, fr_frame_id = 9, fr_payload = [1, 2]\<rparr>
   \<and> is_ok (frame_encode (\<lambda>_. 0)
       \<lparr>fr_lane = Lane_Bulk, fr_flags = 1, fr_stream_id = 4, fr_stream_seq = 7, fr_frame_id = 9, fr_payload = [1, 2]\<rparr>)"
proof -
  let ?f = "\<lparr>fr_lane = Lane_Bulk, fr_flags = 1, fr_stream_id = 4, fr_stream_seq = 7, fr_frame_id = 9, fr_payload = [1, 2]\<rparr>"
  have "frame_ok ?f"
    by (simp add: frame_ok_def flags_from_bits_def FLAGS_DEFINED_def FLAG_END_STREAM_def FLAG_RESET_STREAM_def
        lane_consts)
  then show ?thesis
    using frame_codec_exact [of "\<lambda>_. 0" "[]" ?f] by blast
qed

text \<open>
  Order and finality per stream. Whatever frames a peer's gate is offered, the frames that pass on
  one stream of one lane carry the sequence numbers \<open>0, 1, 2, ...\<close> in order, and none passes after a
  terminal frame of that stream.
\<close>

theorem stream_frames_in_order:
  "let passed = on_stream lane i (snd (gate_all origin (sequences_new origin) fs)) in
     map (\<lambda>f. unat (fr_stream_seq f)) passed = [0..<length passed] \<and> list_all (\<lambda>f. \<not> frame_terminal f) (butlast passed)"
proof -
  obtain s passed where g: "gate_all origin (sequences_new origin) fs = (s, passed)" by fastforce
  from gate_all_ok [OF streams_inv_new history_ok_new g] have "history_ok origin s passed" by simp
  then show ?thesis
    by (simp add: g history_ok_def Let_def list_all_iff)
qed

text \<open>
  C9. Retirement refines a set. Seen as the set of retired ordinals of each lane, closing an open stream
  adds exactly that stream's ordinal on its lane and changes no other lane; and opening a stream whose
  ordinal is retired is refused as closed.
\<close>

theorem stream_retirement_refines_set:
  assumes "streams_inv origin s" and "bt_get (ss_next s) (lane, i) = Some n"
  shows "retired (sequences_close s lane i) l
      = (if l = lane then insert (stream_ordinal origin i) (retired s lane) else retired s l)
    \<and> snd (sequences_accept (sequences_close s lane i) lane i q) = Inl (error_with_lane StreamClosed lane)"
proof -
  note c = sequences_close_ok [OF assms]
  let ?t = "sequences_close s lane i"
  obtain t1 st where ls: "lane_state ?t lane = (t1, st)" by fastforce
  have "stream_ordinal origin i \<in> retired_state st"
    using c(2) [of lane] current_state_lane_state(1) [OF ls] by (simp add: retired_def)
  moreover have "ss_origin ?t = origin" "bt_get (ss_next ?t) (lane, i) = None"
    using c(1) c(3) by (simp_all add: streams_inv_def)
  ultimately show ?thesis
    using c(2) ls by (auto simp: sequences_accept_def Let_def retired_state_def)
qed

theorem stream_retirement_refines_set_witness:
  "snd (sequences_accept (sequences_close (fst (sequences_accept (sequences_new Origin_Client) Lane_Bulk 2 0)) Lane_Bulk 2)
     Lane_Bulk 2 0) = Inl (error_with_lane StreamClosed Lane_Bulk)"
proof -
  let ?s = "fst (sequences_accept (sequences_new Origin_Client) Lane_Bulk 2 0)"
  have val: "stream_valid Origin_Client Lane_Bulk 2"
    by (simp add: stream_valid_def validate_stream_id_def origin_of_stream_id_def CONTROL_STREAM_ID_def)
  have acc: "sequences_accept (sequences_new Origin_Client) Lane_Bulk 2 0 = (?s, Inr ())"
    by (simp add: sequences_accept_def sequences_new_def lane_state_def stream_ordinal_def CONTROL_STREAM_ID_def
        saturating_sub_def MAX_OUTSTANDING_STREAM_IDS_def MAX_ACTIVE_STREAMS_PER_PEER_def Let_def)
  obtain m where "bt_get (ss_next ?s) (Lane_Bulk, 2) = Some m"
    using sequences_accept_ok(3) [OF streams_inv_new val acc] by auto
  from stream_retirement_refines_set [OF sequences_accept_ok(1) [OF streams_inv_new val acc] this]
  show ?thesis by blast
qed

text \<open>
  Bounded stream state. Whatever a peer sends, at most 256 streams are open and at most
  \<open>3 * 1023\<close> closed ordinals wait outside the retirement prefixes.
\<close>

theorem stream_state_bounded:
  "let s = fst (gate_all origin (sequences_new origin) fs) in
     tracked_streams s \<le> MAX_ACTIVE_STREAMS_PER_PEER
     \<and> pending_closed_ordinals s \<le> 3 * (unat MAX_OUTSTANDING_STREAM_IDS - 1)"
proof -
  obtain s passed where g: "gate_all origin (sequences_new origin) fs = (s, passed)" by fastforce
  from gate_all_ok [OF streams_inv_new history_ok_new g] have inv: "streams_inv origin s" by simp
  have "ss_max_active s = MAX_ACTIVE_STREAMS_PER_PEER" "ss_max_outstanding s = MAX_OUTSTANDING_STREAM_IDS"
    using config_gate_all [of origin "sequences_new origin" fs] g by (simp_all add: sequences_new_def)
  moreover from this have "0 < ss_max_outstanding s" by (simp add: MAX_OUTSTANDING_STREAM_IDS_def)
  ultimately show ?thesis
    using inv pending_closed_bounded [OF inv] by (simp add: g streams_inv_def tracked_streams_def)
qed

end
