(* ===== verification/Remote_Fragment.thy ===== *)
theory Remote_Fragment
  imports Remote_Frame
begin

text \<open>
  Carrier fragments and reassembly (\<open>crates/cockpit-proto/src/remote_transport/fragment.rs\<close>): the
  fragment codec, the canonical split of a serialized frame, and \<open>RemoteFragmentReassembler\<close> with its
  budgets, its memory of completed frames and the receive gate at its exit.

  The \<open>HashMap\<close>s of the reassembler are read by key and by size. The one place where the iteration
  order of a \<open>HashMap\<close> is visible is the eviction from the completion memory (\<open>min_by_key\<close> with equal
  times): that order is the parameter \<open>iter\<close>.

  Shown here: the codec is exact; the split concatenates back to the frame and each fragment fits its
  carrier; fragments arriving in any order, at any times within the deadline, yield exactly the
  frame; the frame, byte and memory budgets hold whatever arrives; dispatched frames are in order per
  stream and none repeats a remembered id.
\<close>

section \<open>Definitions\<close>

subsection \<open>Carrier fragments\<close>

definition REMOTE_CARRIER_FRAGMENT_VERSION :: u8 where "REMOTE_CARRIER_FRAGMENT_VERSION = 1"
definition REMOTE_CARRIER_FRAGMENT_HEADER_BYTES :: nat where "REMOTE_CARRIER_FRAGMENT_HEADER_BYTES = 26"
definition NOISE_RECORD_MAX_CIPHERTEXT_BYTES :: nat where "NOISE_RECORD_MAX_CIPHERTEXT_BYTES = 65535"
definition NOISE_AEAD_TAG_BYTES :: nat where "NOISE_AEAD_TAG_BYTES = 16"
definition NOISE_MAX_PLAINTEXT_BYTES :: nat where
  "NOISE_MAX_PLAINTEXT_BYTES = NOISE_RECORD_MAX_CIPHERTEXT_BYTES - NOISE_AEAD_TAG_BYTES"
definition NOISE_RECORD_HEADER_BYTES :: nat where "NOISE_RECORD_HEADER_BYTES = 14"
definition NOISE_RECORD_PAYLOAD_BYTES :: nat where
  "NOISE_RECORD_PAYLOAD_BYTES = NOISE_MAX_PLAINTEXT_BYTES - NOISE_RECORD_HEADER_BYTES"
definition PEER_SEEN_THROUGH_WATERMARK_BYTES :: nat where "PEER_SEEN_THROUGH_WATERMARK_BYTES = 8"
definition LANE_FRAGMENT_TOTAL_BYTES :: nat where
  "LANE_FRAGMENT_TOTAL_BYTES = NOISE_RECORD_PAYLOAD_BYTES - PEER_SEEN_THROUGH_WATERMARK_BYTES"
definition REMOTE_CARRIER_FRAGMENT_MAX_PAYLOAD_BYTES :: nat where
  "REMOTE_CARRIER_FRAGMENT_MAX_PAYLOAD_BYTES = LANE_FRAGMENT_TOTAL_BYTES - REMOTE_CARRIER_FRAGMENT_HEADER_BYTES"
definition MAX_FRAGMENT_COUNT :: u16 where "MAX_FRAGMENT_COUNT = 9"
definition MAX_INCOMPLETE_FRAMES_PER_PEER :: nat where "MAX_INCOMPLETE_FRAMES_PER_PEER = 16"
definition MAX_REASSEMBLY_BYTES_PER_PEER :: nat where "MAX_REASSEMBLY_BYTES_PER_PEER = 8 * 1024 * 1024"
definition REASSEMBLY_DEADLINE_MS :: u64 where "REASSEMBLY_DEADLINE_MS = 5000"
definition MAX_COMPLETED_FRAME_MEMORY :: nat where "MAX_COMPLETED_FRAME_MEMORY = 64"

lemmas fragment_consts = REMOTE_CARRIER_FRAGMENT_VERSION_def REMOTE_CARRIER_FRAGMENT_HEADER_BYTES_def
  NOISE_RECORD_MAX_CIPHERTEXT_BYTES_def NOISE_AEAD_TAG_BYTES_def NOISE_MAX_PLAINTEXT_BYTES_def
  NOISE_RECORD_HEADER_BYTES_def NOISE_RECORD_PAYLOAD_BYTES_def PEER_SEEN_THROUGH_WATERMARK_BYTES_def
  LANE_FRAGMENT_TOTAL_BYTES_def REMOTE_CARRIER_FRAGMENT_MAX_PAYLOAD_BYTES_def MAX_FRAGMENT_COUNT_def

type_synonym fragment_flags = u16

definition FRAGMENT_END :: u16 where "FRAGMENT_END = 1"

definition fragment_flags_from_bits :: "u16 \<Rightarrow> fragment_flags option" where
  "fragment_flags_from_bits bits = (if bits AND (NOT FRAGMENT_END) \<noteq> 0 then None else Some bits)"

definition fragment_is_end :: "fragment_flags \<Rightarrow> bool" where
  "fragment_is_end f \<longleftrightarrow> f AND FRAGMENT_END \<noteq> 0"

record carrier_fragment =
  fg_lane :: remote_lane
  fg_flags :: fragment_flags
  fg_frame_id :: id16
  fg_index :: u16
  fg_count :: u16
  fg_bytes :: bytes

definition fragment_encoded_len :: "carrier_fragment \<Rightarrow> nat" where
  "fragment_encoded_len g = REMOTE_CARRIER_FRAGMENT_HEADER_BYTES + length (fg_bytes g)"

definition fragment_validate_shape :: "carrier_fragment \<Rightarrow> remote_transport_error + unit" where
  "fragment_validate_shape g =
     (if length (fg_bytes g) > REMOTE_CARRIER_FRAGMENT_MAX_PAYLOAD_BYTES
      then Inl (error_with_size FragmentPayloadCapExceeded (fg_lane g) (length (fg_bytes g)))
      else if fg_count g = 0 then Inl (error_with_lane ZeroFragmentCount (fg_lane g))
      else if fg_count g > MAX_FRAGMENT_COUNT then Inl (error_with_lane FragmentCountExceeded (fg_lane g))
      else if fg_index g \<ge> fg_count g then Inl (error_with_lane FragmentIndexOutOfRange (fg_lane g))
      else let is_final = (fg_index g + 1 = fg_count g) in
        if fragment_is_end (fg_flags g) \<noteq> is_final
        then Inl (error_with_lane FragmentEndFlagMisplaced (fg_lane g))
        else Inr ())"

definition fragment_encode :: "carrier_fragment \<Rightarrow> remote_transport_error + bytes" where
  "fragment_encode g =
     rbind (fragment_validate_shape g) (\<lambda>_.
       Inr ([REMOTE_CARRIER_FRAGMENT_VERSION, lane_id (fg_lane g)] @ be16 (fg_flags g)
            @ be128 (fg_frame_id g) @ be16 (fg_index g) @ be16 (fg_count g)
            @ be16 (of_nat (length (fg_bytes g))) @ fg_bytes g))"

definition fragment_decode :: "bytes \<Rightarrow> remote_transport_error + carrier_fragment" where
  "fragment_decode bs =
     (if length bs < REMOTE_CARRIER_FRAGMENT_HEADER_BYTES then Inl (error_new HeaderTooShort)
      else if bs ! 0 \<noteq> REMOTE_CARRIER_FRAGMENT_VERSION then Inl (error_new UnsupportedVersion)
      else rbind (ok_or (error_new UnknownLane) (from_lane_id (bs ! 1))) (\<lambda>lane.
        rbind (ok_or (error_with_lane UnknownFlagBit lane) (fragment_flags_from_bits (rd16 2 bs))) (\<lambda>flags.
        rbind (ok_or (error_with_lane FragmentConflict lane) (tag_protocol_id (rd128 4 bs))) (\<lambda>frame_id.
        let fragment_index = rd16 20 bs; fragment_count = rd16 22 bs; declared_len = unat (rd16 24 bs) in
        if declared_len > REMOTE_CARRIER_FRAGMENT_MAX_PAYLOAD_BYTES
        then Inl (error_with_size FragmentPayloadCapExceeded lane declared_len)
        else let actual = length bs - REMOTE_CARRIER_FRAGMENT_HEADER_BYTES in
          if actual > declared_len then Inl (error_with_lane TrailingBytes lane)
          else if actual < declared_len then Inl (error_with_lane FragmentLengthMismatch lane)
          else let fragment = \<lparr>fg_lane = lane, fg_flags = flags, fg_frame_id = frame_id,
                 fg_index = fragment_index, fg_count = fragment_count,
                 fg_bytes = drop REMOTE_CARRIER_FRAGMENT_HEADER_BYTES bs\<rparr> in
            rbind (fragment_validate_shape fragment) (\<lambda>_. Inr fragment)))))"

subsection \<open>The canonical split\<close>

definition div_ceil :: "nat \<Rightarrow> nat \<Rightarrow> nat" where
  "div_ceil a b = (a + b - 1) div b"

text \<open>The body of the loop of \<open>fragment_frame\<close> for one index.\<close>

definition fragment_at :: "remote_lane \<Rightarrow> id16 \<Rightarrow> bytes \<Rightarrow> u16 \<Rightarrow> nat \<Rightarrow> carrier_fragment" where
  "fragment_at lane frame_id serialized count i =
     (let start = i * REMOTE_CARRIER_FRAGMENT_MAX_PAYLOAD_BYTES;
          stop = min (start + REMOTE_CARRIER_FRAGMENT_MAX_PAYLOAD_BYTES) (length serialized);
          is_final = (of_nat i + 1 = count) in
      \<lparr>fg_lane = lane, fg_flags = (if is_final then FRAGMENT_END else 0), fg_frame_id = frame_id,
       fg_index = of_nat i, fg_count = count, fg_bytes = bslice start (stop - start) serialized\<rparr>)"

definition fragment_frame ::
    "remote_lane \<Rightarrow> id16 \<Rightarrow> bytes \<Rightarrow> remote_transport_error + carrier_fragment list" where
  "fragment_frame lane frame_id serialized =
     (if length serialized < REMOTE_TRANSPORT_FRAME_HEADER_BYTES
      then Inl (error_with_lane HeaderTooShort lane)
      else if length serialized > MAX_SERIALIZED_FRAME_BYTES
      then Inl (error_with_size PayloadCapExceeded lane (length serialized))
      else let count = max (div_ceil (length serialized) REMOTE_CARRIER_FRAGMENT_MAX_PAYLOAD_BYTES) 1 in
        if count > unat MAX_FRAGMENT_COUNT then Inl (error_with_lane FragmentCountExceeded lane)
        else Inr (map (fragment_at lane frame_id serialized (of_nat count)) [0..<count]))"

subsection \<open>The reassembler\<close>

record partial_frame =
  pf_lane :: remote_lane
  pf_fragment_count :: u16
  pf_slots :: "bytes option list"
  pf_buffered_bytes :: nat
  pf_first_seen_ms :: u64

record completed_frame =
  cf_at_ms :: u64
  cf_header :: bytes

record reassembler =
  ra_peer_origin :: stream_origin
  ra_sequences :: stream_sequences
  ra_partials :: "(id16, partial_frame) btree"
  ra_completed :: "(id16, completed_frame) btree"
  ra_buffered_bytes :: nat
  ra_max_frames :: nat
  ra_max_bytes :: nat
  ra_deadline_ms :: u64

type_synonym hash_iter = "(id16, completed_frame) btree \<Rightarrow> (id16 \<times> completed_frame) list"

definition reassembler_new :: "stream_origin \<Rightarrow> reassembler" where
  "reassembler_new origin =
     \<lparr>ra_peer_origin = origin, ra_sequences = sequences_new origin, ra_partials = [], ra_completed = [],
      ra_buffered_bytes = 0, ra_max_frames = MAX_INCOMPLETE_FRAMES_PER_PEER,
      ra_max_bytes = MAX_REASSEMBLY_BYTES_PER_PEER, ra_deadline_ms = REASSEMBLY_DEADLINE_MS\<rparr>"

definition ra_tracked_streams :: "reassembler \<Rightarrow> nat" where
  "ra_tracked_streams r = tracked_streams (ra_sequences r)"

definition ra_with_max_active_streams :: "reassembler \<Rightarrow> nat \<Rightarrow> reassembler" where
  "ra_with_max_active_streams r n = r\<lparr>ra_sequences := with_max_active_streams (ra_sequences r) n\<rparr>"

definition with_deadline_ms :: "reassembler \<Rightarrow> u64 \<Rightarrow> reassembler" where
  "with_deadline_ms r d = r\<lparr>ra_deadline_ms := d\<rparr>"

definition incomplete_frames :: "reassembler \<Rightarrow> nat" where
  "incomplete_frames r = length (ra_partials r)"

definition remembered_frames :: "reassembler \<Rightarrow> nat" where
  "remembered_frames r = length (ra_completed r)"

definition reassembler_expire :: "reassembler \<Rightarrow> u64 \<Rightarrow> reassembler \<times> nat" where
  "reassembler_expire r now =
     (let expired = (\<lambda>p. saturating_sub now (pf_first_seen_ms p) \<ge> ra_deadline_ms r);
          kept = filter (\<lambda>e. \<not> expired (snd e)) (ra_partials r);
          freed = bt_total pf_buffered_bytes (filter (\<lambda>e. expired (snd e)) (ra_partials r)) in
      (r\<lparr>ra_partials := kept, ra_buffered_bytes := ra_buffered_bytes r - freed,
         ra_completed := filter (\<lambda>e. saturating_sub now (cf_at_ms (snd e)) < ra_deadline_ms r) (ra_completed r)\<rparr>,
       length (ra_partials r) - length kept))"

text \<open>\<open>Iterator::min_by_key\<close>: the first entry with the least key.\<close>

fun min_by_key :: "('a \<Rightarrow> 'b::linorder) \<Rightarrow> 'a list \<Rightarrow> 'a option" where
  "min_by_key f [] = None"
| "min_by_key f (x # xs) =
     (case min_by_key f xs of None \<Rightarrow> Some x | Some y \<Rightarrow> if f y < f x then Some y else Some x)"

text \<open>The completion memory takes a new entry, evicting the oldest one when it is full.\<close>

definition remember_completed :: "hash_iter \<Rightarrow> reassembler \<Rightarrow> id16 \<Rightarrow> completed_frame \<Rightarrow> reassembler" where
  "remember_completed iter r key c =
     (let kept =
        (if length (ra_completed r) \<ge> MAX_COMPLETED_FRAME_MEMORY
         then case min_by_key (\<lambda>e. cf_at_ms (snd e)) (iter (ra_completed r)) of
                Some oldest \<Rightarrow> bt_remove (fst oldest) (ra_completed r)
              | None \<Rightarrow> ra_completed r
         else ra_completed r) in
      r\<lparr>ra_completed := bt_insert key c kept\<rparr>)"

text \<open>The tail of \<open>accept\<close>, once every slot of \<open>partial\<close> is filled.\<close>

definition reassembler_complete ::
    "hash_iter \<Rightarrow> (bytes \<Rightarrow> digest32) \<Rightarrow> reassembler \<Rightarrow> id16 \<Rightarrow> remote_lane \<Rightarrow> partial_frame \<Rightarrow> u64
     \<Rightarrow> reassembler \<times> (remote_transport_error + transport_frame option)" where
  "reassembler_complete iter sha r key lane partial now =
     (let r = r\<lparr>ra_partials := bt_remove key (ra_partials r),
                ra_buffered_bytes := ra_buffered_bytes r - pf_buffered_bytes partial\<rparr>;
          serialized = concat (map the (pf_slots partial)) in
      case frame_decode sha serialized of
        Inl e \<Rightarrow> (r, Inl e)
      | Inr frame \<Rightarrow>
        if fr_lane frame \<noteq> lane \<or> fr_frame_id frame \<noteq> key
        then (r, Inl (error_with_lane FragmentConflict lane))
        else let header = take REMOTE_TRANSPORT_FRAME_HEADER_BYTES serialized in
          case bt_get (ra_completed r) key of
            Some fin \<Rightarrow>
              (r, if cf_header fin = header then Inr None else Inl (error_with_lane FragmentConflict lane))
          | None \<Rightarrow>
            (case gate_frame (ra_peer_origin r) (ra_sequences r) frame of
               (s, Inl e) \<Rightarrow> (r\<lparr>ra_sequences := s\<rparr>, Inl e)
             | (s, Inr _) \<Rightarrow>
               (remember_completed iter (r\<lparr>ra_sequences := s\<rparr>) key \<lparr>cf_at_ms = now, cf_header = header\<rparr>,
                Inr (Some frame))))"

text \<open>The middle of \<open>accept\<close>: account for the fragment in its partial frame.\<close>

definition reassembler_store ::
    "hash_iter \<Rightarrow> (bytes \<Rightarrow> digest32) \<Rightarrow> reassembler \<Rightarrow> bool \<Rightarrow> partial_frame \<Rightarrow> carrier_fragment \<Rightarrow> u64
     \<Rightarrow> reassembler \<times> (remote_transport_error + transport_frame option)" where
  "reassembler_store iter sha r is_new partial g now =
     (let key = fg_frame_id g; lane = fg_lane g; n = length (fg_bytes g); i = unat (fg_index g);
          dropped = (if is_new then r\<lparr>ra_partials := bt_remove key (ra_partials r)\<rparr> else r) in
      if pf_lane partial \<noteq> lane \<or> pf_fragment_count partial \<noteq> fg_count g
      then (dropped, Inl (error_with_lane FragmentConflict lane))
      else case pf_slots partial ! i of
        Some existing \<Rightarrow>
          (r, if existing = fg_bytes g then Inr None else Inl (error_with_lane FragmentConflict lane))
      | None \<Rightarrow>
        if ra_buffered_bytes r + n > ra_max_bytes r
        then (dropped, Inl (error_with_size ReassemblyByteLimit lane n))
        else if pf_buffered_bytes partial + n > MAX_SERIALIZED_FRAME_BYTES
        then (r, Inl (error_with_size ReassemblyByteLimit lane n))
        else
          let partial = partial\<lparr>pf_slots := (pf_slots partial)[i := Some (fg_bytes g)],
                                pf_buffered_bytes := pf_buffered_bytes partial + n\<rparr>;
              r = r\<lparr>ra_partials := bt_insert key partial (ra_partials r),
                    ra_buffered_bytes := ra_buffered_bytes r + n\<rparr> in
          if list_ex (\<lambda>slot. slot = None) (pf_slots partial) then (r, Inr None)
          else reassembler_complete iter sha r key lane partial now)"

definition reassembler_accept ::
    "hash_iter \<Rightarrow> (bytes \<Rightarrow> digest32) \<Rightarrow> reassembler \<Rightarrow> carrier_fragment \<Rightarrow> u64
     \<Rightarrow> reassembler \<times> (remote_transport_error + transport_frame option)" where
  "reassembler_accept iter sha r g now =
     (case fragment_validate_shape g of
        Inl e \<Rightarrow> (r, Inl e)
      | Inr _ \<Rightarrow>
        let r = fst (reassembler_expire r now); key = fg_frame_id g in
        case bt_get (ra_partials r) key of
          Some partial \<Rightarrow> reassembler_store iter sha r False partial g now
        | None \<Rightarrow>
          if length (ra_partials r) \<ge> ra_max_frames r
          then (r, Inl (error_with_lane ReassemblyFrameLimit (fg_lane g)))
          else
            let partial = \<lparr>pf_lane = fg_lane g, pf_fragment_count = fg_count g,
                           pf_slots = replicate (unat (fg_count g)) None, pf_buffered_bytes = 0,
                           pf_first_seen_ms = now\<rparr> in
            reassembler_store iter sha (r\<lparr>ra_partials := bt_insert key partial (ra_partials r)\<rparr>)
              True partial g now)"

subsection \<open>Predicates\<close>

definition fragment_ok :: "carrier_fragment \<Rightarrow> bool" where
  "fragment_ok g \<longleftrightarrow> fragment_flags_from_bits (fg_flags g) \<noteq> None \<and> fg_frame_id g \<noteq> 0
     \<and> fragment_validate_shape g = Inr ()"

definition frame_chunk :: "bytes \<Rightarrow> nat \<Rightarrow> bytes" where
  "frame_chunk bs i = take REMOTE_CARRIER_FRAGMENT_MAX_PAYLOAD_BYTES (drop (i * REMOTE_CARRIER_FRAGMENT_MAX_PAYLOAD_BYTES) bs)"

text \<open>Bytes held by the filled slots, and the invariant of the reassembler.\<close>

definition slot_bytes :: "bytes option list \<Rightarrow> nat" where
  "slot_bytes slots = sum_list (map (\<lambda>s. case s of None \<Rightarrow> 0 | Some b \<Rightarrow> length b) slots)"

definition partial_ok :: "partial_frame \<Rightarrow> bool" where
  "partial_ok p \<longleftrightarrow> length (pf_slots p) = unat (pf_fragment_count p)
     \<and> pf_buffered_bytes p = slot_bytes (pf_slots p) \<and> pf_buffered_bytes p \<le> MAX_SERIALIZED_FRAME_BYTES"

definition ra_inv :: "reassembler \<Rightarrow> bool" where
  "ra_inv r \<longleftrightarrow> bt_wf (ra_partials r) \<and> bt_wf (ra_completed r)
     \<and> streams_inv (ra_peer_origin r) (ra_sequences r)
     \<and> length (ra_partials r) \<le> ra_max_frames r
     \<and> ra_buffered_bytes r = bt_total pf_buffered_bytes (ra_partials r)
     \<and> ra_buffered_bytes r \<le> ra_max_bytes r
     \<and> (\<forall>k p. bt_get (ra_partials r) k = Some p \<longrightarrow> partial_ok p)"

definition same_config :: "reassembler \<Rightarrow> reassembler \<Rightarrow> bool" where
  "same_config r r' \<longleftrightarrow> ra_peer_origin r' = ra_peer_origin r \<and> ra_max_frames r' = ra_max_frames r
     \<and> ra_max_bytes r' = ra_max_bytes r \<and> ra_deadline_ms r' = ra_deadline_ms r"

text \<open>What a call hands to the dispatcher, and a run over fragments with their arrival times.\<close>

fun dispatched :: "remote_transport_error + transport_frame option \<Rightarrow> transport_frame list" where
  "dispatched (Inr (Some f)) = [f]"
| "dispatched (Inr None) = []"
| "dispatched (Inl e) = []"

fun reassembler_run ::
    "hash_iter \<Rightarrow> (bytes \<Rightarrow> digest32) \<Rightarrow> reassembler \<Rightarrow> (carrier_fragment \<times> u64) list
     \<Rightarrow> reassembler \<times> transport_frame list" where
  "reassembler_run iter sha r [] = (r, [])"
| "reassembler_run iter sha r (e # es) =
     (case reassembler_accept iter sha r (fst e) (snd e) of (r, res) \<Rightarrow>
        case reassembler_run iter sha r es of (r, out) \<Rightarrow> (r, dispatched res @ out))"

text \<open>The partial frame of a split of \<open>bs\<close> into \<open>n\<close> fragments when those in \<open>dn\<close> have arrived.\<close>

definition slots_at :: "bytes \<Rightarrow> nat \<Rightarrow> nat set \<Rightarrow> bytes option list" where
  "slots_at bs n dn = map (\<lambda>i. if i \<in> dn then Some (frame_chunk bs i) else None) [0..<n]"

definition partial_at :: "remote_lane \<Rightarrow> bytes \<Rightarrow> nat \<Rightarrow> nat set \<Rightarrow> u64 \<Rightarrow> partial_frame" where
  "partial_at lane bs n dn t0 =
     \<lparr>pf_lane = lane, pf_fragment_count = of_nat n, pf_slots = slots_at bs n dn,
      pf_buffered_bytes = slot_bytes (slots_at bs n dn), pf_first_seen_ms = t0\<rparr>"

text \<open>A reassembler on its way to the frame \<open>f\<close>: room for the rest, and a gate that will let it pass.\<close>

definition assembling ::
    "transport_frame \<Rightarrow> bytes \<Rightarrow> nat \<Rightarrow> nat set \<Rightarrow> u64 \<Rightarrow> reassembler \<Rightarrow> bool" where
  "assembling f bs n dn t0 r \<longleftrightarrow> ra_inv r
     \<and> bt_get (ra_partials r) (fr_frame_id f) = Some (partial_at (fr_lane f) bs n dn t0)
     \<and> bt_get (ra_completed r) (fr_frame_id f) = None
     \<and> ra_buffered_bytes r + (length bs - slot_bytes (slots_at bs n dn)) \<le> ra_max_bytes r
     \<and> is_ok (snd (gate_frame (ra_peer_origin r) (ra_sequences r) f))"

text \<open>A reassembler that has not seen the frame \<open>f\<close>, has room for its bytes, and whose gate would pass it.\<close>

definition ready_for :: "transport_frame \<Rightarrow> bytes \<Rightarrow> reassembler \<Rightarrow> bool" where
  "ready_for f bs r \<longleftrightarrow> ra_inv r
     \<and> bt_get (ra_partials r) (fr_frame_id f) = None \<and> bt_get (ra_completed r) (fr_frame_id f) = None
     \<and> length (ra_partials r) < ra_max_frames r \<and> ra_buffered_bytes r + length bs \<le> ra_max_bytes r
     \<and> is_ok (snd (gate_frame (ra_peer_origin r) (ra_sequences r) f))"

text \<open>The iteration order of a \<open>HashMap\<close> lists the entries of the map.\<close>

definition hash_order :: "hash_iter \<Rightarrow> bool" where
  "hash_order iter \<longleftrightarrow> (\<forall>m. set (iter m) = set m)"

section \<open>The fragment codec\<close>

lemma fragment_shape_iff:
  "fragment_validate_shape g = Inr () \<longleftrightarrow>
     length (fg_bytes g) \<le> 65471 \<and> 0 < unat (fg_count g) \<and> unat (fg_count g) \<le> 9
     \<and> unat (fg_index g) < unat (fg_count g)
     \<and> fragment_is_end (fg_flags g) = (unat (fg_index g) + 1 = unat (fg_count g))"
proof -
  have 9: "9 < fg_count g \<longleftrightarrow> 9 < unat (fg_count g)"
    by (simp add: word_less_nat_alt)
  have "fg_index g + 1 = fg_count g \<longleftrightarrow> unat (fg_index g) + 1 = unat (fg_count g)"
    if "unat (fg_index g) < unat (fg_count g)"
  proof -
    have "unat (fg_index g) + unat (1 :: u16) < 2 ^ 16"
      using that unsigned_less [of "fg_count g", where 'a = nat] by simp
    then have "unat (fg_index g + 1) = unat (fg_index g) + 1"
      using unat_add_no_wrap [of "fg_index g" 1] by simp
    then show ?thesis by (simp add: word_unat_eq_iff)
  qed
  moreover have "fg_count g \<le> fg_index g \<longleftrightarrow> \<not> unat (fg_index g) < unat (fg_count g)"
    by (simp add: word_le_nat_alt not_less)
  ultimately show ?thesis
    by (cases "unat (fg_index g) < unat (fg_count g)")
      (simp_all add: fragment_validate_shape_def fragment_consts Let_def not_less 9 unat_gt_0)
qed

lemma fragment_encode_ok:
  assumes "fragment_validate_shape g = Inr ()"
  shows "fragment_encode g = Inr ([1, lane_id (fg_lane g)] @ be16 (fg_flags g)
    @ be128 (fg_frame_id g) @ be16 (fg_index g) @ be16 (fg_count g)
    @ be16 (of_nat (length (fg_bytes g))) @ fg_bytes g)"
  using assms by (simp add: fragment_encode_def fragment_consts)

lemma fragment_decode_encode:
  assumes "fragment_ok g" and "fragment_encode g = Inr bs"
  shows "fragment_decode bs = Inr g"
proof -
  have shape: "fragment_validate_shape g = Inr ()" using assms(1) by (simp add: fragment_ok_def)
  then have len: "length (fg_bytes g) \<le> 65471" by (simp add: fragment_shape_iff)
  then have u: "unat (of_nat (length (fg_bytes g)) :: u16) = length (fg_bytes g)"
    by (intro unat_of_nat_small) simp
  have bs: "bs = [1, lane_id (fg_lane g)] @ be16 (fg_flags g)
      @ be128 (fg_frame_id g) @ be16 (fg_index g) @ be16 (fg_count g)
      @ be16 (of_nat (length (fg_bytes g))) @ fg_bytes g"
    using assms shape by (simp add: fragment_encode_ok)
  have "fragment_flags_from_bits (fg_flags g) = Some (fg_flags g)"
    "tag_protocol_id (fg_frame_id g) = Some (fg_frame_id g)"
    using assms(1)
    by (auto simp: fragment_ok_def fragment_flags_from_bits_def tag_protocol_id_def split: if_splits)
  moreover have eta: "\<lparr>fg_lane = fg_lane g, fg_flags = fg_flags g, fg_frame_id = fg_frame_id g, fg_index = fg_index g,
      fg_count = fg_count g, fg_bytes = fg_bytes g\<rparr> = g"
    by simp
  ultimately show ?thesis
    using len u shape by (simp add: eta bs fragment_decode_def fragment_consts be_simps Let_def)
qed

lemma fragment_encode_decode:
  assumes "fragment_decode bs = Inr g"
  shows "fragment_ok g \<and> fragment_encode g = Inr bs"
proof -
  have len: "26 \<le> length bs" "length bs = 26 + unat (rd16 24 bs)"
    and hd: "bs ! 0 = 1" "lane_id (fg_lane g) = bs ! 1" "fragment_flags_from_bits (rd16 2 bs) \<noteq> None"
      "rd128 4 bs \<noteq> 0"
    and g: "fg_flags g = rd16 2 bs" "fg_frame_id g = rd128 4 bs" "fg_index g = rd16 20 bs"
      "fg_count g = rd16 22 bs" "fg_bytes g = drop 26 bs" "fragment_validate_shape g = Inr ()"
    using assms
    by (auto simp: fragment_decode_def fragment_consts Let_def result_simps from_lane_id_canonical
        fragment_flags_from_bits_def tag_protocol_id_def not_less split: if_splits)
  have "bs = [bs ! 0, bs ! 1] @ be16 (rd16 2 bs) @ be128 (rd128 4 bs) @ be16 (rd16 20 bs)
      @ be16 (rd16 22 bs) @ be16 (rd16 24 bs) @ drop 26 bs"
    using fields_eq [of 0 "[1, 1, 2, 16, 2, 2, 2]" bs] len(1)
    by (simp add: bslice_one be_simps del: One_nat_def)
  moreover have "of_nat (length (drop 26 bs)) = rd16 24 bs"
    using len by simp
  moreover have "fragment_ok g"
    using hd g by (simp add: fragment_ok_def)
  ultimately show ?thesis
    using fragment_encode_ok [OF g(6)] hd g by simp
qed

interpretation fragment_codec: wire_codec fragment_encode fragment_decode fragment_ok
  by unfold_locales
    (auto simp: fragment_encode_ok fragment_ok_def intro: fragment_decode_encode [unfolded fragment_ok_def]
      dest: fragment_encode_decode)

section \<open>The canonical split\<close>

lemma concat_chunks: "concat (map (frame_chunk bs) [0..<n]) = take (n * REMOTE_CARRIER_FRAGMENT_MAX_PAYLOAD_BYTES) bs"
proof (induction n)
  case 0
  then show ?case by simp
next
  case (Suc n)
  let ?M = REMOTE_CARRIER_FRAGMENT_MAX_PAYLOAD_BYTES
  show ?case
    using Suc take_add [of "n * ?M" ?M bs] by (simp add: frame_chunk_def add.commute)
qed

lemma fragment_at_simps [simp]:
  "fg_lane (fragment_at lane key bs c i) = lane" "fg_frame_id (fragment_at lane key bs c i) = key"
  "fg_index (fragment_at lane key bs c i) = of_nat i" "fg_count (fragment_at lane key bs c i) = c"
  by (simp_all add: fragment_at_def Let_def)

lemma fragment_at_bytes [simp]: "fg_bytes (fragment_at lane key bs c i) = frame_chunk bs i"
proof -
  let ?M = REMOTE_CARRIER_FRAGMENT_MAX_PAYLOAD_BYTES
  have "take (min (i * ?M + ?M) (length bs) - i * ?M) (drop (i * ?M) bs) = take ?M (drop (i * ?M) bs)"
    by (cases "i * ?M + ?M \<le> length bs") (simp_all add: min_def)
  then show ?thesis
    by (simp add: fragment_at_def Let_def bslice_def frame_chunk_def)
qed

lemma fragment_at_shape:
  assumes "i < n" and "n \<le> 9"
  shows "fragment_validate_shape (fragment_at lane key bs (of_nat n) i) = Inr ()"
proof -
  have u: "unat (of_nat i :: u16) = i" "unat (of_nat n :: u16) = n"
    using assms by (simp_all add: unat_of_nat_small)
  have "of_nat i + 1 = (of_nat n :: u16) \<longleftrightarrow> Suc i = n"
  proof
    assume "of_nat i + 1 = (of_nat n :: u16)"
    then have "of_nat (Suc i) = (of_nat n :: u16)" by (simp add: add.commute)
    then have "unat (of_nat (Suc i) :: u16) = unat (of_nat n :: u16)" by (rule arg_cong)
    then show "Suc i = n" using assms by (simp only: unat_of_nat_small u) (simp add: unat_of_nat_small del: of_nat_Suc)
  qed (auto simp: add.commute)
  then have "fragment_is_end (fg_flags (fragment_at lane key bs (of_nat n) i)) \<longleftrightarrow> Suc i = n"
    by (simp add: fragment_at_def Let_def fragment_is_end_def FRAGMENT_END_def)
  moreover have "length (frame_chunk bs i) \<le> 65471" by (simp add: frame_chunk_def fragment_consts)
  ultimately show ?thesis
    using assms u by (simp add: fragment_shape_iff)
qed

text \<open>What \<open>fragment_frame\<close> returns, on every serialized frame of a legal size.\<close>

lemma fragment_frame_eq:
  assumes "72 \<le> length bs" and "length bs \<le> MAX_SERIALIZED_FRAME_BYTES"
  obtains n where "1 \<le> n" and "n \<le> 9" and "length bs \<le> n * 65471" and "(n - 1) * 65471 < length bs"
    and "fragment_frame lane key bs = Inr (map (fragment_at lane key bs (of_nat n)) [0..<n])"
proof -
  let ?n = "(length bs + 65470) div 65471"
  have len: "length bs \<le> 524360"
    using assms(2) by (simp add: frame_consts lane_consts)
  have n: "1 \<le> ?n" "?n \<le> 9" "length bs \<le> ?n * 65471" "(?n - 1) * 65471 < length bs"
    using assms(1) len by linarith+
  moreover have "max (div_ceil (length bs) REMOTE_CARRIER_FRAGMENT_MAX_PAYLOAD_BYTES) 1 = ?n"
    using n(1) by (simp add: div_ceil_def fragment_consts)
  then have "fragment_frame lane key bs = Inr (map (fragment_at lane key bs (of_nat ?n)) [0..<?n])"
    using assms n(2) by (simp add: fragment_frame_def REMOTE_TRANSPORT_FRAME_HEADER_BYTES_def MAX_FRAGMENT_COUNT_def Let_def)
  ultimately show ?thesis by (rule that)
qed

lemma fragment_frame_InrD:
  assumes "fragment_frame lane key bs = Inr gs"
  shows "72 \<le> length bs \<and> length bs \<le> MAX_SERIALIZED_FRAME_BYTES"
  using assms by (auto simp: fragment_frame_def REMOTE_TRANSPORT_FRAME_HEADER_BYTES_def split: if_splits)

section \<open>The reassembler's invariant\<close>

lemma bt_total_split: "bt_total f (filter P m) + bt_total f (filter (\<lambda>e. \<not> P e) m) = bt_total f m"
  by (induction m) (simp_all add: bt_total_def)

lemma bt_get_filter:
  "bt_wf m \<Longrightarrow> bt_get (filter P m) k = Some v \<longleftrightarrow> bt_get m k = Some v \<and> P (k, v)"
  by (simp add: bt_get_eq_Some_iff)

lemma slot_bytes_replicate [simp]: "slot_bytes (replicate n None) = 0"
  by (simp add: slot_bytes_def sum_list_replicate)

lemma slot_bytes_update:
  "i < length slots \<Longrightarrow> slots ! i = None \<Longrightarrow> slot_bytes (slots[i := Some b]) = slot_bytes slots + length b"
  by (induction slots arbitrary: i) (auto simp: slot_bytes_def split: nat.splits)

lemma expire_fields:
  "ra_sequences (fst (reassembler_expire r now)) = ra_sequences r"
  "same_config r (fst (reassembler_expire r now))"
  by (simp_all add: reassembler_expire_def same_config_def Let_def)

lemma expire_get:
  assumes "bt_wf (ra_partials r)"
  shows "bt_get (ra_partials (fst (reassembler_expire r now))) k = Some p \<longleftrightarrow>
    bt_get (ra_partials r) k = Some p \<and> saturating_sub now (pf_first_seen_ms p) < ra_deadline_ms r"
  using assms by (simp add: reassembler_expire_def Let_def bt_get_filter not_le)

lemma expire_inv:
  assumes "ra_inv r"
  shows "ra_inv (fst (reassembler_expire r now))"
    and "ra_buffered_bytes (fst (reassembler_expire r now)) \<le> ra_buffered_bytes r"
proof -
  let ?P = "\<lambda>e. saturating_sub now (pf_first_seen_ms (snd e)) \<ge> ra_deadline_ms r"
  have "bt_total pf_buffered_bytes (ra_partials r) - bt_total pf_buffered_bytes (filter ?P (ra_partials r))
      = bt_total pf_buffered_bytes (filter (\<lambda>e. \<not> ?P e) (ra_partials r))"
    using bt_total_split [of pf_buffered_bytes ?P "ra_partials r"] by simp
  moreover have "length (filter (\<lambda>e. \<not> ?P e) (ra_partials r)) \<le> ra_max_frames r"
    using assms by (auto simp: ra_inv_def intro: order_trans [OF length_filter_le])
  moreover have "\<forall>k p. bt_get (filter (\<lambda>e. \<not> ?P e) (ra_partials r)) k = Some p \<longrightarrow> partial_ok p"
    using assms by (auto simp: ra_inv_def bt_get_filter)
  moreover have "bt_total pf_buffered_bytes (filter (\<lambda>e. \<not> ?P e) (ra_partials r)) \<le> ra_max_bytes r"
    using assms bt_total_split [of pf_buffered_bytes ?P "ra_partials r"] by (simp add: ra_inv_def)
  ultimately show "ra_inv (fst (reassembler_expire r now))"
    using assms by (simp add: ra_inv_def reassembler_expire_def Let_def)
  show "ra_buffered_bytes (fst (reassembler_expire r now)) \<le> ra_buffered_bytes r"
    by (simp add: reassembler_expire_def Let_def)
qed

lemma remember_fields [simp]:
  "ra_sequences (remember_completed iter r k c) = ra_sequences r"
  "ra_partials (remember_completed iter r k c) = ra_partials r"
  "ra_buffered_bytes (remember_completed iter r k c) = ra_buffered_bytes r"
  "ra_max_frames (remember_completed iter r k c) = ra_max_frames r"
  "ra_max_bytes (remember_completed iter r k c) = ra_max_bytes r"
  "ra_peer_origin (remember_completed iter r k c) = ra_peer_origin r"
  "ra_deadline_ms (remember_completed iter r k c) = ra_deadline_ms r"
  "bt_wf (ra_completed r) \<Longrightarrow> bt_wf (ra_completed (remember_completed iter r k c))"
  by (simp_all add: remember_completed_def Let_def split: option.splits)

lemma ra_inv_drop:
  assumes "ra_inv r" and "bt_get (ra_partials r) k = Some p"
  shows "ra_inv (r\<lparr>ra_partials := bt_remove k (ra_partials r), ra_buffered_bytes := ra_buffered_bytes r - pf_buffered_bytes p\<rparr>)"
proof -
  from assms have "pf_buffered_bytes p + bt_total pf_buffered_bytes (bt_remove k (ra_partials r))
      = bt_total pf_buffered_bytes (ra_partials r)"
    by (intro bt.total_remove_old) (simp_all add: ra_inv_def)
  moreover have "length (bt_remove k (ra_partials r)) \<le> length (ra_partials r)"
    using assms by (intro bt.len_remove_le) (simp add: ra_inv_def)
  ultimately show ?thesis
    using assms(1) by (auto simp: ra_inv_def)
qed

lemma ra_inv_put:
  assumes "ra_inv r" and "bt_get (ra_partials r) k = Some p" and "partial_ok p'"
    and "pf_buffered_bytes p' = pf_buffered_bytes p + n" and "ra_buffered_bytes r + n \<le> ra_max_bytes r"
  shows "ra_inv (r\<lparr>ra_partials := bt_insert k p' (ra_partials r), ra_buffered_bytes := ra_buffered_bytes r + n\<rparr>)"
proof -
  from assms have "pf_buffered_bytes p + bt_total pf_buffered_bytes (bt_insert k p' (ra_partials r))
      = pf_buffered_bytes p' + bt_total pf_buffered_bytes (ra_partials r)"
    by (intro bt.total_replace) (simp_all add: ra_inv_def)
  moreover have "length (bt_insert k p' (ra_partials r)) = length (ra_partials r)"
    using assms by (intro bt.len_replace) (simp_all add: ra_inv_def)
  ultimately show ?thesis
    using assms by (auto simp: ra_inv_def)
qed

text \<open>One call keeps the invariant and the configuration, and what it dispatches extends the history.\<close>

abbreviation keeps :: "reassembler \<Rightarrow> transport_frame list \<Rightarrow> reassembler \<times> (remote_transport_error + transport_frame option) \<Rightarrow> bool" where
  "keeps r h out \<equiv> ra_inv (fst out) \<and> same_config r (fst out)
     \<and> history_ok (ra_peer_origin r) (ra_sequences (fst out)) (h @ dispatched (snd out))"

lemma complete_keeps:
  assumes inv: "ra_inv r" and hist: "history_ok (ra_peer_origin r) (ra_sequences r) h"
    and get: "bt_get (ra_partials r) key = Some p"
  shows "keeps r h (reassembler_complete iter sha r key lane p now)"
proof -
  let ?r = "r\<lparr>ra_partials := bt_remove key (ra_partials r), ra_buffered_bytes := ra_buffered_bytes r - pf_buffered_bytes p\<rparr>"
  have inv': "ra_inv ?r" using inv get by (rule ra_inv_drop)
  have str: "streams_inv (ra_peer_origin r) (ra_sequences r)" using inv by (simp add: ra_inv_def)
  have put: "ra_inv (?r\<lparr>ra_sequences := s\<rparr>) \<and> ra_inv (remember_completed iter (?r\<lparr>ra_sequences := s\<rparr>) key c)"
    if "streams_inv (ra_peer_origin r) s" for s c
    using inv' that by (simp add: ra_inv_def)
  show ?thesis
  proof (cases "frame_decode sha (concat (map the (pf_slots p)))")
    case (Inl e)
    then show ?thesis
      using inv' hist by (simp add: reassembler_complete_def same_config_def Let_def)
  next
    case (Inr f)
    obtain s g where g: "gate_frame (ra_peer_origin r) (ra_sequences r) f = (s, g)" by fastforce
    show ?thesis
      using Inr inv' hist g gate_frame_error [OF str hist, of f s] gate_frame_passes [OF str hist, of f s] put [of s]
      by (auto simp: reassembler_complete_def same_config_def Let_def split: option.splits sum.splits)
  qed
qed

lemma store_keeps:
  assumes inv: "ra_inv r" and hist: "history_ok (ra_peer_origin r) (ra_sequences r) h"
    and get: "bt_get (ra_partials r) (fg_frame_id g) = Some p"
    and shape: "fragment_validate_shape g = Inr ()"
    and new: "is_new \<longrightarrow> pf_buffered_bytes p = 0"
  shows "keeps r h (reassembler_store iter sha r is_new p g now)"
proof -
  let ?k = "fg_frame_id g" and ?n = "length (fg_bytes g)" and ?i = "unat (fg_index g)"
  let ?p = "p\<lparr>pf_slots := (pf_slots p)[?i := Some (fg_bytes g)], pf_buffered_bytes := pf_buffered_bytes p + ?n\<rparr>"
  let ?r = "r\<lparr>ra_partials := bt_insert ?k ?p (ra_partials r), ra_buffered_bytes := ra_buffered_bytes r + ?n\<rparr>"
  have dropped: "is_new \<longrightarrow> ra_inv (r\<lparr>ra_partials := bt_remove ?k (ra_partials r)\<rparr>)"
    using ra_inv_drop [OF inv get] new inv by (auto simp: ra_inv_def)
  have p: "partial_ok p" using inv get by (simp add: ra_inv_def)
  show ?thesis
  proof (cases "pf_lane p \<noteq> fg_lane g \<or> pf_fragment_count p \<noteq> fg_count g \<or> pf_slots p ! ?i \<noteq> None
      \<or> ra_buffered_bytes r + ?n > ra_max_bytes r \<or> pf_buffered_bytes p + ?n > MAX_SERIALIZED_FRAME_BYTES")
    case True
    then have "dispatched (snd (reassembler_store iter sha r is_new p g now)) = []
      \<and> (fst (reassembler_store iter sha r is_new p g now) = r
         \<or> is_new \<and> fst (reassembler_store iter sha r is_new p g now) = r\<lparr>ra_partials := bt_remove ?k (ra_partials r)\<rparr>)"
      by (auto simp: reassembler_store_def Let_def split: option.split)
    then show ?thesis
      using inv hist dropped by (elim conjE disjE) (simp_all add: same_config_def)
  next
    case False
    then have "?i < length (pf_slots p)"
      using p shape by (simp add: partial_ok_def fragment_shape_iff)
    then have "partial_ok ?p"
      using False p by (auto simp: partial_ok_def slot_bytes_update)
    then have inv': "ra_inv ?r"
      using False by (intro ra_inv_put [OF inv get]) simp_all
    then have "keeps ?r h (reassembler_complete iter sha ?r ?k (fg_lane g) ?p now)"
      using hist by (intro complete_keeps) simp_all
    then show ?thesis
      using False inv' hist by (auto simp: reassembler_store_def same_config_def Let_def)
  qed
qed

lemma accept_keeps:
  assumes inv: "ra_inv r" and hist: "history_ok (ra_peer_origin r) (ra_sequences r) h"
  shows "keeps r h (reassembler_accept iter sha r g now)"
proof (cases "fragment_validate_shape g")
  case (Inl e)
  then show ?thesis
    using inv hist by (simp add: reassembler_accept_def same_config_def)
next
  case (Inr u)
  then have shape: "fragment_validate_shape g = Inr ()" by simp
  let ?r = "fst (reassembler_expire r now)"
  note e = expire_inv(1) [OF inv, of now] expire_fields [of r now]
  have hist': "history_ok (ra_peer_origin ?r) (ra_sequences ?r) h"
    using hist e by (simp add: same_config_def)
  show ?thesis
  proof (cases "bt_get (ra_partials ?r) (fg_frame_id g)")
    case (Some p)
    then show ?thesis
      using store_keeps [OF e(1) hist' Some shape, of False iter sha now] shape e
      by (simp add: reassembler_accept_def same_config_def Let_def)
  next
    case None
    let ?p = "\<lparr>pf_lane = fg_lane g, pf_fragment_count = fg_count g, pf_slots = replicate (unat (fg_count g)) None,
      pf_buffered_bytes = 0, pf_first_seen_ms = now\<rparr>"
    let ?r' = "?r\<lparr>ra_partials := bt_insert (fg_frame_id g) ?p (ra_partials ?r)\<rparr>"
    have "keeps ?r' h (reassembler_store iter sha ?r' True ?p g now)"
      if "length (ra_partials ?r) < ra_max_frames ?r"
    proof (rule store_keeps)
      have "partial_ok ?p" by (simp add: partial_ok_def)
      then show "ra_inv ?r'"
        using e(1) that None bt.total_insert_new [OF None, of pf_buffered_bytes ?p] length_bt_insert_new [OF None, of ?p]
        by (auto simp: ra_inv_def)
    qed (use hist' shape in simp_all)
    then show ?thesis
      using None hist' e shape by (auto simp: reassembler_accept_def same_config_def Let_def not_le)
  qed
qed

lemma run_keeps:
  assumes "ra_inv r" and "history_ok (ra_peer_origin r) (ra_sequences r) h"
    and "reassembler_run iter sha r es = (r', out)"
  shows "ra_inv r' \<and> same_config r r' \<and> history_ok (ra_peer_origin r) (ra_sequences r') (h @ out)"
  using assms
proof (induction es arbitrary: r h out)
  case Nil
  then show ?case by (simp add: same_config_def)
next
  case (Cons e es)
  obtain r1 res where a: "reassembler_accept iter sha r (fst e) (snd e) = (r1, res)" by fastforce
  obtain rest where rest: "reassembler_run iter sha r1 es = (r', rest)" "out = dispatched res @ rest"
    using Cons.prems(3) a by (auto split: prod.splits)
  have k: "ra_inv r1" "same_config r r1" "history_ok (ra_peer_origin r) (ra_sequences r1) (h @ dispatched res)"
    using accept_keeps [OF Cons.prems(1,2), of iter sha "fst e" "snd e"] a by simp_all
  then have "ra_inv r' \<and> same_config r1 r' \<and> history_ok (ra_peer_origin r1) (ra_sequences r') ((h @ dispatched res) @ rest)"
    by (intro Cons.IH [OF _ _ rest(1)]) (simp_all add: same_config_def)
  then show ?case
    using k(2) rest(2) by (simp add: same_config_def)
qed

lemma ra_inv_new: "ra_inv (reassembler_new origin)"
  using streams_inv_new [of origin] by (simp add: ra_inv_def reassembler_new_def bt.total_empty)

lemma ra_history_new: "history_ok origin (ra_sequences (reassembler_new origin)) []"
  using history_ok_new [of origin] by (simp add: reassembler_new_def)

section \<open>The completion memory\<close>

lemma min_by_key_member: "min_by_key f xs = Some y \<Longrightarrow> y \<in> set xs"
  by (induction xs arbitrary: y) (auto split: option.splits if_splits)

lemma min_by_key_None: "min_by_key f xs = None \<longleftrightarrow> xs = []"
  by (cases xs) (auto split: option.splits)

lemma remember_bounded:
  assumes "hash_order iter" and "bt_wf (ra_completed r)" and "length (ra_completed r) \<le> MAX_COMPLETED_FRAME_MEMORY"
  shows "length (ra_completed (remember_completed iter r k c)) \<le> MAX_COMPLETED_FRAME_MEMORY"
proof (cases "length (ra_completed r) < MAX_COMPLETED_FRAME_MEMORY")
  case True
  then show ?thesis
    using bt.len_insert_le [OF assms(2), of k c] by (simp add: remember_completed_def)
next
  case False
  have same: "set (iter (ra_completed r)) = set (ra_completed r)"
    using assms(1) by (simp add: hash_order_def)
  have "ra_completed r \<noteq> []"
    using False by (auto simp: MAX_COMPLETED_FRAME_MEMORY_def)
  with same have "iter (ra_completed r) \<noteq> []" by (metis set_empty)
  then obtain e where e: "min_by_key (\<lambda>e. cf_at_ms (snd e)) (iter (ra_completed r)) = Some e"
    using min_by_key_None by (metis option.exhaust)
  from min_by_key_member [OF this] have "e \<in> set (ra_completed r)"
    by (simp add: same)
  then have "bt_get (ra_completed r) (fst e) = Some (snd e)"
    using assms(2) by (simp add: bt_get_eq_Some_iff)
  from bt.len_remove_old [OF assms(2) this] show ?thesis
    using False assms bt.len_insert_le [of "bt_remove (fst e) (ra_completed r)" k c] e
    by (simp add: remember_completed_def Let_def)
qed

lemma accept_memory:
  assumes "hash_order iter" and "bt_wf (ra_completed r)" and "length (ra_completed r) \<le> MAX_COMPLETED_FRAME_MEMORY"
  shows "length (ra_completed (fst (reassembler_accept iter sha r g now))) \<le> MAX_COMPLETED_FRAME_MEMORY"
proof -
  let ?small = "\<lambda>r. bt_wf (ra_completed r) \<and> length (ra_completed r) \<le> MAX_COMPLETED_FRAME_MEMORY"
  have c: "?small r \<Longrightarrow> ?small (fst (reassembler_complete iter sha r key lane p now))" for r key lane p
    using assms(1) remember_bounded [of iter]
    by (auto simp: reassembler_complete_def Let_def split: option.splits sum.splits prod.splits)
  have s: "?small r \<Longrightarrow> ?small (fst (reassembler_store iter sha r is_new p g now))" for r is_new p
    using c by (auto simp: reassembler_store_def Let_def split: option.splits)
  have "?small (fst (reassembler_expire r now))"
    using assms by (auto simp: reassembler_expire_def Let_def intro: order_trans [OF length_filter_le])
  then have "?small (fst (reassembler_accept iter sha r g now))"
    using s assms by (auto simp: reassembler_accept_def Let_def split: option.splits sum.splits)
  then show ?thesis by blast
qed

text \<open>
  The reassembler as a machine over arriving fragments: the invariant, the configuration of
  \<open>RemoteFragmentReassembler::new\<close> and the bound of the completion memory are kept by every call.
\<close>

definition reassembler_step ::
    "hash_iter \<Rightarrow> (bytes \<Rightarrow> digest32) \<Rightarrow> reassembler \<Rightarrow> carrier_fragment \<times> u64 \<Rightarrow> reassembler" where
  "reassembler_step iter sha r e = fst (reassembler_accept iter sha r (fst e) (snd e))"

definition ra_bounded :: "hash_iter \<Rightarrow> stream_origin \<Rightarrow> reassembler \<Rightarrow> bool" where
  "ra_bounded iter origin r \<longleftrightarrow> ra_inv r \<and> same_config (reassembler_new origin) r \<and> hash_order iter
     \<and> length (ra_completed r) \<le> MAX_COMPLETED_FRAME_MEMORY \<and> (\<exists>h. history_ok origin (ra_sequences r) h)"

interpretation reassembly: guarded_machine "reassembler_step iter sha" "\<lambda>_. True" "ra_bounded iter origin"
  for iter sha origin
proof unfold_locales
  fix r e
  assume b: "ra_bounded iter origin r"
  then have origin: "ra_peer_origin r = origin"
    by (simp add: ra_bounded_def same_config_def reassembler_new_def)
  from b obtain h where "history_ok origin (ra_sequences r) h" by (auto simp: ra_bounded_def)
  then have "keeps r h (reassembler_accept iter sha r (fst e) (snd e))"
    using b origin by (intro accept_keeps) (simp_all add: ra_bounded_def)
  moreover have "length (ra_completed (fst (reassembler_accept iter sha r (fst e) (snd e)))) \<le> MAX_COMPLETED_FRAME_MEMORY"
    using b by (intro accept_memory) (simp_all add: ra_bounded_def ra_inv_def)
  ultimately show "ra_bounded iter origin (reassembler_step iter sha r e)"
    using b origin by (auto simp: ra_bounded_def same_config_def reassembler_step_def)
qed

lemma ra_bounded_new: "hash_order iter \<Longrightarrow> ra_bounded iter origin (reassembler_new origin)"
  using ra_inv_new ra_history_new by (auto simp: ra_bounded_def same_config_def) (simp add: reassembler_new_def)

section \<open>Reassembly in any order\<close>

lemma slots_at_nth: "i < n \<Longrightarrow> slots_at bs n dn ! i = (if i \<in> dn then Some (frame_chunk bs i) else None)"
  by (simp add: slots_at_def)

lemma slots_at_update:
  "i < n \<Longrightarrow> (slots_at bs n dn)[i := Some (frame_chunk bs i)] = slots_at bs n (insert i dn)"
  by (rule nth_equalityI) (auto simp: slots_at_def nth_list_update)

lemma slots_at_missing: "list_ex (\<lambda>s. s = None) (slots_at bs n dn) \<longleftrightarrow> \<not> {..<n} \<subseteq> dn"
  by (auto simp: slots_at_def list_ex_iff)

lemma slots_at_full: "{..<n} \<subseteq> dn \<Longrightarrow> map the (slots_at bs n dn) = map (frame_chunk bs) [0..<n]"
  by (auto simp: slots_at_def)

lemma slots_at_bytes: "slot_bytes (slots_at bs n dn) \<le> length bs"
proof -
  have "slot_bytes (slots_at bs n dn) = sum_list (map (\<lambda>i. if i \<in> dn then length (frame_chunk bs i) else 0) [0..<n])"
    by (auto simp: slot_bytes_def slots_at_def o_def intro!: arg_cong [of _ _ sum_list])
  also have "\<dots> \<le> sum_list (map (\<lambda>i. length (frame_chunk bs i)) [0..<n])"
    by (rule sum_list_mono) simp
  also have "\<dots> = length (concat (map (frame_chunk bs) [0..<n]))"
    by (simp add: length_concat o_def)
  also have "\<dots> \<le> length bs" by (simp add: concat_chunks)
  finally show ?thesis .
qed

lemma slots_at_grow:
  "i < n \<Longrightarrow> i \<notin> dn \<Longrightarrow> slot_bytes (slots_at bs n (insert i dn)) = slot_bytes (slots_at bs n dn) + length (frame_chunk bs i)"
  using slot_bytes_update [of i "slots_at bs n dn" "frame_chunk bs i"]
  by (simp add: slots_at_update slots_at_nth) (simp add: slots_at_def)

lemma frame_bytes_bound:
  assumes "frame_ok f" and "frame_encode sha f = Inr bs"
  shows "72 \<le> length bs" and "length bs \<le> MAX_SERIALIZED_FRAME_BYTES"
  using assms lane_cap_bound [of "fr_lane f"]
  by (auto simp: frame_encode_ok frame_ok_def frame_consts lane_consts)

lemma assembling_expire:
  assumes "assembling f bs n dn t0 r" and "saturating_sub now t0 < ra_deadline_ms r"
  shows "assembling f bs n dn t0 (fst (reassembler_expire r now))"
proof -
  have "bt_get (ra_completed (fst (reassembler_expire r now))) (fr_frame_id f) = None"
    using assms(1) by (auto simp: assembling_def reassembler_expire_def Let_def bt_get_None_iff)
  moreover have inv: "ra_inv r" and "bt_wf (ra_partials r)"
    using assms(1) by (simp_all add: assembling_def ra_inv_def)
  ultimately show ?thesis
    using assms expire_inv [OF inv, of now] expire_fields [of r now]
    by (simp add: assembling_def same_config_def partial_at_def expire_get)
qed

text \<open>What storing a missing fragment of the split does, in full.\<close>

definition with_fragment :: "transport_frame \<Rightarrow> bytes \<Rightarrow> nat \<Rightarrow> nat set \<Rightarrow> u64 \<Rightarrow> nat \<Rightarrow> reassembler \<Rightarrow> reassembler" where
  "with_fragment f bs n dn t0 i r =
     r\<lparr>ra_partials := bt_insert (fr_frame_id f) (partial_at (fr_lane f) bs n (insert i dn) t0) (ra_partials r),
       ra_buffered_bytes := ra_buffered_bytes r + length (frame_chunk bs i)\<rparr>"

lemma store_fresh:
  assumes a: "assembling f bs n dn t0 r" and i: "i < n" "i \<notin> dn" and n: "n \<le> 9" and len: "length bs \<le> MAX_SERIALIZED_FRAME_BYTES"
  shows "reassembler_store iter sha r is_new (partial_at (fr_lane f) bs n dn t0)
      (fragment_at (fr_lane f) (fr_frame_id f) bs (of_nat n) i) now
    = (if {..<n} \<subseteq> insert i dn
       then reassembler_complete iter sha (with_fragment f bs n dn t0 i r) (fr_frame_id f) (fr_lane f)
              (partial_at (fr_lane f) bs n (insert i dn) t0) now
       else (with_fragment f bs n dn t0 i r, Inr None))"
    and "slot_bytes (slots_at bs n dn) + length (frame_chunk bs i) = slot_bytes (slots_at bs n (insert i dn))"
    and "slot_bytes (slots_at bs n (insert i dn)) \<le> length bs"
proof -
  have u: "unat (of_nat i :: u16) = i" using i n by (simp add: unat_of_nat_small)
  note grow = slots_at_grow [OF i, of bs]
  have b: "slot_bytes (slots_at bs n dn) + length (frame_chunk bs i) \<le> length bs"
    using slots_at_bytes [of bs n "insert i dn"] grow by simp
  have fits: "\<not> ra_max_bytes r < ra_buffered_bytes r + length (frame_chunk bs i)"
      "\<not> MAX_SERIALIZED_FRAME_BYTES < slot_bytes (slots_at bs n dn) + length (frame_chunk bs i)"
    using a b len by (auto simp: assembling_def)
  show "slot_bytes (slots_at bs n dn) + length (frame_chunk bs i) = slot_bytes (slots_at bs n (insert i dn))"
    and "slot_bytes (slots_at bs n (insert i dn)) \<le> length bs"
    using b grow by simp_all
  show "reassembler_store iter sha r is_new (partial_at (fr_lane f) bs n dn t0)
      (fragment_at (fr_lane f) (fr_frame_id f) bs (of_nat n) i) now
    = (if {..<n} \<subseteq> insert i dn
       then reassembler_complete iter sha (with_fragment f bs n dn t0 i r) (fr_frame_id f) (fr_lane f)
              (partial_at (fr_lane f) bs n (insert i dn) t0) now
       else (with_fragment f bs n dn t0 i r, Inr None))"
    using i fits grow slots_at_missing [of bs n "insert i dn"]
    by (simp add: reassembler_store_def partial_at_def Let_def u slots_at_nth slots_at_update with_fragment_def)
qed

text \<open>A fragment of the split, new or repeated, arriving at a reassembler that still misses another.\<close>

lemma store_progress:
  assumes a: "assembling f bs n dn t0 r" and i: "i < n" and n: "n \<le> 9" and len: "length bs \<le> MAX_SERIALIZED_FRAME_BYTES"
    and more: "\<not> {..<n} \<subseteq> insert i dn"
    and out: "reassembler_store iter sha r is_new (partial_at (fr_lane f) bs n dn t0)
      (fragment_at (fr_lane f) (fr_frame_id f) bs (of_nat n) i) now = (r', res)"
    and new: "is_new \<longrightarrow> dn = {}"
  shows "res = Inr None \<and> assembling f bs n (insert i dn) t0 r' \<and> ra_deadline_ms r' = ra_deadline_ms r"
proof -
  have u: "unat (of_nat i :: u16) = i" using i n by (simp add: unat_of_nat_small)
  let ?p = "partial_at (fr_lane f) bs n dn t0"
  show ?thesis
  proof (cases "i \<in> dn")
    case True
    then have "insert i dn = dn" by blast
    then show ?thesis
      using True a out i by (simp add: reassembler_store_def partial_at_def Let_def u slots_at_nth)
  next
    case False
    note fresh = store_fresh [OF a i False n len]
    have r': "res = Inr None" "r' = with_fragment f bs n dn t0 i r"
      using out more unfolding fresh(1) by simp_all
    have "partial_ok (partial_at (fr_lane f) bs n (insert i dn) t0)"
      using slots_at_bytes [of bs n "insert i dn"] len n
      by (simp add: partial_ok_def partial_at_def slots_at_def [of bs n] unat_of_nat_small)
    then have "ra_inv r'"
      using a fresh(2,3) unfolding r' with_fragment_def
      by (intro ra_inv_put [where p = ?p]) (auto simp: assembling_def partial_at_def)
    moreover have "ra_buffered_bytes r + length (frame_chunk bs i) + (length bs - slot_bytes (slots_at bs n (insert i dn)))
        \<le> ra_max_bytes r"
      using a fresh(2,3) by (simp only: assembling_def) arith
    ultimately show ?thesis
      using a by (simp add: r' assembling_def with_fragment_def del: add_diff_assoc diff_add_assoc)
  qed
qed

text \<open>Completing a frame whose slots are all filled.\<close>

definition with_frame ::
    "hash_iter \<Rightarrow> transport_frame \<Rightarrow> bytes \<Rightarrow> nat \<Rightarrow> u64 \<Rightarrow> stream_sequences \<Rightarrow> reassembler \<Rightarrow> reassembler" where
  "with_frame iter f bs n now s r =
     remember_completed iter
       (r\<lparr>ra_partials := bt_remove (fr_frame_id f) (ra_partials r), ra_buffered_bytes := ra_buffered_bytes r - n,
          ra_sequences := s\<rparr>)
       (fr_frame_id f) \<lparr>cf_at_ms = now, cf_header = take REMOTE_TRANSPORT_FRAME_HEADER_BYTES bs\<rparr>"

lemma store_finish_state:
  assumes a: "assembling f bs n dn t0 r" and i: "i < n" "i \<notin> dn" and n: "n \<le> 9" "length bs \<le> n * 65471"
    and f: "frame_ok f" "frame_encode sha f = Inr bs"
    and all: "{..<n} \<subseteq> insert i dn"
    and g: "gate_frame (ra_peer_origin r) (ra_sequences r) f = (s, Inr ())"
  shows "reassembler_store iter sha r is_new (partial_at (fr_lane f) bs n dn t0)
      (fragment_at (fr_lane f) (fr_frame_id f) bs (of_nat n) i) now
    = (with_frame iter f bs (slot_bytes (slots_at bs n (insert i dn))) now s (with_fragment f bs n dn t0 i r), Inr (Some f))"
proof -
  have whole: "concat (map the (slots_at bs n (insert i dn))) = bs"
    using n all by (simp add: slots_at_full concat_chunks fragment_consts)
  have dec: "frame_decode sha bs = Inr f" using f by (rule frame_decode_encode)
  have "bt_get (ra_completed r) (fr_frame_id f) = None" using a by (simp add: assembling_def)
  then show ?thesis
    using all whole dec g unfolding store_fresh(1) [OF a i n(1) frame_bytes_bound(2) [OF f]]
    by (simp add: reassembler_complete_def partial_at_def Let_def with_fragment_def with_frame_def)
qed

lemma store_finish:
  assumes a: "assembling f bs n dn t0 r" and i: "i < n" "i \<notin> dn" and n: "n \<le> 9" "length bs \<le> n * 65471"
    and f: "frame_ok f" "frame_encode sha f = Inr bs"
    and all: "{..<n} \<subseteq> insert i dn"
    and out: "reassembler_store iter sha r is_new (partial_at (fr_lane f) bs n dn t0)
      (fragment_at (fr_lane f) (fr_frame_id f) bs (of_nat n) i) now = (r', res)"
  shows "res = Inr (Some f)"
proof -
  obtain s where "gate_frame (ra_peer_origin r) (ra_sequences r) f = (s, Inr ())"
    using a by (cases "gate_frame (ra_peer_origin r) (ra_sequences r) f") (auto simp: assembling_def is_ok_iff)
  then show ?thesis
    using out store_finish_state [OF a i n f all] by simp
qed

lemma accept_as_store:
  assumes "assembling f bs n dn t0 r" and "i < n" and "n \<le> 9" and "saturating_sub now t0 < ra_deadline_ms r"
  shows "reassembler_accept iter sha r (fragment_at (fr_lane f) (fr_frame_id f) bs (of_nat n) i) now =
    reassembler_store iter sha (fst (reassembler_expire r now)) False (partial_at (fr_lane f) bs n dn t0)
      (fragment_at (fr_lane f) (fr_frame_id f) bs (of_nat n) i) now"
  using assembling_expire [OF assms(1,4)] fragment_at_shape [OF assms(2,3)]
  by (simp add: reassembler_accept_def assembling_def Let_def)

lemma run_assembles:
  assumes "assembling f bs n dn t0 r" and n: "n \<le> 9" "length bs \<le> n * 65471"
    and f: "frame_ok f" "frame_encode sha f = Inr bs"
    and "map fst es = map (fragment_at (fr_lane f) (fr_frame_id f) bs (of_nat n)) js"
    and "\<forall>e \<in> set es. saturating_sub (snd e) t0 < ra_deadline_ms r"
    and "js \<noteq> []" and "set js \<subseteq> {..<n}" and "{..<n} \<subseteq> set js \<union> dn" and "last js \<notin> dn \<union> set (butlast js)"
  shows "snd (reassembler_run iter sha r es) = [f]"
  using assms(1,6-)
proof (induction js arbitrary: es dn r)
  case Nil
  then show ?case by simp
next
  case (Cons j js)
  then obtain e es' where es: "es = e # es'" "fst e = fragment_at (fr_lane f) (fr_frame_id f) bs (of_nat n) j"
      "map fst es' = map (fragment_at (fr_lane f) (fr_frame_id f) bs (of_nat n)) js"
    by (cases es) auto
  let ?r = "fst (reassembler_expire r (snd e))"
  have j: "j < n" and t: "saturating_sub (snd e) t0 < ra_deadline_ms r"
    using Cons.prems es(1) by auto
  have a: "assembling f bs n dn t0 ?r" using Cons.prems(1) t by (rule assembling_expire)
  have d: "ra_deadline_ms ?r = ra_deadline_ms r" using expire_fields(2) [of r "snd e"] by (simp add: same_config_def)
  obtain r1 res where acc: "reassembler_accept iter sha r (fst e) (snd e) = (r1, res)" by fastforce
  note store = acc [unfolded es(2) accept_as_store [OF Cons.prems(1) j n(1) t]]
  show ?case
  proof (cases "js = []")
    case True
    with store_finish [OF a j _ n f _ store] Cons.prems have "res = Inr (Some f)" by auto
    with True es acc show ?thesis by simp
  next
    case False
    then have l: "last js \<notin> insert j dn \<union> set (butlast js)"
      using Cons.prems(7) by auto
    moreover have "last js \<in> {..<n}"
      using Cons.prems(5) last_in_set [OF False] by auto
    ultimately have "\<not> {..<n} \<subseteq> insert j dn" by blast
    from store_progress [OF a j n(1) frame_bytes_bound(2) [OF f] this store]
    have p: "res = Inr None" "assembling f bs n (insert j dn) t0 r1" "ra_deadline_ms r1 = ra_deadline_ms r"
      using d by simp_all
    have "snd (reassembler_run iter sha r1 es') = [f]"
      using p Cons.prems es False l by (intro Cons.IH [of "insert j dn"]) auto
    then show ?thesis
      using es(1) acc p(1) by (simp split: prod.splits)
  qed
qed

lemma ready_for_expire:
  assumes "ready_for f bs r"
  shows "ready_for f bs (fst (reassembler_expire r now))"
proof -
  let ?r = "fst (reassembler_expire r now)"
  have inv: "ra_inv r" using assms by (simp add: ready_for_def)
  have "bt_get (ra_partials ?r) (fr_frame_id f) = None" "bt_get (ra_completed ?r) (fr_frame_id f) = None"
      "length (ra_partials ?r) \<le> length (ra_partials r)"
    using assms by (auto simp: ready_for_def reassembler_expire_def Let_def bt_get_None_iff)
  then show ?thesis
    using assms expire_inv [OF inv, of now] expire_fields [of r now]
    by (simp add: ready_for_def same_config_def)
qed

text \<open>The first fragment of a frame opens its partial frame.\<close>

definition opened :: "transport_frame \<Rightarrow> bytes \<Rightarrow> nat \<Rightarrow> u64 \<Rightarrow> reassembler \<Rightarrow> reassembler" where
  "opened f bs n now r =
     (let r = fst (reassembler_expire r now) in
      r\<lparr>ra_partials := bt_insert (fr_frame_id f) (partial_at (fr_lane f) bs n {} now) (ra_partials r)\<rparr>)"

lemma slots_at_empty: "slots_at bs n {} = replicate n None"
  by (simp add: slots_at_def map_replicate_const)

lemma opened_assembling:
  assumes "ready_for f bs r" and "n \<le> 9"
  shows "assembling f bs n {} now (opened f bs n now r)"
proof -
  let ?r = "fst (reassembler_expire r now)" and ?p = "partial_at (fr_lane f) bs n {} now"
  have r: "ready_for f bs ?r" using assms(1) by (rule ready_for_expire)
  have "partial_ok ?p"
    using assms(2) by (simp add: partial_ok_def partial_at_def slots_at_empty unat_of_nat_small)
  moreover have "bt_total pf_buffered_bytes (bt_insert (fr_frame_id f) ?p (ra_partials ?r)) = bt_total pf_buffered_bytes (ra_partials ?r)"
    using r bt.total_insert_new [of "ra_partials ?r" "fr_frame_id f" pf_buffered_bytes ?p]
    by (simp add: ready_for_def partial_at_def slots_at_empty)
  moreover have "length (bt_insert (fr_frame_id f) ?p (ra_partials ?r)) = Suc (length (ra_partials ?r))"
    using r by (intro length_bt_insert_new) (simp add: ready_for_def)
  ultimately have "ra_inv (opened f bs n now r)"
    using r by (auto simp: opened_def ready_for_def ra_inv_def Let_def)
  then show ?thesis
    using r by (simp add: opened_def assembling_def ready_for_def Let_def slots_at_empty)
qed

lemma accept_opens:
  assumes "ready_for f bs r" and "i < n" and "n \<le> 9"
  shows "reassembler_accept iter sha r (fragment_at (fr_lane f) (fr_frame_id f) bs (of_nat n) i) now =
    reassembler_store iter sha (opened f bs n now r) True (partial_at (fr_lane f) bs n {} now)
      (fragment_at (fr_lane f) (fr_frame_id f) bs (of_nat n) i) now"
  using ready_for_expire [OF assms(1), of now] fragment_at_shape [OF assms(2,3)] assms(3)
  by (simp add: reassembler_accept_def ready_for_def opened_def partial_at_def slots_at_empty unat_of_nat_small Let_def)

lemma run_from_ready:
  assumes ready: "ready_for f bs r" and n: "n \<le> 9" "length bs \<le> n * 65471"
    and f: "frame_ok f" "frame_encode sha f = Inr bs"
    and es: "map fst es = map (fragment_at (fr_lane f) (fr_frame_id f) bs (of_nat n)) js"
    and t: "\<forall>e \<in> set es. saturating_sub (snd e) (snd (hd es)) < ra_deadline_ms r"
    and js: "js \<noteq> []" "set js = {..<n}" "last js \<notin> set (butlast js)"
  shows "snd (reassembler_run iter sha r es) = [f]"
proof -
  obtain j js' where j: "js = j # js'" using js(1) by (cases js) auto
  with es obtain e es' where e: "es = e # es'" "fst e = fragment_at (fr_lane f) (fr_frame_id f) bs (of_nat n) j"
      "map fst es' = map (fragment_at (fr_lane f) (fr_frame_id f) bs (of_nat n)) js'"
    by (cases es) auto
  have jn: "j < n" using js(2) j by auto
  note a = opened_assembling [OF ready n(1), of "snd e"]
  have d: "ra_deadline_ms (opened f bs n (snd e) r) = ra_deadline_ms r"
    using expire_fields(2) [of r "snd e"] by (simp add: opened_def same_config_def Let_def)
  obtain r1 res where acc: "reassembler_accept iter sha r (fst e) (snd e) = (r1, res)" by fastforce
  note store = acc [unfolded e(2) accept_opens [OF ready jn n(1)]]
  show ?thesis
  proof (cases "js' = []")
    case True
    with store_finish [OF a jn _ n f _ store] j js(2) have "res = Inr (Some f)" by auto
    with True e acc show ?thesis by simp
  next
    case False
    then have l: "last js' \<notin> {j} \<union> set (butlast js')" using js(3) j by auto
    moreover have "last js' \<in> {..<n}" using js(2) j last_in_set [OF False] by auto
    ultimately have "\<not> {..<n} \<subseteq> insert j {}" by blast
    from store_progress [OF a jn n(1) frame_bytes_bound(2) [OF f] this store]
    have p: "res = Inr None" "assembling f bs n {j} (snd e) r1" "ra_deadline_ms r1 = ra_deadline_ms r"
      using d by simp_all
    have "snd (reassembler_run iter sha r1 es') = [f]"
      using p e t False l js(2) j by (intro run_assembles [OF p(2) n f e(3)]) auto
    then show ?thesis
      using e(1) acc p(1) by (simp split: prod.splits)
  qed
qed

section \<open>Properties\<close>

text \<open>
  The fragment codec is exact: a byte string decodes to a fragment exactly when the fragment is
  well formed (defined flags, nonzero frame id, a legal shape) and encodes to that byte string.
\<close>

theorem fragment_codec_exact:
  "fragment_decode bs = Inr g \<longleftrightarrow> fragment_ok g \<and> fragment_encode g = Inr bs"
  by (rule fragment_codec.dec_iff)

text \<open>
  The canonical split. Every serialized frame of a legal size splits into at most nine fragments;
  their payloads concatenate to the frame, and each encodes to at most the 65,497 bytes a lane fragment
  may take on any carrier.
\<close>

theorem fragment_split:
  assumes "REMOTE_TRANSPORT_FRAME_HEADER_BYTES \<le> length bs" and "length bs \<le> MAX_SERIALIZED_FRAME_BYTES"
  shows "\<exists>gs. fragment_frame lane key bs = Inr gs \<and> concat (map fg_bytes gs) = bs
    \<and> length gs \<le> unat MAX_FRAGMENT_COUNT
    \<and> list_all (\<lambda>g. \<exists>w. fragment_encode g = Inr w \<and> length w \<le> LANE_FRAGMENT_TOTAL_BYTES) gs"
proof -
  have "72 \<le> length bs" using assms(1) by (simp add: REMOTE_TRANSPORT_FRAME_HEADER_BYTES_def)
  from fragment_frame_eq [OF this assms(2), of lane key] obtain n where n: "n \<le> 9" "length bs \<le> n * 65471"
    and gs: "fragment_frame lane key bs = Inr (map (fragment_at lane key bs (of_nat n)) [0..<n])" by blast
  have "\<exists>w. fragment_encode g = Inr w \<and> length w \<le> LANE_FRAGMENT_TOTAL_BYTES"
    if "g \<in> set (map (fragment_at lane key bs (of_nat n)) [0..<n])" for g
  proof -
    have "fragment_validate_shape g = Inr ()"
      using that n(1) fragment_at_shape by auto
    then show ?thesis
      by (auto simp: fragment_encode_ok fragment_shape_iff fragment_consts)
  qed
  moreover have "concat (map (frame_chunk bs) [0..<n]) = bs"
    using n(2) by (simp add: concat_chunks fragment_consts)
  ultimately show ?thesis
    using gs n(1) by (auto simp: list_all_iff MAX_FRAGMENT_COUNT_def o_def)
qed

theorem fragment_split_witness:
  "REMOTE_TRANSPORT_FRAME_HEADER_BYTES \<le> length (replicate 200000 (7 :: u8))
   \<and> length (replicate 200000 (7 :: u8)) \<le> MAX_SERIALIZED_FRAME_BYTES
   \<and> (\<exists>gs. fragment_frame Lane_Bulk 5 (replicate 200000 7) = Inr gs \<and> concat (map fg_bytes gs) = replicate 200000 7)"
  using fragment_split [of "replicate 200000 7" Lane_Bulk 5] by (auto simp: frame_consts lane_consts)

text \<open>
  C3. Reassembly in any order. Take a well-formed frame, its serialization and the fragments of the
  split. If the fragments arrive in any order, possibly with repetitions before the last missing one, at
  times within the deadline of the first arrival, at a reassembler that has room for the frame and whose
  gate would pass it, then exactly that frame is dispatched.
\<close>

theorem reassembly_in_any_order:
  assumes "ready_for f bs r" and "frame_ok f" and "frame_encode sha f = Inr bs"
    and "fragment_frame (fr_lane f) (fr_frame_id f) bs = Inr gs"
    and "set (map fst es) = set gs" and "last (map fst es) \<notin> set (butlast (map fst es))"
    and "\<forall>e \<in> set es. saturating_sub (snd e) (snd (hd es)) < ra_deadline_ms r"
  shows "snd (reassembler_run iter sha r es) = [f]"
proof -
  obtain n where n: "1 \<le> n" "n \<le> 9" "length bs \<le> n * 65471"
    and eq: "fragment_frame (fr_lane f) (fr_frame_id f) bs = Inr (map (fragment_at (fr_lane f) (fr_frame_id f) bs (of_nat n)) [0..<n])"
    using fragment_frame_eq [OF frame_bytes_bound [OF assms(2,3)]] by metis
  let ?G = "fragment_at (fr_lane f) (fr_frame_id f) bs (of_nat n)"
  let ?js = "map (\<lambda>e. unat (fg_index (fst e))) es"
  have gs: "set gs = ?G ` {..<n}" using assms(4) eq by (auto simp: lessThan_atLeast0)
  have idx: "unat (fg_index (?G i)) = i" if "i < n" for i
    using that n(2) by (simp add: unat_of_nat_small)
  have G: "?G (unat (fg_index g)) = g" if "g \<in> set gs" for g
    using that gs idx by auto
  have mem: "fst e \<in> set gs" if "e \<in> set es" for e
    using that by (simp flip: assms(5))
  have "map ?G ?js = map fst es"
    unfolding map_map by (rule map_cong [OF refl]) (simp only: o_apply G [OF mem])
  then have es: "map fst es = map ?G ?js" by (rule sym)
  have "set ?js = (\<lambda>g. unat (fg_index g)) ` set (map fst es)"
    by (simp only: set_map image_image)
  also have "\<dots> = (\<lambda>g. unat (fg_index g)) ` set gs" by (simp only: assms(5))
  also have "\<dots> = {..<n}" unfolding gs image_image using idx by auto
  finally have js: "set ?js = {..<n}" .
  then have ne: "?js \<noteq> []" using n(1) by (auto simp: lessThan_empty_iff simp flip: set_empty)
  have "last ?js \<notin> set (butlast ?js)"
  proof
    assume "last ?js \<in> set (butlast ?js)"
    then have "?G (last ?js) \<in> set (map ?G (butlast ?js))" by simp
    then show False
      using assms(6) es ne by (simp add: last_map map_butlast)
  qed
  with run_from_ready [OF assms(1) n(2,3) assms(2,3) es assms(7) ne js] show ?thesis by simp
qed

definition sample_frame :: "nat \<Rightarrow> transport_frame" where
  "sample_frame k = \<lparr>fr_lane = Lane_Bulk, fr_flags = 1, fr_stream_id = 2, fr_stream_seq = 0, fr_frame_id = 9,
     fr_payload = replicate k 7\<rparr>"

lemma sample_frame_ok: "k \<le> 70000 \<Longrightarrow> frame_ok (sample_frame k)"
  by (simp add: sample_frame_def frame_ok_def flags_from_bits_def FLAGS_DEFINED_def FLAG_END_STREAM_def
      FLAG_RESET_STREAM_def lane_consts)

lemma sample_frame_bytes:
  assumes "k \<le> 70000"
  obtains bs where "frame_encode (\<lambda>_. 0) (sample_frame k) = Inr bs" and "length bs = 72 + k"
  using frame_encode_ok [OF sample_frame_ok [OF assms], of "\<lambda>_. 0"] by (simp add: sample_frame_def)

lemma sample_frame_ready:
  assumes "length bs \<le> 100000"
  shows "ready_for (sample_frame k) bs (reassembler_new Origin_Client)"
proof -
  have "is_ok (snd (gate_frame Origin_Client (sequences_new Origin_Client) (sample_frame k)))"
    by (simp add: gate_frame_def sample_frame_def validate_stream_id_def origin_of_stream_id_def CONTROL_STREAM_ID_def
        sequences_accept_def sequences_new_def lane_state_def stream_ordinal_def saturating_sub_def
        MAX_OUTSTANDING_STREAM_IDS_def MAX_ACTIVE_STREAMS_PER_PEER_def Let_def)
  then show ?thesis
    using ra_inv_new [of Origin_Client] assms
    by (simp add: ready_for_def reassembler_new_def MAX_INCOMPLETE_FRAMES_PER_PEER_def MAX_REASSEMBLY_BYTES_PER_PEER_def)
qed

theorem reassembly_in_any_order_witness:
  "\<exists>bs a b. frame_encode (\<lambda>_. 0) (sample_frame 70000) = Inr bs \<and> fragment_frame Lane_Bulk 9 bs = Inr [a, b]
     \<and> snd (reassembler_run id (\<lambda>_. 0) (reassembler_new Origin_Client) [(b, 100), (b, 200), (a, 4000)]) = [sample_frame 70000]"
proof -
  have ok: "frame_ok (sample_frame 70000)" by (simp add: sample_frame_ok)
  obtain bs where bs: "frame_encode (\<lambda>_. 0) (sample_frame 70000) = Inr bs" "length bs = 70072"
    using sample_frame_bytes [of 70000] by auto
  obtain n where n: "length bs \<le> n * 65471" "(n - 1) * 65471 < length bs" "1 \<le> n"
    and eq: "fragment_frame Lane_Bulk 9 bs = Inr (map (fragment_at Lane_Bulk 9 bs (of_nat n)) [0..<n])"
    using fragment_frame_eq [OF frame_bytes_bound [OF ok bs(1)], of Lane_Bulk 9] by metis
  have "n = 2" using n bs(2) by linarith
  then obtain a b where gs: "fragment_frame Lane_Bulk 9 bs = Inr [a, b]" and "fg_index a = 0" "fg_index b = 1"
    using eq by (simp add: numeral_2_eq_2)
  then have "a \<noteq> b" by auto
  have ready: "ready_for (sample_frame 70000) bs (reassembler_new Origin_Client)"
    using bs(2) by (intro sample_frame_ready) simp
  have "snd (reassembler_run id (\<lambda>_. 0) (reassembler_new Origin_Client) [(b, 100), (b, 200), (a, 4000)]) = [sample_frame 70000]"
    using gs \<open>a \<noteq> b\<close>
    by (intro reassembly_in_any_order [OF ready ok bs(1), of "[a, b]"])
      (auto simp: sample_frame_def reassembler_new_def REASSEMBLY_DEADLINE_MS_def saturating_sub_def)
  with bs(1) gs show ?thesis by blast
qed

text \<open>
  C11. Budgets. Whatever fragments a peer sends and whenever they arrive, at most 16 frames are
  incomplete, the buffered bytes are exactly the bytes held in the partial frames and at most 8 MiB, and at most
  64 completed ids are remembered. The hypothesis says that a \<open>HashMap\<close> iterates over its own entries.
\<close>

theorem reassembler_bounded:
  assumes "hash_order iter"
  shows "let r = foldl (reassembler_step iter sha) (reassembler_new origin) es in
    incomplete_frames r \<le> 16 \<and> ra_buffered_bytes r = bt_total (\<lambda>p. slot_bytes (pf_slots p)) (ra_partials r)
    \<and> ra_buffered_bytes r \<le> 8388608 \<and> remembered_frames r \<le> 64"
proof -
  let ?r = "foldl (reassembler_step iter sha) (reassembler_new origin) es"
  have b: "ra_bounded iter origin ?r"
    using assms by (intro reassembly.inv_run ra_bounded_new) (simp_all add: list_all_iff)
  then have inv: "ra_inv ?r" by (simp add: ra_bounded_def)
  have "pf_buffered_bytes (snd e) = slot_bytes (pf_slots (snd e))" if "e \<in> set (ra_partials ?r)" for e
  proof -
    have "bt_get (ra_partials ?r) (fst e) = Some (snd e)"
      using that inv by (simp add: ra_inv_def bt_get_eq_Some_iff)
    then show ?thesis using inv by (auto simp: ra_inv_def partial_ok_def)
  qed
  then have "bt_total pf_buffered_bytes (ra_partials ?r) = bt_total (\<lambda>p. slot_bytes (pf_slots p)) (ra_partials ?r)"
    unfolding bt_total_def by (intro arg_cong [of _ _ sum_list] map_cong) auto
  then show ?thesis
    using b by (simp add: ra_bounded_def ra_inv_def same_config_def reassembler_new_def incomplete_frames_def
        remembered_frames_def MAX_INCOMPLETE_FRAMES_PER_PEER_def MAX_REASSEMBLY_BYTES_PER_PEER_def
        MAX_COMPLETED_FRAME_MEMORY_def Let_def)
qed

theorem reassembler_bounded_witness:
  "hash_order id
   \<and> (let r = foldl (reassembler_step id (\<lambda>_. 0)) (reassembler_new Origin_Daemon) [(fragment_at Lane_Bulk 9 [1] 1 0, 5)] in
        incomplete_frames r \<le> 16 \<and> ra_buffered_bytes r \<le> 8388608)"
  using reassembler_bounded [of id "\<lambda>_. 0" Origin_Daemon "[(fragment_at Lane_Bulk 9 [1] 1 0, 5)]"]
  by (auto simp: hash_order_def Let_def)

text \<open>
  C7. Dispatch order. Whatever fragments arrive at a fresh reassembler, in whatever order and at whatever
  times, the frames it dispatches on one stream of one lane carry the sequence numbers \<open>0, 1, 2, ...\<close> in
  order, and none follows a terminal frame of that stream.
\<close>

theorem reassembler_dispatches_in_order:
  "let out = on_stream lane i (snd (reassembler_run iter sha (reassembler_new origin) es)) in
     map (\<lambda>f. unat (fr_stream_seq f)) out = [0..<length out] \<and> list_all (\<lambda>f. \<not> frame_terminal f) (butlast out)"
proof -
  obtain r out where run: "reassembler_run iter sha (reassembler_new origin) es = (r, out)" by fastforce
  have o: "ra_peer_origin (reassembler_new origin) = origin" by (simp add: reassembler_new_def)
  have "history_ok origin (ra_sequences r) ([] @ out)"
    using run_keeps [OF ra_inv_new _ run, of "[]"] ra_history_new [of origin] o by simp
  then show ?thesis
    by (simp add: run history_ok_def Let_def list_all_iff)
qed

text \<open>
  What a dispatch certifies. A dispatched frame is well formed, is on the lane and under the id its
  last fragment announced, was not remembered as completed, and is remembered from now on with the time
  of its completion.
\<close>

theorem reassembler_dispatch_certified:
  assumes "reassembler_accept iter sha r g now = (r', Inr (Some f))"
  shows "frame_ok f \<and> fr_lane f = fg_lane g \<and> fr_frame_id f = fg_frame_id g
    \<and> bt_get (ra_completed (fst (reassembler_expire r now))) (fr_frame_id f) = None
    \<and> (\<exists>c. bt_get (ra_completed r') (fr_frame_id f) = Some c \<and> cf_at_ms c = now)"
proof -
  have c: "frame_ok f \<and> fr_lane f = lane \<and> fr_frame_id f = key \<and> bt_get (ra_completed r0) key = None
      \<and> (\<exists>c. bt_get (ra_completed r') key = Some c \<and> cf_at_ms c = now)"
    if "reassembler_complete iter sha r0 key lane p now = (r', Inr (Some f))" for r0 key lane p
    using that
    by (auto simp: reassembler_complete_def Let_def remember_completed_def frame_codec.dec_ok
        split: sum.splits if_splits option.splits prod.splits)
  have s: "frame_ok f \<and> fr_lane f = fg_lane g \<and> fr_frame_id f = fg_frame_id g
      \<and> bt_get (ra_completed r0) (fg_frame_id g) = None
      \<and> (\<exists>c. bt_get (ra_completed r') (fg_frame_id g) = Some c \<and> cf_at_ms c = now)"
    if "reassembler_store iter sha r0 is_new p g now = (r', Inr (Some f))" for r0 is_new p
    using that by (auto simp: reassembler_store_def Let_def split: if_splits option.splits dest!: c)
  show ?thesis
    using assms by (auto simp: reassembler_accept_def Let_def split: sum.splits if_splits option.splits dest!: s)
qed

theorem reassembler_dispatch_certified_witness:
  "\<exists>g r'. reassembler_accept id (\<lambda>_. 0) (reassembler_new Origin_Client) g 5 = (r', Inr (Some (sample_frame 3)))
     \<and> (\<exists>c. bt_get (ra_completed r') 9 = Some c \<and> cf_at_ms c = 5)"
proof -
  have ok: "frame_ok (sample_frame 3)" by (simp add: sample_frame_ok)
  obtain bs where bs: "frame_encode (\<lambda>_. 0) (sample_frame 3) = Inr bs" "length bs = 75"
    using sample_frame_bytes [of 3] by auto
  have ready: "ready_for (sample_frame 3) bs (reassembler_new Origin_Client)"
    using bs(2) by (intro sample_frame_ready) simp
  let ?f = "sample_frame 3"
  let ?g = "fragment_at (fr_lane ?f) (fr_frame_id ?f) bs (of_nat 1) 0"
  obtain r' res where acc: "reassembler_accept id (\<lambda>_. 0) (reassembler_new Origin_Client) ?g 5 = (r', res)" by fastforce
  have "res = Inr (Some ?f)"
    using bs(2) acc accept_opens [OF ready, of 0 1 id "\<lambda>_. 0" 5]
    by (intro store_finish [OF opened_assembling [OF ready, of 1 5] _ _ _ _ ok bs(1), of 0 id True 5 r']) auto
  with acc have "reassembler_accept id (\<lambda>_. 0) (reassembler_new Origin_Client) ?g 5 = (r', Inr (Some ?f))" by simp
  from reassembler_dispatch_certified [OF this] this show ?thesis
    by (auto simp: sample_frame_def)
qed

end
