(* ===== verification/Remote_Scheduler.thy ===== *)
theory Remote_Scheduler
  imports Remote_Fragment
begin

text \<open>
  Queue limits and lane scheduling (\<open>crates/cockpit-proto/src/remote_transport/scheduler.rs\<close>): the
  admission rules with their reservations, the fixed lane schedule with round robin over the streams
  of a lane, the return of a refused fragment, and cancellation.

  The array \<open>lanes\<close> indexed by \<open>lane as usize\<close> is a function from lanes; a \<open>VecDeque\<close> is a list with
  its front first.

  Shown here: the frame and byte counts always equal the charges in the queues; the caps hold under
  every call but the return of a fragment; the control reservation is deliverable; each stream is
  emitted in the order it was queued; a ready lane is served within four calls; handing a fragment
  back restores the queue.
\<close>

section \<open>Definitions\<close>

subsection \<open>Limits and outcomes\<close>

definition LANE_SCHEDULE :: "remote_lane list" where
  "LANE_SCHEDULE = [Lane_Control, Lane_Interactive, Lane_Control, Lane_Bulk,
                    Lane_Interactive, Lane_Control, Lane_Interactive, Lane_Bulk]"

definition DRR_QUANTUM_BYTES :: nat where
  "DRR_QUANTUM_BYTES = REMOTE_CARRIER_FRAGMENT_MAX_PAYLOAD_BYTES"

record queue_limits =
  ql_control_frames :: nat
  ql_control_bytes :: nat
  ql_interactive_frames :: nat
  ql_interactive_bytes :: nat
  ql_bulk_frames :: nat
  ql_bulk_bytes :: nat
  ql_aggregate_bytes :: nat
  ql_control_reserved_bytes :: nat
  ql_control_reserved_frames :: nat
  ql_interactive_reserved_bytes :: nat

definition LIMITS_DEFAULT :: queue_limits where
  "LIMITS_DEFAULT =
     \<lparr>ql_control_frames = 256, ql_control_bytes = 2 * 1024 * 1024, ql_interactive_frames = 512,
      ql_interactive_bytes = 8 * 1024 * 1024, ql_bulk_frames = 128, ql_bulk_bytes = 8 * 1024 * 1024,
      ql_aggregate_bytes = 16 * 1024 * 1024, ql_control_reserved_bytes = 1024 * 1024,
      ql_control_reserved_frames = 32, ql_interactive_reserved_bytes = 2 * 1024 * 1024\<rparr>"

fun frames_for :: "queue_limits \<Rightarrow> remote_lane \<Rightarrow> nat" where
  "frames_for l Lane_Control = ql_control_frames l"
| "frames_for l Lane_Interactive = ql_interactive_frames l"
| "frames_for l Lane_Bulk = ql_bulk_frames l"

fun bytes_for :: "queue_limits \<Rightarrow> remote_lane \<Rightarrow> nat" where
  "bytes_for l Lane_Control = ql_control_bytes l"
| "bytes_for l Lane_Interactive = ql_interactive_bytes l"
| "bytes_for l Lane_Bulk = ql_bulk_bytes l"

fun reserved_bytes_for :: "queue_limits \<Rightarrow> remote_lane \<Rightarrow> nat" where
  "reserved_bytes_for l Lane_Control = ql_control_reserved_bytes l"
| "reserved_bytes_for l Lane_Interactive = ql_interactive_reserved_bytes l"
| "reserved_bytes_for l Lane_Bulk = 0"

text \<open>
  The subtraction of the code would panic or wrap for limits whose reservations exceed the aggregate; the
  default limits do not, and the natural subtraction agrees with the code for them.
\<close>

definition shared_pool_bytes :: "queue_limits \<Rightarrow> nat" where
  "shared_pool_bytes l = ql_aggregate_bytes l - ql_control_reserved_bytes l - ql_interactive_reserved_bytes l"

datatype queue_outcome =
    Enqueued
  | Rejected remote_transport_error
  | Backpressure remote_transport_error
  | CloseStream remote_transport_error

fun outcome_for_lane :: "remote_lane \<Rightarrow> remote_transport_error \<Rightarrow> queue_outcome" where
  "outcome_for_lane Lane_Bulk e = Rejected e"
| "outcome_for_lane Lane_Interactive e = Backpressure e"
| "outcome_for_lane Lane_Control e = CloseStream e"

fun outcome_is_enqueued :: "queue_outcome \<Rightarrow> bool" where
  "outcome_is_enqueued Enqueued = True"
| "outcome_is_enqueued _ = False"

fun outcome_error :: "queue_outcome \<Rightarrow> remote_transport_error option" where
  "outcome_error Enqueued = None"
| "outcome_error (Rejected e) = Some e"
| "outcome_error (Backpressure e) = Some e"
| "outcome_error (CloseStream e) = Some e"

subsection \<open>Queues\<close>

record send_request =
  sr_lane :: remote_lane
  sr_stream_id :: u64
  sr_fragment :: carrier_fragment
  sr_accounted_bytes :: "nat option"

record queued_fragment =
  qf_fragment :: carrier_fragment
  qf_accounted_bytes :: "nat option"

record stream_queue =
  sq_fragments :: "queued_fragment list"
  sq_deficit :: nat

record lane_queue =
  lq_streams :: "(u64, stream_queue) btree"
  lq_order :: "u64 list"
  lq_frames :: nat
  lq_bytes :: nat
  lq_writable :: bool

record lane_scheduler =
  sc_limits :: queue_limits
  sc_lanes :: "remote_lane \<Rightarrow> lane_queue"
  sc_cursor :: nat

definition stream_queue_default :: stream_queue where
  "stream_queue_default = \<lparr>sq_fragments = [], sq_deficit = 0\<rparr>"

definition scheduler_new :: "queue_limits \<Rightarrow> lane_scheduler" where
  "scheduler_new limits =
     \<lparr>sc_limits = limits,
      sc_lanes = (\<lambda>_. \<lparr>lq_streams = [], lq_order = [], lq_frames = 0, lq_bytes = 0, lq_writable = True\<rparr>),
      sc_cursor = 0\<rparr>"

definition queued_frames :: "lane_scheduler \<Rightarrow> remote_lane \<Rightarrow> nat" where
  "queued_frames s lane = lq_frames (sc_lanes s lane)"

definition queued_bytes :: "lane_scheduler \<Rightarrow> remote_lane \<Rightarrow> nat" where
  "queued_bytes s lane = lq_bytes (sc_lanes s lane)"

definition aggregate_bytes :: "lane_scheduler \<Rightarrow> nat" where
  "aggregate_bytes s = sum_list (map (\<lambda>lane. lq_bytes (sc_lanes s lane)) lane_ALL)"

definition shared_usage :: "lane_scheduler \<Rightarrow> nat" where
  "shared_usage s =
     sum_list (map (\<lambda>lane. lq_bytes (sc_lanes s lane) - reserved_bytes_for (sc_limits s) lane) lane_ALL)"

definition set_lane :: "lane_scheduler \<Rightarrow> remote_lane \<Rightarrow> lane_queue \<Rightarrow> lane_scheduler" where
  "set_lane s lane q = s\<lparr>sc_lanes := (sc_lanes s)(lane := q)\<rparr>"

definition set_lane_writable :: "lane_scheduler \<Rightarrow> remote_lane \<Rightarrow> bool \<Rightarrow> lane_scheduler" where
  "set_lane_writable s lane writable = set_lane s lane (sc_lanes s lane\<lparr>lq_writable := writable\<rparr>)"

definition is_lane_writable :: "lane_scheduler \<Rightarrow> remote_lane \<Rightarrow> bool" where
  "is_lane_writable s lane = lq_writable (sc_lanes s lane)"

definition has_pending :: "lane_scheduler \<Rightarrow> bool" where
  "has_pending s \<longleftrightarrow> list_ex (\<lambda>lane. lq_order (sc_lanes s lane) \<noteq> []) lane_ALL"

subsection \<open>Admission\<close>

text \<open>The loop that pushes the fragments of a frame: only the last carries the frame's charge.\<close>

definition charged :: "nat \<Rightarrow> carrier_fragment list \<Rightarrow> queued_fragment list" where
  "charged sz gs =
     (let last = length gs - 1 in
      map (\<lambda>(i, g). \<lparr>qf_fragment = g, qf_accounted_bytes = (if i = last then Some sz else None)\<rparr>)
        (zip [0..<length gs] gs))"

definition push_frame :: "lane_queue \<Rightarrow> u64 \<Rightarrow> nat \<Rightarrow> carrier_fragment list \<Rightarrow> lane_queue" where
  "push_frame q stream_id sz gs =
     (let stream = (case bt_get (lq_streams q) stream_id of Some st \<Rightarrow> st | None \<Rightarrow> stream_queue_default);
          was_empty = (sq_fragments stream = []);
          stream = stream\<lparr>sq_fragments := sq_fragments stream @ charged sz gs\<rparr> in
      q\<lparr>lq_streams := bt_insert stream_id stream (lq_streams q),
        lq_order := (if was_empty then lq_order q @ [stream_id] else lq_order q),
        lq_frames := lq_frames q + 1,
        lq_bytes := lq_bytes q + sz\<rparr>)"

definition enqueue ::
    "(bytes \<Rightarrow> digest32) \<Rightarrow> lane_scheduler \<Rightarrow> transport_frame \<Rightarrow> lane_scheduler \<times> queue_outcome" where
  "enqueue sha s frame =
     (let lane = fr_lane frame; sz = frame_serialized_len frame; q = sc_lanes s lane in
      if lq_frames q + 1 > frames_for (sc_limits s) lane
      then (s, outcome_for_lane lane
             (error_with_lane (if lane = Lane_Control then ControlQueueOverflow else QueueFrameLimit) lane))
      else if lq_bytes q + sz > bytes_for (sc_limits s) lane
      then (s, outcome_for_lane lane
             (error_with_size (if lane = Lane_Control then ControlQueueOverflow else QueueByteLimit) lane sz))
      else
        let reserved_bytes = (if lane = Lane_Control \<and> lq_frames q \<ge> ql_control_reserved_frames (sc_limits s)
                              then 0 else reserved_bytes_for (sc_limits s) lane);
            reserved_headroom = reserved_bytes - lq_bytes q;
            from_shared = sz - reserved_headroom in
        if shared_usage s + from_shared > shared_pool_bytes (sc_limits s)
        then (s, outcome_for_lane lane (error_with_size QueueAggregateLimit lane sz))
        else case frame_encode sha frame of
            Inl e \<Rightarrow> (s, outcome_for_lane lane e)
          | Inr serialized \<Rightarrow>
            (case fragment_frame lane (fr_frame_id frame) serialized of
               Inl e \<Rightarrow> (s, outcome_for_lane lane e)
             | Inr gs \<Rightarrow> (set_lane s lane (push_frame q (fr_stream_id frame) sz gs), Enqueued)))"

subsection \<open>Emission\<close>

definition pop_queue :: "remote_lane \<Rightarrow> lane_queue \<Rightarrow> lane_queue \<times> send_request option" where
  "pop_queue lane q =
     (if \<not> lq_writable q then (q, None)
      else case lq_order q of
        [] \<Rightarrow> (q, None)
      | stream_id # order \<Rightarrow>
        let q = q\<lparr>lq_order := order\<rparr> in
        (case bt_get (lq_streams q) stream_id of
           None \<Rightarrow> (q, None)
         | Some stream \<Rightarrow>
           let stream = stream\<lparr>sq_deficit := sq_deficit stream + DRR_QUANTUM_BYTES\<rparr> in
           (case sq_fragments stream of
              [] \<Rightarrow> (q\<lparr>lq_streams := bt_insert stream_id stream (lq_streams q)\<rparr>, None)
            | queued # rest \<Rightarrow>
              let stream = stream\<lparr>sq_fragments := rest,
                                  sq_deficit := sq_deficit stream - length (fg_bytes (qf_fragment queued))\<rparr>;
                  q = (if rest = [] then q\<lparr>lq_streams := bt_remove stream_id (lq_streams q)\<rparr>
                       else q\<lparr>lq_streams := bt_insert stream_id stream (lq_streams q),
                              lq_order := lq_order q @ [stream_id]\<rparr>);
                  q = (case qf_accounted_bytes queued of
                         Some n \<Rightarrow> q\<lparr>lq_frames := lq_frames q - 1, lq_bytes := lq_bytes q - n\<rparr>
                       | None \<Rightarrow> q) in
              (q, Some \<lparr>sr_lane = lane, sr_stream_id = stream_id, sr_fragment = qf_fragment queued,
                        sr_accounted_bytes = qf_accounted_bytes queued\<rparr>))))"

definition pop_from_lane :: "lane_scheduler \<Rightarrow> remote_lane \<Rightarrow> lane_scheduler \<times> send_request option" where
  "pop_from_lane s lane =
     (case pop_queue lane (sc_lanes s lane) of (q, res) \<Rightarrow> (set_lane s lane q, res))"

text \<open>The bounded loop of \<open>next_fragment\<close>: each slot of the schedule is examined at most once.\<close>

fun next_slots :: "nat \<Rightarrow> lane_scheduler \<Rightarrow> lane_scheduler \<times> send_request option" where
  "next_slots 0 s = (s, None)"
| "next_slots (Suc k) s =
     (let lane = LANE_SCHEDULE ! sc_cursor s;
          s = s\<lparr>sc_cursor := (sc_cursor s + 1) mod length LANE_SCHEDULE\<rparr> in
      case pop_from_lane s lane of
        (s, Some request) \<Rightarrow> (s, Some request)
      | (s, None) \<Rightarrow> next_slots k s)"

definition next_fragment :: "lane_scheduler \<Rightarrow> lane_scheduler \<times> send_request option" where
  "next_fragment s = next_slots (length LANE_SCHEDULE) s"

subsection \<open>Return and cancellation\<close>

definition requeue_queue :: "lane_queue \<Rightarrow> send_request \<Rightarrow> lane_queue" where
  "requeue_queue q request =
     (let q = (case sr_accounted_bytes request of
                 Some n \<Rightarrow> q\<lparr>lq_frames := lq_frames q + 1, lq_bytes := lq_bytes q + n\<rparr>
               | None \<Rightarrow> q);
          stream_id = sr_stream_id request;
          stream = (case bt_get (lq_streams q) stream_id of Some st \<Rightarrow> st | None \<Rightarrow> stream_queue_default);
          stream = stream\<lparr>sq_fragments :=
            \<lparr>qf_fragment = sr_fragment request, qf_accounted_bytes = sr_accounted_bytes request\<rparr> # sq_fragments stream\<rparr> in
      q\<lparr>lq_streams := bt_insert stream_id stream (lq_streams q),
        lq_order := stream_id # filter (\<lambda>i. i \<noteq> stream_id) (lq_order q)\<rparr>)"

definition requeue :: "lane_scheduler \<Rightarrow> send_request \<Rightarrow> lane_scheduler" where
  "requeue s request = set_lane s (sr_lane request) (requeue_queue (sc_lanes s (sr_lane request)) request)"

text \<open>The loop of \<open>close_stream\<close> over the fragments it drops.\<close>

fun release_charges :: "queued_fragment list \<Rightarrow> lane_queue \<Rightarrow> lane_queue" where
  "release_charges [] q = q"
| "release_charges (f # fs) q =
     release_charges fs
       (case qf_accounted_bytes f of
          Some n \<Rightarrow> q\<lparr>lq_frames := lq_frames q - 1, lq_bytes := lq_bytes q - n\<rparr>
        | None \<Rightarrow> q)"

definition close_queue :: "lane_queue \<Rightarrow> u64 \<Rightarrow> lane_queue" where
  "close_queue q stream_id =
     (let q = (case bt_get (lq_streams q) stream_id of
                 None \<Rightarrow> q
               | Some stream \<Rightarrow>
                   release_charges (sq_fragments stream) (q\<lparr>lq_streams := bt_remove stream_id (lq_streams q)\<rparr>)) in
      q\<lparr>lq_order := filter (\<lambda>i. i \<noteq> stream_id) (lq_order q)\<rparr>)"

definition close_stream :: "lane_scheduler \<Rightarrow> remote_lane \<Rightarrow> u64 \<Rightarrow> lane_scheduler" where
  "close_stream s lane stream_id = set_lane s lane (close_queue (sc_lanes s lane) stream_id)"

subsection \<open>Predicates\<close>

text \<open>The fragments waiting on a stream, and the charges among queued fragments.\<close>

definition content :: "lane_queue \<Rightarrow> u64 \<Rightarrow> queued_fragment list" where
  "content q i = (case bt_get (lq_streams q) i of None \<Rightarrow> [] | Some st \<Rightarrow> sq_fragments st)"

definition charge :: "queued_fragment \<Rightarrow> nat" where
  "charge f = (case qf_accounted_bytes f of None \<Rightarrow> 0 | Some n \<Rightarrow> n)"

definition charges :: "queued_fragment list \<Rightarrow> nat" where
  "charges fs = length (filter (\<lambda>f. qf_accounted_bytes f \<noteq> None) fs)"

definition charge_bytes :: "queued_fragment list \<Rightarrow> nat" where
  "charge_bytes fs = sum_list (map charge fs)"

definition lq_inv :: "lane_queue \<Rightarrow> bool" where
  "lq_inv q \<longleftrightarrow> bt_wf (lq_streams q) \<and> distinct (lq_order q)
     \<and> (\<forall>i. i \<in> set (lq_order q) \<longleftrightarrow> content q i \<noteq> [])
     \<and> (\<forall>i st. bt_get (lq_streams q) i = Some st \<longrightarrow> sq_fragments st \<noteq> [])
     \<and> lq_frames q = bt_total (\<lambda>st. charges (sq_fragments st)) (lq_streams q)
     \<and> lq_bytes q = bt_total (\<lambda>st. charge_bytes (sq_fragments st)) (lq_streams q)"

definition sc_inv :: "lane_scheduler \<Rightarrow> bool" where
  "sc_inv s \<longleftrightarrow> (\<forall>lane. lq_inv (sc_lanes s lane)) \<and> sc_cursor s < 8"

definition within_caps :: "lane_scheduler \<Rightarrow> bool" where
  "within_caps s \<longleftrightarrow>
     (\<forall>lane. queued_frames s lane \<le> frames_for (sc_limits s) lane \<and> queued_bytes s lane \<le> bytes_for (sc_limits s) lane)
     \<and> shared_usage s \<le> shared_pool_bytes (sc_limits s)"

section \<open>One lane\<close>

lemma charges_simps [simp]:
  "charges [] = 0" "charge_bytes [] = 0"
  "charges (f # fs) = (if qf_accounted_bytes f = None then 0 else 1) + charges fs"
  "charge_bytes (f # fs) = charge f + charge_bytes fs"
  "charges (fs @ gs) = charges fs + charges gs" "charge_bytes (fs @ gs) = charge_bytes fs + charge_bytes gs"
  by (simp_all add: charges_def charge_bytes_def)

lemma charged_snoc:
  "charged sz (gs @ [g]) = map (\<lambda>g. \<lparr>qf_fragment = g, qf_accounted_bytes = None\<rparr>) gs @ [\<lparr>qf_fragment = g, qf_accounted_bytes = Some sz\<rparr>]"
  by (rule nth_equalityI) (auto simp: charged_def Let_def nth_append)

lemma charged_charges:
  assumes "gs \<noteq> []"
  shows "charges (charged sz gs) = 1" and "charge_bytes (charged sz gs) = sz" and "map qf_fragment (charged sz gs) = gs"
    and "charged sz gs \<noteq> []"
proof -
  obtain hs h where "gs = hs @ [h]" using assms by (cases gs rule: rev_cases) auto
  moreover have "charges (map (\<lambda>g. \<lparr>qf_fragment = g, qf_accounted_bytes = None\<rparr>) hs) = 0"
    and "charge_bytes (map (\<lambda>g. \<lparr>qf_fragment = g, qf_accounted_bytes = None\<rparr>) hs) = 0"
    by (induction hs) (simp_all add: charge_def)
  ultimately show "charges (charged sz gs) = 1" "charge_bytes (charged sz gs) = sz" "map qf_fragment (charged sz gs) = gs"
      "charged sz gs \<noteq> []"
    by (simp_all add: charged_snoc charge_def o_def)
qed

text \<open>Two ways a lane queue changes: a stream gets a nonempty content, or it is removed.\<close>

lemma lq_inv_set:
  assumes inv: "lq_inv q" and st: "sq_fragments st \<noteq> []"
    and q': "lq_streams q' = bt_insert i st (lq_streams q)" "distinct (lq_order q')" "set (lq_order q') = insert i (set (lq_order q))"
    and F: "lq_frames q' + charges (content q i) = lq_frames q + charges (sq_fragments st)"
    and B: "lq_bytes q' + charge_bytes (content q i) = lq_bytes q + charge_bytes (sq_fragments st)"
  shows "lq_inv q'" and "content q' j = (if j = i then sq_fragments st else content q j)"
proof -
  show c: "content q' j = (if j = i then sq_fragments st else content q j)" for j
    by (simp add: content_def q')
  have total: "f (content q i) + bt_total (\<lambda>st. f (sq_fragments st)) (lq_streams q')
      = f (sq_fragments st) + bt_total (\<lambda>st. f (sq_fragments st)) (lq_streams q)" if "f [] = 0" for f
  proof (cases "bt_get (lq_streams q) i")
    case None
    then show ?thesis
      using that bt.total_insert_new [OF None, of "\<lambda>st. f (sq_fragments st)" st] by (simp add: content_def q'(1))
  next
    case (Some old)
    then show ?thesis
      using inv bt.total_replace [OF _ Some, of "\<lambda>st. f (sq_fragments st)" st] by (simp add: content_def q'(1) lq_inv_def)
  qed
  have "bt_wf (lq_streams q')" using inv by (simp add: q'(1) lq_inv_def)
  moreover have "\<forall>j. j \<in> set (lq_order q') \<longleftrightarrow> content q' j \<noteq> []"
    using inv st by (auto simp: q'(3) c lq_inv_def)
  moreover have "\<forall>j s. bt_get (lq_streams q') j = Some s \<longrightarrow> sq_fragments s \<noteq> []"
    using inv st by (simp add: q'(1) lq_inv_def)
  ultimately show "lq_inv q'"
    using q'(2) F B total [of charges] total [of charge_bytes] inv unfolding lq_inv_def by simp
qed

lemma lq_inv_unset:
  assumes inv: "lq_inv q"
    and q': "lq_streams q' = bt_remove i (lq_streams q)" "distinct (lq_order q')" "set (lq_order q') = set (lq_order q) - {i}"
    and F: "lq_frames q' + charges (content q i) = lq_frames q"
    and B: "lq_bytes q' + charge_bytes (content q i) = lq_bytes q"
  shows "lq_inv q'" and "content q' j = (if j = i then [] else content q j)"
proof -
  show c: "content q' j = (if j = i then [] else content q j)" for j
    by (simp add: content_def q')
  have total: "f (content q i) + bt_total (\<lambda>st. f (sq_fragments st)) (lq_streams q')
      = bt_total (\<lambda>st. f (sq_fragments st)) (lq_streams q)" if "f [] = 0" for f
  proof (cases "bt_get (lq_streams q) i")
    case None
    then show ?thesis
      using that bt.remove_absent [OF None] by (simp add: content_def q'(1))
  next
    case (Some old)
    then show ?thesis
      using inv bt.total_remove_old [OF _ Some, of "\<lambda>st. f (sq_fragments st)"] by (simp add: content_def q'(1) lq_inv_def)
  qed
  have "bt_wf (lq_streams q')" using inv by (simp add: q'(1) lq_inv_def)
  moreover have "\<forall>j. j \<in> set (lq_order q') \<longleftrightarrow> content q' j \<noteq> []"
    using inv by (auto simp: q'(3) c lq_inv_def)
  moreover have "\<forall>j s. bt_get (lq_streams q') j = Some s \<longrightarrow> sq_fragments s \<noteq> []"
    using inv by (simp add: q'(1) lq_inv_def)
  ultimately show "lq_inv q'"
    using q'(2) F B total [of charges] total [of charge_bytes] inv unfolding lq_inv_def by simp
qed

lemma content_charges_le:
  assumes "lq_inv q"
  shows "charges (content q i) \<le> lq_frames q" and "charge_bytes (content q i) \<le> lq_bytes q"
proof -
  have "charges (content q i) \<le> lq_frames q \<and> charge_bytes (content q i) \<le> lq_bytes q"
  proof (cases "bt_get (lq_streams q) i")
    case None
    then show ?thesis by (simp add: content_def)
  next
    case (Some st)
    then show ?thesis
      using assms bt.total_member [OF _ Some, of "\<lambda>st. charges (sq_fragments st)"]
        bt.total_member [OF _ Some, of "\<lambda>st. charge_bytes (sq_fragments st)"]
      by (simp add: content_def lq_inv_def)
  qed
  then show "charges (content q i) \<le> lq_frames q" "charge_bytes (content q i) \<le> lq_bytes q" by blast+
qed

lemma push_frame_ok:
  assumes inv: "lq_inv q" and gs: "gs \<noteq> []"
  shows "lq_inv (push_frame q i sz gs)"
    and "content (push_frame q i sz gs) j = (if j = i then content q i @ charged sz gs else content q j)"
    and "lq_order (push_frame q i sz gs) = lq_order q @ (if content q i = [] then [i] else [])"
    and "lq_frames (push_frame q i sz gs) = lq_frames q + 1" and "lq_bytes (push_frame q i sz gs) = lq_bytes q + sz"
    and "lq_writable (push_frame q i sz gs) = lq_writable q"
proof -
  let ?q = "push_frame q i sz gs"
  obtain st where st: "lq_streams ?q = bt_insert i st (lq_streams q)" "sq_fragments st = content q i @ charged sz gs"
    by (cases "bt_get (lq_streams q) i")
      (simp_all add: push_frame_def Let_def content_def stream_queue_default_def)
  show o: "lq_order ?q = lq_order q @ (if content q i = [] then [i] else [])"
    and F: "lq_frames ?q = lq_frames q + 1" and B: "lq_bytes ?q = lq_bytes q + sz" and "lq_writable ?q = lq_writable q"
    by (cases "bt_get (lq_streams q) i"; simp add: push_frame_def Let_def content_def stream_queue_default_def)+
  have ord: "distinct (lq_order ?q)" "set (lq_order ?q) = insert i (set (lq_order q))"
    using inv by (auto simp: o lq_inv_def)
  show "lq_inv ?q" and "content ?q j = (if j = i then content q i @ charged sz gs else content q j)"
    using lq_inv_set [OF inv _ st(1) ord] charged_charges [OF gs, of sz] by (simp_all add: st(2) F B)
qed

lemma pop_queue_ok:
  assumes inv: "lq_inv q" and ready: "lq_writable q" "lq_order q = i # order"
  obtains f fs q' where "content q i = f # fs"
    and "pop_queue lane q = (q', Some \<lparr>sr_lane = lane, sr_stream_id = i, sr_fragment = qf_fragment f, sr_accounted_bytes = qf_accounted_bytes f\<rparr>)"
    and "lq_inv q'" and "\<And>j. content q' j = (if j = i then fs else content q j)"
    and "lq_order q' = order @ (if fs = [] then [] else [i])" and "lq_writable q'"
    and "lq_frames q' + (if qf_accounted_bytes f = None then 0 else 1) = lq_frames q" and "lq_bytes q' + charge f = lq_bytes q"
proof -
  have "content q i \<noteq> []" using inv ready(2) by (auto simp: lq_inv_def)
  then obtain f fs where c: "content q i = f # fs" by (meson neq_Nil_conv)
  then obtain st where "bt_get (lq_streams q) i = Some st"
    by (cases "bt_get (lq_streams q) i") (simp_all add: content_def)
  with c have st: "bt_get (lq_streams q) i = Some st" "sq_fragments st = f # fs" "content q i = f # fs"
    by (simp_all add: content_def)
  define q' where "q' = fst (pop_queue lane q)"
  have pop: "pop_queue lane q = (q', Some \<lparr>sr_lane = lane, sr_stream_id = i, sr_fragment = qf_fragment f, sr_accounted_bytes = qf_accounted_bytes f\<rparr>)"
      and ord: "lq_order q' = order @ (if fs = [] then [] else [i])" "lq_writable q'"
      and FB: "lq_frames q' = lq_frames q - (if qf_accounted_bytes f = None then 0 else 1)" "lq_bytes q' = lq_bytes q - charge f"
      and str: "fs = [] \<Longrightarrow> lq_streams q' = bt_remove i (lq_streams q)"
        "fs \<noteq> [] \<Longrightarrow> \<exists>st'. lq_streams q' = bt_insert i st' (lq_streams q) \<and> sq_fragments st' = fs"
    unfolding q'_def using st ready
    by (cases "qf_accounted_bytes f"; cases "fs = []"; auto simp: pop_queue_def Let_def charge_def)+
  have le: "(if qf_accounted_bytes f = None then 0 else 1) \<le> lq_frames q" "charge f \<le> lq_bytes q"
    using content_charges_le [OF inv, of i] by (simp_all add: st(3) split: if_splits)
  have FB': "lq_frames q' + (if qf_accounted_bytes f = None then 0 else 1) = lq_frames q" "lq_bytes q' + charge f = lq_bytes q"
    using FB le by simp_all
  have d: "i \<notin> set order" "distinct order" using inv ready(2) by (auto simp: lq_inv_def)
  have "lq_inv q' \<and> (\<forall>j. content q' j = (if j = i then fs else content q j))"
  proof (cases "fs = []")
    case True
    then show ?thesis
      using lq_inv_unset [OF inv str(1)] d ord FB' by (auto simp: st(3) ready(2))
  next
    case False
    then obtain st' where st': "lq_streams q' = bt_insert i st' (lq_streams q)" "sq_fragments st' = fs" using str(2) by blast
    show ?thesis
      using lq_inv_set [OF inv _ st'(1)] False d ord FB' by (auto simp: st(3) st'(2) ready(2))
  qed
  then show ?thesis
    using that [OF st(3) pop] ord FB' by blast
qed

lemma pop_queue_idle: "\<not> (lq_writable q \<and> lq_order q \<noteq> []) \<Longrightarrow> pop_queue lane q = (q, None)"
  by (auto simp: pop_queue_def split: list.split)

lemma requeue_queue_ok:
  assumes inv: "lq_inv q"
  shows "lq_inv (requeue_queue q r)"
    and "content (requeue_queue q r) j = (if j = sr_stream_id r
      then \<lparr>qf_fragment = sr_fragment r, qf_accounted_bytes = sr_accounted_bytes r\<rparr> # content q j else content q j)"
    and "lq_order (requeue_queue q r) = sr_stream_id r # filter (\<lambda>i. i \<noteq> sr_stream_id r) (lq_order q)"
    and "lq_writable (requeue_queue q r) = lq_writable q"
    and "lq_frames (requeue_queue q r) = lq_frames q + (if sr_accounted_bytes r = None then 0 else 1)"
    and "lq_bytes (requeue_queue q r) = lq_bytes q + (case sr_accounted_bytes r of None \<Rightarrow> 0 | Some n \<Rightarrow> n)"
proof -
  let ?q = "requeue_queue q r" and ?i = "sr_stream_id r"
  let ?f = "\<lparr>qf_fragment = sr_fragment r, qf_accounted_bytes = sr_accounted_bytes r\<rparr>"
  obtain st where st: "lq_streams ?q = bt_insert ?i st (lq_streams q)" "sq_fragments st = ?f # content q ?i"
    by (cases "bt_get (lq_streams q) ?i"; cases "sr_accounted_bytes r")
      (simp_all add: requeue_queue_def Let_def content_def stream_queue_default_def)
  show o: "lq_order ?q = ?i # filter (\<lambda>i. i \<noteq> ?i) (lq_order q)"
    and "lq_writable ?q = lq_writable q"
    and F: "lq_frames ?q = lq_frames q + (if sr_accounted_bytes r = None then 0 else 1)"
    and B: "lq_bytes ?q = lq_bytes q + (case sr_accounted_bytes r of None \<Rightarrow> 0 | Some n \<Rightarrow> n)"
    by (cases "sr_accounted_bytes r"; simp add: requeue_queue_def Let_def)+
  have ord: "distinct (lq_order ?q)" "set (lq_order ?q) = insert ?i (set (lq_order q))"
    using inv by (auto simp: o lq_inv_def)
  show "lq_inv ?q" and "content ?q j = (if j = ?i then ?f # content q j else content q j)"
    using lq_inv_set [OF inv _ st(1) ord] by (simp_all add: st(2) F B charge_def)
qed

lemma release_charges_fields:
  "lq_streams (release_charges fs q) = lq_streams q" "lq_order (release_charges fs q) = lq_order q"
  "lq_writable (release_charges fs q) = lq_writable q"
  "lq_frames (release_charges fs q) = lq_frames q - charges fs"
  "lq_bytes (release_charges fs q) = lq_bytes q - charge_bytes fs"
  by (induction fs arbitrary: q) (simp_all add: charge_def split: option.split)

lemma close_queue_ok:
  assumes inv: "lq_inv q"
  shows "lq_inv (close_queue q i)" and "content (close_queue q i) j = (if j = i then [] else content q j)"
    and "lq_writable (close_queue q i) = lq_writable q"
    and "lq_frames (close_queue q i) \<le> lq_frames q" and "lq_bytes (close_queue q i) \<le> lq_bytes q"
proof -
  let ?q = "close_queue q i"
  have s: "lq_streams ?q = bt_remove i (lq_streams q)"
    by (cases "bt_get (lq_streams q) i")
      (simp_all add: close_queue_def Let_def release_charges_fields bt.remove_absent)
  have o: "lq_order ?q = filter (\<lambda>j. j \<noteq> i) (lq_order q)" and "lq_writable ?q = lq_writable q"
    by (cases "bt_get (lq_streams q) i"; simp add: close_queue_def Let_def release_charges_fields)+
  then show "lq_writable ?q = lq_writable q" by blast
  have FB: "lq_frames ?q = lq_frames q - charges (content q i)" "lq_bytes ?q = lq_bytes q - charge_bytes (content q i)"
    by (cases "bt_get (lq_streams q) i"; simp add: close_queue_def Let_def release_charges_fields content_def)+
  have ord: "distinct (lq_order ?q)" "set (lq_order ?q) = set (lq_order q) - {i}"
    using inv by (auto simp: o lq_inv_def)
  show "lq_inv ?q" and "content ?q j = (if j = i then [] else content q j)"
    using lq_inv_unset [OF inv s ord] content_charges_le [OF inv, of i] by (simp_all add: FB)
  show "lq_frames ?q \<le> lq_frames q" "lq_bytes ?q \<le> lq_bytes q" by (simp_all add: FB)
qed

section \<open>Emission over the schedule\<close>

definition lane_ready :: "lane_scheduler \<Rightarrow> remote_lane \<Rightarrow> bool" where
  "lane_ready s lane \<longleftrightarrow> lq_writable (sc_lanes s lane) \<and> lq_order (sc_lanes s lane) \<noteq> []"

definition slot :: "nat \<Rightarrow> remote_lane" where
  "slot c = LANE_SCHEDULE ! (c mod 8)"

lemma set_lane_simps [simp]:
  "sc_limits (set_lane s lane q) = sc_limits s" "sc_cursor (set_lane s lane q) = sc_cursor s"
  "sc_lanes (set_lane s lane q) = (sc_lanes s)(lane := q)"
  by (simp_all add: set_lane_def)

lemma slot_mod [simp]: "slot (c mod 8) = slot c"
  by (simp add: slot_def)

text \<open>\<open>next_fragment\<close> serves the first ready lane from the cursor on.\<close>

lemma next_slots_spec:
  assumes "sc_inv s" and "n \<le> 8"
  shows "case next_slots n s of
      (s', None) \<Rightarrow> (\<forall>k<n. \<not> lane_ready s (slot (sc_cursor s + k))) \<and> sc_lanes s' = sc_lanes s \<and> sc_limits s' = sc_limits s
        \<and> sc_cursor s' = (sc_cursor s + n) mod 8
    | (s', Some r) \<Rightarrow> \<exists>k<n. (\<forall>j<k. \<not> lane_ready s (slot (sc_cursor s + j))) \<and> lane_ready s (slot (sc_cursor s + k))
        \<and> (\<exists>q. pop_queue (slot (sc_cursor s + k)) (sc_lanes s (slot (sc_cursor s + k))) = (q, Some r)
             \<and> sc_lanes s' = (sc_lanes s)(slot (sc_cursor s + k) := q))
        \<and> sc_limits s' = sc_limits s \<and> sc_cursor s' = (sc_cursor s + k + 1) mod 8"
  using assms
proof (induction n arbitrary: s)
  case 0
  then show ?case by (simp add: sc_inv_def)
next
  case (Suc n)
  let ?lane = "slot (sc_cursor s)" and ?s = "s\<lparr>sc_cursor := (sc_cursor s + 1) mod 8\<rparr>"
  have lane: "LANE_SCHEDULE ! sc_cursor s = ?lane" and len: "length LANE_SCHEDULE = 8"
    using Suc.prems(1) by (simp_all add: slot_def sc_inv_def) (simp add: LANE_SCHEDULE_def)
  have sh: "slot (Suc (sc_cursor s) mod 8 + j) = slot (Suc (sc_cursor s + j))" for j
    by (simp add: slot_def mod_simps)
  have md: "Suc (Suc (sc_cursor s) mod 8 + k) mod 8 = Suc (Suc (sc_cursor s + k)) mod 8" for k
    using mod_add_left_eq [of "Suc (sc_cursor s)" 8 "Suc k"] by simp
  have rd: "lane_ready (s\<lparr>sc_cursor := c\<rparr>) l = lane_ready s l" for l c by (simp add: lane_ready_def)
  show ?case
  proof (cases "lane_ready s ?lane")
    case True
    then obtain i order where o: "lq_order (sc_lanes s ?lane) = i # order" and w: "lq_writable (sc_lanes s ?lane)"
      by (auto simp: lane_ready_def neq_Nil_conv)
    obtain q r where pop: "pop_queue ?lane (sc_lanes s ?lane) = (q, Some r)"
      using pop_queue_ok [OF _ w o, of ?lane] Suc.prems(1) unfolding sc_inv_def by metis
    have eq: "next_slots (Suc n) s = (set_lane ?s ?lane q, Some r)"
      by (simp add: lane len pop_from_lane_def pop Let_def)
    show ?thesis
      unfolding eq prod.case option.case using True pop by (intro exI [of _ 0]) simp
  next
    case False
    have pop: "pop_queue ?lane (sc_lanes s ?lane) = (sc_lanes s ?lane, None)"
      using False pop_queue_idle by (simp add: lane_ready_def)
    have eq: "next_slots (Suc n) s = next_slots n ?s"
      by (simp add: lane len pop_from_lane_def pop Let_def set_lane_def)
    have inv: "sc_inv ?s" using Suc.prems(1) by (simp add: sc_inv_def)
    obtain s' res where ns: "next_slots n ?s = (s', res)" by fastforce
    show ?thesis
    proof (cases res)
      case None
      then have "\<forall>k<n. \<not> lane_ready s (slot (sc_cursor s + Suc k))" "sc_lanes s' = sc_lanes s" "sc_limits s' = sc_limits s"
          "sc_cursor s' = (sc_cursor s + Suc n) mod 8"
        using Suc.IH [OF inv] Suc.prems(2) ns by (simp_all add: sh rd mod_simps)
      moreover from this(1) have "\<forall>k<Suc n. \<not> lane_ready s (slot (sc_cursor s + k))"
        using False less_Suc_eq_0_disj by auto
      ultimately show ?thesis
        unfolding eq ns None prod.case option.case by blast
    next
      case (Some r)
      have "\<exists>k<n. (\<forall>j<k. \<not> lane_ready s (slot (Suc (sc_cursor s + j)))) \<and> lane_ready s (slot (Suc (sc_cursor s + k)))
        \<and> (\<exists>q. pop_queue (slot (Suc (sc_cursor s + k))) (sc_lanes s (slot (Suc (sc_cursor s + k)))) = (q, Some r)
             \<and> sc_lanes s' = (sc_lanes s)(slot (Suc (sc_cursor s + k)) := q))
        \<and> sc_limits s' = sc_limits s \<and> sc_cursor s' = (sc_cursor s + Suc k + 1) mod 8"
        using Suc.IH [OF inv] Suc.prems(2) ns Some by (simp add: sh rd md)
      then obtain k q where k: "k < n" "\<forall>j<k. \<not> lane_ready s (slot (sc_cursor s + Suc j))"
          "lane_ready s (slot (sc_cursor s + Suc k))"
          "pop_queue (slot (sc_cursor s + Suc k)) (sc_lanes s (slot (sc_cursor s + Suc k))) = (q, Some r)"
          "sc_lanes s' = (sc_lanes s)(slot (sc_cursor s + Suc k) := q)" "sc_limits s' = sc_limits s"
          "sc_cursor s' = (sc_cursor s + Suc k + 1) mod 8"
        by auto
      moreover from k(2) have "\<forall>j<Suc k. \<not> lane_ready s (slot (sc_cursor s + j))"
        using False less_Suc_eq_0_disj by auto
      ultimately show ?thesis
        unfolding eq ns Some prod.case option.case
        by (intro exI [of _ "Suc k"] conjI exI [of _ q]) simp_all
    qed
  qed
qed

lemma slots_cover: "c < 8 \<Longrightarrow> \<exists>k<8. slot (c + k) = lane"
proof -
  assume "c < 8"
  have "slot 0 = Lane_Control" "slot 1 = Lane_Interactive" "slot 3 = Lane_Bulk"
    by (simp_all add: slot_def LANE_SCHEDULE_def)
  then have "\<exists>j<8. slot j = lane"
    by (cases lane) (auto intro: exI [of _ 0] exI [of _ 1] exI [of _ 3])
  then obtain j where j: "j < 8" "slot j = lane" by blast
  let ?k = "(j + (8 - c)) mod 8"
  have "c + (j + (8 - c)) = j + 8" using \<open>c < 8\<close> by simp
  then have "(c + ?k) mod 8 = j" using mod_add_right_eq [of c "j + (8 - c)" 8] j(1) by simp
  with j(2) have "slot (c + ?k) = lane" by (metis slot_mod)
  moreover have "?k < 8" by simp
  ultimately show ?thesis by blast
qed

text \<open>What a call of \<open>next_fragment\<close> does, in terms of the lane it serves.\<close>

lemma next_fragment_None:
  assumes "sc_inv s" and "next_fragment s = (s', None)"
  shows "\<not> lane_ready s lane" and "sc_lanes s' = sc_lanes s" and "sc_limits s' = sc_limits s" and "sc_inv s'"
proof -
  have len: "length LANE_SCHEDULE = 8" by (simp add: LANE_SCHEDULE_def)
  have spec: "(\<forall>k<8. \<not> lane_ready s (slot (sc_cursor s + k))) \<and> sc_lanes s' = sc_lanes s \<and> sc_limits s' = sc_limits s
      \<and> sc_cursor s' = (sc_cursor s + 8) mod 8"
    using next_slots_spec [OF assms(1), of 8] assms(2) by (simp add: next_fragment_def len)
  moreover obtain k where "k < 8" "slot (sc_cursor s + k) = lane"
    using slots_cover assms(1) unfolding sc_inv_def by blast
  ultimately show "\<not> lane_ready s lane" by metis
  show "sc_lanes s' = sc_lanes s" "sc_limits s' = sc_limits s" "sc_inv s'"
    using spec assms(1) by (simp_all add: sc_inv_def)
qed

lemma next_fragment_Some:
  assumes inv: "sc_inv s" and nf: "next_fragment s = (s', Some r)"
  obtains k i order f fs q where "k < 8" and "\<forall>j<k. \<not> lane_ready s (slot (sc_cursor s + j))"
    and "sr_lane r = slot (sc_cursor s + k)" and "lane_ready s (sr_lane r)"
    and "sc_lanes s' = (sc_lanes s)(sr_lane r := q)" and "sc_limits s' = sc_limits s" and "sc_cursor s' = (sc_cursor s + k + 1) mod 8"
    and "lq_order (sc_lanes s (sr_lane r)) = i # order" and "content (sc_lanes s (sr_lane r)) i = f # fs"
    and "r = \<lparr>sr_lane = sr_lane r, sr_stream_id = i, sr_fragment = qf_fragment f, sr_accounted_bytes = qf_accounted_bytes f\<rparr>"
    and "lq_inv q" and "\<And>j. content q j = (if j = i then fs else content (sc_lanes s (sr_lane r)) j)"
    and "lq_order q = order @ (if fs = [] then [] else [i])" and "lq_writable q"
    and "lq_frames q + (if qf_accounted_bytes f = None then 0 else 1) = lq_frames (sc_lanes s (sr_lane r))"
    and "lq_bytes q + charge f = lq_bytes (sc_lanes s (sr_lane r))"
proof -
  have len: "length LANE_SCHEDULE = 8" by (simp add: LANE_SCHEDULE_def)
  obtain k q where k: "k < 8" "\<forall>j<k. \<not> lane_ready s (slot (sc_cursor s + j))" "lane_ready s (slot (sc_cursor s + k))"
      and pop: "pop_queue (slot (sc_cursor s + k)) (sc_lanes s (slot (sc_cursor s + k))) = (q, Some r)"
      and s': "sc_lanes s' = (sc_lanes s)(slot (sc_cursor s + k) := q)" "sc_limits s' = sc_limits s"
        "sc_cursor s' = (sc_cursor s + k + 1) mod 8"
    using next_slots_spec [OF inv, of 8] nf by (auto simp: next_fragment_def len)
  let ?l = "slot (sc_cursor s + k)"
  obtain i order where o: "lq_order (sc_lanes s ?l) = i # order" and w: "lq_writable (sc_lanes s ?l)"
    using k(3) by (auto simp: lane_ready_def neq_Nil_conv)
  have linv: "lq_inv (sc_lanes s ?l)" using inv by (simp add: sc_inv_def)
  show ?thesis
  proof (rule pop_queue_ok [OF linv w o, of ?l], goal_cases)
    case (1 f fs q')
    have q: "q' = q" and r: "r = \<lparr>sr_lane = ?l, sr_stream_id = i, sr_fragment = qf_fragment f, sr_accounted_bytes = qf_accounted_bytes f\<rparr>"
      using pop 1(2) by simp_all
    have l: "sr_lane r = ?l" by (simp add: r)
    show ?case
      by (rule that [unfolded l, OF k(1,2) refl k(3) s' o 1(1) r 1(3-8) [unfolded q]])
  qed
qed

lemma next_fragment_shrinks:
  assumes inv: "sc_inv s" and nf: "next_fragment s = (s', Some r)"
  obtains q where "sc_lanes s' = (sc_lanes s)(sr_lane r := q)" and "sc_limits s' = sc_limits s" and "sc_cursor s' < 8"
    and "lq_inv q" and "lq_frames q \<le> lq_frames (sc_lanes s (sr_lane r))" and "lq_bytes q \<le> lq_bytes (sc_lanes s (sr_lane r))"
proof (rule next_fragment_Some [OF inv nf], goal_cases)
  case (1 k i order f fs q)
  have "sc_cursor s' < 8" using 1 by simp
  moreover have "lq_frames q \<le> lq_frames (sc_lanes s (sr_lane r))" "lq_bytes q \<le> lq_bytes (sc_lanes s (sr_lane r))"
    using 1 by linarith+
  ultimately show ?thesis
    using 1 that by blast
qed

section \<open>The scheduler\<close>

text \<open>The fragments a frame is split into, where it can be.\<close>

definition fragments_of :: "(bytes \<Rightarrow> digest32) \<Rightarrow> transport_frame \<Rightarrow> carrier_fragment list" where
  "fragments_of sha f =
     (case frame_encode sha f of
        Inl _ \<Rightarrow> []
      | Inr bs \<Rightarrow> (case fragment_frame (fr_lane f) (fr_frame_id f) bs of Inl _ \<Rightarrow> [] | Inr gs \<Rightarrow> gs))"

lemma fragment_frame_nonempty: "fragment_frame lane key bs = Inr gs \<Longrightarrow> gs \<noteq> []"
  by (auto simp: fragment_frame_def Let_def split: if_splits)

lemma outcome_not_enqueued [simp]: "outcome_for_lane lane e \<noteq> Enqueued"
  by (cases lane) simp_all

lemma enqueue_refused: "enqueue sha s f = (s', o') \<Longrightarrow> o' \<noteq> Enqueued \<Longrightarrow> s' = s"
  by (auto simp: enqueue_def Let_def split: if_splits sum.splits)

lemma enqueue_accepted:
  assumes "enqueue sha s f = (s', Enqueued)"
  shows "s' = set_lane s (fr_lane f) (push_frame (sc_lanes s (fr_lane f)) (fr_stream_id f) (frame_serialized_len f) (fragments_of sha f))"
    and "fragments_of sha f \<noteq> []"
    and "lq_frames (sc_lanes s (fr_lane f)) + 1 \<le> frames_for (sc_limits s) (fr_lane f)"
    and "lq_bytes (sc_lanes s (fr_lane f)) + frame_serialized_len f \<le> bytes_for (sc_limits s) (fr_lane f)"
    and "shared_usage s + (frame_serialized_len f - (reserved_bytes_for (sc_limits s) (fr_lane f) - lq_bytes (sc_lanes s (fr_lane f))))
      \<le> shared_pool_bytes (sc_limits s)"
  using assms fragment_frame_nonempty
  by (auto simp: enqueue_def Let_def fragments_of_def not_less split: if_splits sum.splits)

lemma enqueue_ok:
  assumes inv: "sc_inv s" and enq: "enqueue sha s f = (s', Enqueued)"
  shows "sc_inv s'"
    and "content (sc_lanes s' lane) i = content (sc_lanes s lane) i
      @ (if lane = fr_lane f \<and> i = fr_stream_id f then charged (frame_serialized_len f) (fragments_of sha f) else [])"
    and "queued_frames s' lane = queued_frames s lane + (if lane = fr_lane f then 1 else 0)"
    and "queued_bytes s' lane = queued_bytes s lane + (if lane = fr_lane f then frame_serialized_len f else 0)"
    and "sc_limits s' = sc_limits s"
proof -
  note e = enqueue_accepted [OF enq]
  have "lq_inv (sc_lanes s (fr_lane f))" using inv by (simp add: sc_inv_def)
  note p = push_frame_ok [OF this e(2)]
  show "sc_inv s'" using inv p(1) by (simp add: e(1) sc_inv_def)
  show "content (sc_lanes s' lane) i = content (sc_lanes s lane) i
      @ (if lane = fr_lane f \<and> i = fr_stream_id f then charged (frame_serialized_len f) (fragments_of sha f) else [])"
    using p(2) by (simp add: e(1))
  show "queued_frames s' lane = queued_frames s lane + (if lane = fr_lane f then 1 else 0)"
    "queued_bytes s' lane = queued_bytes s lane + (if lane = fr_lane f then frame_serialized_len f else 0)"
    using p(4,5) by (simp_all add: e(1) queued_frames_def queued_bytes_def)
  show "sc_limits s' = sc_limits s" by (simp add: e(1))
qed

lemma requeue_inv: "sc_inv s \<Longrightarrow> sc_inv (requeue s r)"
  using requeue_queue_ok(1) by (simp add: requeue_def sc_inv_def)

lemma close_inv: "sc_inv s \<Longrightarrow> sc_inv (close_stream s lane i)"
  using close_queue_ok(1) by (simp add: close_stream_def sc_inv_def)

lemma writable_inv: "sc_inv s \<Longrightarrow> sc_inv (set_lane_writable s lane b)"
  by (auto simp: set_lane_writable_def sc_inv_def lq_inv_def content_def)

lemma next_inv:
  assumes "sc_inv s" and "next_fragment s = (s', r)"
  shows "sc_inv s'"
proof (cases r)
  case None
  then show ?thesis using next_fragment_None(4) [OF assms(1)] assms(2) by simp
next
  case (Some req)
  show ?thesis
    by (rule next_fragment_shrinks [OF assms(1) assms(2) [unfolded Some]]) (use assms(1) in \<open>simp add: sc_inv_def\<close>)
qed

text \<open>The calls on a scheduler.\<close>

datatype sched_call =
    Call_Enqueue transport_frame
  | Call_Next
  | Call_Requeue send_request
  | Call_Writable remote_lane bool
  | Call_Close remote_lane u64

fun sched_step :: "(bytes \<Rightarrow> digest32) \<Rightarrow> lane_scheduler \<Rightarrow> sched_call \<Rightarrow> lane_scheduler" where
  "sched_step sha s (Call_Enqueue f) = fst (enqueue sha s f)"
| "sched_step sha s Call_Next = fst (next_fragment s)"
| "sched_step sha s (Call_Requeue r) = requeue s r"
| "sched_step sha s (Call_Writable lane b) = set_lane_writable s lane b"
| "sched_step sha s (Call_Close lane i) = close_stream s lane i"

fun returns_fragment :: "sched_call \<Rightarrow> bool" where
  "returns_fragment (Call_Requeue r) = True"
| "returns_fragment _ = False"

lemma sched_step_inv: "sc_inv s \<Longrightarrow> sc_inv (sched_step sha s c)"
proof (cases c)
  case (Call_Enqueue f)
  assume "sc_inv s"
  obtain s' o' where "enqueue sha s f = (s', o')" by fastforce
  then show ?thesis
    using Call_Enqueue \<open>sc_inv s\<close> enqueue_refused enqueue_ok(1) by (cases "o' = Enqueued") fastforce+
next
  case Call_Next
  assume "sc_inv s"
  then show ?thesis using Call_Next next_inv [of s] by (cases "next_fragment s") simp
qed (simp_all add: requeue_inv close_inv writable_inv)

interpretation sched: guarded_machine "sched_step sha" "\<lambda>_. True" sc_inv for sha
  by unfold_locales (simp add: sched_step_inv)

lemma sc_inv_new: "sc_inv (scheduler_new limits)"
  by (simp add: sc_inv_def scheduler_new_def lq_inv_def content_def bt.total_empty)

section \<open>Caps\<close>

text \<open>A call that only shrinks the queues keeps the caps.\<close>

lemma within_caps_shrink:
  assumes "within_caps s" and "sc_limits s' = sc_limits s"
    and "\<And>lane. queued_frames s' lane \<le> queued_frames s lane" and "\<And>lane. queued_bytes s' lane \<le> queued_bytes s lane"
  shows "within_caps s'"
proof -
  have "shared_usage s' \<le> shared_usage s"
    unfolding shared_usage_def using assms(2,4)
    by (intro sum_list_mono) (simp add: queued_bytes_def diff_le_mono)
  then show ?thesis
    using assms unfolding within_caps_def by (metis order_trans)
qed

lemma within_caps_enqueue:
  assumes inv: "sc_inv s" and caps: "within_caps s" and enq: "enqueue sha s f = (s', Enqueued)"
  shows "within_caps s'"
proof -
  note ok = enqueue_ok [OF inv enq] and e = enqueue_accepted [OF enq]
  have b: "lq_bytes (sc_lanes s' lane) = lq_bytes (sc_lanes s lane) + (if lane = fr_lane f then frame_serialized_len f else 0)" for lane
    using ok(4) by (simp add: queued_bytes_def)
  have "shared_usage s' \<le> shared_usage s
      + (frame_serialized_len f - (reserved_bytes_for (sc_limits s) (fr_lane f) - lq_bytes (sc_lanes s (fr_lane f))))"
    by (cases "fr_lane f") (simp_all add: shared_usage_def lane_ALL_def b ok(5))
  then have "shared_usage s' \<le> shared_pool_bytes (sc_limits s)" using e(5) by linarith
  moreover have "queued_frames s' lane \<le> frames_for (sc_limits s) lane \<and> queued_bytes s' lane \<le> bytes_for (sc_limits s) lane" for lane
    using caps e(3,4) ok(3,4) by (auto simp: within_caps_def queued_frames_def queued_bytes_def)
  ultimately show ?thesis by (simp add: within_caps_def ok(5))
qed

lemma within_caps_next:
  assumes inv: "sc_inv s" and caps: "within_caps s" and nf: "next_fragment s = (s', r)"
  shows "within_caps s'"
proof (cases r)
  case None
  note same = next_fragment_None(2,3) [OF inv nf [unfolded None]]
  show ?thesis
    by (rule within_caps_shrink [OF caps same(2)]) (simp_all add: queued_frames_def queued_bytes_def same(1))
next
  case (Some req)
  show ?thesis
  proof (rule next_fragment_shrinks [OF inv nf [unfolded Some]])
    fix q
    assume q: "sc_lanes s' = (sc_lanes s)(sr_lane req := q)" "sc_limits s' = sc_limits s"
      "lq_frames q \<le> lq_frames (sc_lanes s (sr_lane req))" "lq_bytes q \<le> lq_bytes (sc_lanes s (sr_lane req))"
    show "within_caps s'"
      by (rule within_caps_shrink [OF caps q(2)]) (use q in \<open>simp_all add: queued_frames_def queued_bytes_def\<close>)
  qed
qed

interpretation capped: guarded_machine "sched_step sha" "\<lambda>c. \<not> returns_fragment c" "\<lambda>s. sc_inv s \<and> within_caps s" for sha
proof unfold_locales
  fix s c
  assume s: "sc_inv s \<and> within_caps s" and c: "\<not> returns_fragment c"
  have "within_caps (sched_step sha s c)"
  proof (cases c)
    case (Call_Enqueue f)
    obtain s' o' where "enqueue sha s f = (s', o')" by fastforce
    then show ?thesis
      using s Call_Enqueue enqueue_refused within_caps_enqueue by (cases "o' = Enqueued") fastforce+
  next
    case Call_Next
    then show ?thesis using s within_caps_next [of s] by (cases "next_fragment s") simp
  next
    case (Call_Requeue r)
    with c show ?thesis by simp
  next
    case (Call_Writable lane b)
    have "within_caps (set_lane_writable s lane b)"
      by (rule within_caps_shrink [OF conjunct2 [OF s]])
        (simp_all add: queued_frames_def queued_bytes_def set_lane_writable_def)
    then show ?thesis using Call_Writable by simp
  next
    case (Call_Close lane i)
    have "lq_inv (sc_lanes s lane)" using s by (simp add: sc_inv_def)
    from close_queue_ok(4,5) [OF this, of i] have "within_caps (close_stream s lane i)"
      by (intro within_caps_shrink [OF conjunct2 [OF s]])
        (simp_all add: queued_frames_def queued_bytes_def close_stream_def)
    then show ?thesis using Call_Close by simp
  qed
  then show "sc_inv (sched_step sha s c) \<and> within_caps (sched_step sha s c)"
    using s by (simp add: sched_step_inv)
qed

lemma sched_step_limits: "sc_inv s \<Longrightarrow> sc_limits (sched_step sha s c) = sc_limits s"
proof (cases c)
  case (Call_Enqueue f)
  assume "sc_inv s"
  obtain s' o' where "enqueue sha s f = (s', o')" by fastforce
  then show ?thesis
    using Call_Enqueue \<open>sc_inv s\<close> enqueue_refused enqueue_ok(5) by (cases "o' = Enqueued") fastforce+
next
  case Call_Next
  assume inv: "sc_inv s"
  obtain s' r where nf: "next_fragment s = (s', r)" by fastforce
  have "sc_limits s' = sc_limits s"
  proof (cases r)
    case None
    then show ?thesis using next_fragment_None(3) [OF inv] nf by simp
  next
    case (Some req)
    show ?thesis by (rule next_fragment_shrinks [OF inv nf [unfolded Some]])
  qed
  then show ?thesis using Call_Next nf by simp
qed (simp_all add: requeue_def close_stream_def set_lane_writable_def)

lemma sched_run_limits: "sc_inv s \<Longrightarrow> sc_limits (foldl (sched_step sha) s cs) = sc_limits s"
  by (induction cs arbitrary: s) (simp_all add: sched_step_inv sched_step_limits)

section \<open>Order within a stream\<close>

text \<open>
  A carrier's turns: a frame is offered, a fragment is taken and then accepted or handed back, a lane's
  writability changes. The run returns the frames admitted and the requests the carrier accepted.
\<close>

datatype sched_turn =
    Turn_Queue transport_frame
  | Turn_Send bool
  | Turn_Writable remote_lane bool

fun sched_turns ::
    "(bytes \<Rightarrow> digest32) \<Rightarrow> lane_scheduler \<Rightarrow> sched_turn list \<Rightarrow> lane_scheduler \<times> transport_frame list \<times> send_request list" where
  "sched_turns sha s [] = (s, [], [])"
| "sched_turns sha s (Turn_Queue f # ts) =
     (case enqueue sha s f of (s, out) \<Rightarrow>
        case sched_turns sha s ts of (s, admitted, sent) \<Rightarrow>
          (s, if out = Enqueued then f # admitted else admitted, sent))"
| "sched_turns sha s (Turn_Send taken # ts) =
     (case next_fragment s of
        (s, None) \<Rightarrow> sched_turns sha s ts
      | (s, Some r) \<Rightarrow>
          if taken then (case sched_turns sha s ts of (s, admitted, sent) \<Rightarrow> (s, admitted, r # sent))
          else sched_turns sha (requeue s r) ts)"
| "sched_turns sha s (Turn_Writable lane b # ts) = sched_turns sha (set_lane_writable s lane b) ts"

definition waiting :: "lane_scheduler \<Rightarrow> remote_lane \<Rightarrow> u64 \<Rightarrow> carrier_fragment list" where
  "waiting s lane i = map qf_fragment (content (sc_lanes s lane) i)"

definition sent_on :: "remote_lane \<Rightarrow> u64 \<Rightarrow> send_request list \<Rightarrow> carrier_fragment list" where
  "sent_on lane i rs = map sr_fragment (filter (\<lambda>r. sr_lane r = lane \<and> sr_stream_id r = i) rs)"

definition queued_on :: "(bytes \<Rightarrow> digest32) \<Rightarrow> remote_lane \<Rightarrow> u64 \<Rightarrow> transport_frame list \<Rightarrow> carrier_fragment list" where
  "queued_on sha lane i fs = concat (map (fragments_of sha) (filter (\<lambda>f. fr_lane f = lane \<and> fr_stream_id f = i) fs))"

lemma waiting_enqueue:
  assumes "sc_inv s" and "enqueue sha s f = (s', Enqueued)"
  shows "waiting s' lane i = waiting s lane i @ queued_on sha lane i [f]"
  using enqueue_ok(2) [OF assms, of lane i] enqueue_accepted(2) [OF assms(2)]
  by (auto simp: waiting_def queued_on_def charged_charges)

lemma waiting_next:
  assumes inv: "sc_inv s" and nf: "next_fragment s = (s', Some r)"
  shows "waiting s lane i = sent_on lane i [r] @ waiting s' lane i"
proof (rule next_fragment_Some [OF inv nf], goal_cases)
  case (1 k j order f fs q)
  have "sr_stream_id r = j" "sr_fragment r = qf_fragment f" using 1(10) by (metis send_request.simps)+
  then show ?case
    using 1(5,9,12) by (auto simp: waiting_def sent_on_def)
qed

text \<open>Handing back the fragment just taken restores every queue.\<close>

lemma requeue_restores_queue:
  assumes inv: "sc_inv s" and nf: "next_fragment s = (s', Some r)"
  shows "content (sc_lanes (requeue s' r) lane) i = content (sc_lanes s lane) i
    \<and> lq_order (sc_lanes (requeue s' r) lane) = lq_order (sc_lanes s lane)
    \<and> queued_frames (requeue s' r) lane = queued_frames s lane \<and> queued_bytes (requeue s' r) lane = queued_bytes s lane
    \<and> is_lane_writable (requeue s' r) lane = is_lane_writable s lane"
proof (rule next_fragment_Some [OF inv nf], goal_cases)
  case (1 k j order f fs q)
  have r: "sr_stream_id r = j" "sr_fragment r = qf_fragment f" "sr_accounted_bytes r = qf_accounted_bytes f"
    using 1(10) by (metis send_request.simps)+
  have f: "\<lparr>qf_fragment = qf_fragment f, qf_accounted_bytes = qf_accounted_bytes f\<rparr> = f" by simp
  have "distinct (j # order)" using inv 1(8) unfolding sc_inv_def lq_inv_def by metis
  then have o: "filter (\<lambda>i. i \<noteq> j) (lq_order q) = order"
    by (auto simp: 1(13) filter_id_conv)
  have w: "lq_writable (sc_lanes s (sr_lane r))" using 1(4) by (simp add: lane_ready_def)
  note rq = requeue_queue_ok [OF 1(11), of r]
  have b: "lq_frames (requeue_queue q r) = lq_frames (sc_lanes s (sr_lane r))" "lq_bytes (requeue_queue q r) = lq_bytes (sc_lanes s (sr_lane r))"
    using rq(5,6) 1(15,16) by (simp_all add: r charge_def split: if_splits)
  show ?case
  proof (cases "lane = sr_lane r")
    case True
    then show ?thesis
      using rq(2) [of i] rq(3,4) b o w 1(8,9,12,14) f
      by (simp add: requeue_def 1(5) queued_frames_def queued_bytes_def is_lane_writable_def r)
  next
    case False
    then show ?thesis by (simp add: requeue_def 1(5) queued_frames_def queued_bytes_def is_lane_writable_def)
  qed
qed

lemma sched_turns_order:
  assumes "sc_inv s" and "sched_turns sha s ts = (s', admitted, sent)"
  shows "waiting s lane i @ queued_on sha lane i admitted = sent_on lane i sent @ waiting s' lane i"
  using assms
proof (induction ts arbitrary: s admitted sent)
  case Nil
  then show ?case by (simp add: queued_on_def sent_on_def)
next
  case (Cons t ts)
  show ?case
  proof (cases t)
    case (Turn_Queue f)
    obtain s1 out where e: "enqueue sha s f = (s1, out)" by fastforce
    obtain adm where rest: "sched_turns sha s1 ts = (s', adm, sent)" "admitted = (if out = Enqueued then f # adm else adm)"
      using Cons.prems(2) Turn_Queue e by (auto split: prod.splits)
    show ?thesis
    proof (cases "out = Enqueued")
      case True
      then have "sc_inv s1" using enqueue_ok(1) [OF Cons.prems(1)] e by simp
      moreover have "waiting s1 lane i = waiting s lane i @ queued_on sha lane i [f]"
        using e True by (intro waiting_enqueue [OF Cons.prems(1)]) simp
      moreover have "queued_on sha lane i admitted = queued_on sha lane i [f] @ queued_on sha lane i adm"
        using True rest(2) by (simp add: queued_on_def)
      ultimately show ?thesis using Cons.IH [OF _ rest(1)] by simp
    next
      case False
      then have "s1 = s" using enqueue_refused [OF e] by simp
      with Cons.IH [OF _ rest(1)] Cons.prems(1) False rest(2) show ?thesis by simp
    qed
  next
    case (Turn_Send taken)
    obtain s1 r where nf: "next_fragment s = (s1, r)" by fastforce
    have inv: "sc_inv s1" using Cons.prems(1) nf by (rule next_inv)
    show ?thesis
    proof (cases r)
      case None
      then have "waiting s1 lane i = waiting s lane i"
        using next_fragment_None(2) [OF Cons.prems(1)] nf by (simp add: waiting_def)
      moreover have "sched_turns sha s1 ts = (s', admitted, sent)" using Cons.prems(2) Turn_Send nf None by simp
      ultimately show ?thesis using Cons.IH [OF inv, of admitted sent] by simp
    next
      case (Some q)
      note nf' = nf [unfolded Some]
      show ?thesis
      proof (cases taken)
        case True
        obtain snt where rest: "sched_turns sha s1 ts = (s', admitted, snt)" "sent = q # snt"
          using Cons.prems(2) Turn_Send nf' True by (auto split: prod.splits)
        from Cons.IH [OF inv rest(1)] waiting_next [OF Cons.prems(1) nf', of lane i] rest(2) show ?thesis
          by (simp add: sent_on_def)
      next
        case False
        have "waiting (requeue s1 q) lane i = waiting s lane i"
          using requeue_restores_queue [OF Cons.prems(1) nf', of lane i] by (simp add: waiting_def)
        moreover have "sched_turns sha (requeue s1 q) ts = (s', admitted, sent)"
          using Cons.prems(2) Turn_Send nf' False by simp
        ultimately show ?thesis using Cons.IH [OF requeue_inv [OF inv], of q admitted sent] by simp
      qed
    qed
  next
    case (Turn_Writable l b)
    have "waiting (set_lane_writable s l b) lane i = waiting s lane i"
      by (simp add: waiting_def set_lane_writable_def content_def)
    then show ?thesis
      using Cons.IH [OF writable_inv [OF Cons.prems(1)], of l b admitted sent] Cons.prems(2) Turn_Writable by simp
  qed
qed

section \<open>Fairness over the lanes\<close>

text \<open>The lanes that \<open>n\<close> successive calls of \<open>next_fragment\<close> serve.\<close>

fun serve :: "nat \<Rightarrow> lane_scheduler \<Rightarrow> remote_lane list" where
  "serve 0 s = []"
| "serve (Suc n) s =
     (case next_fragment s of
        (s, None) \<Rightarrow> serve n s
      | (s, Some r) \<Rightarrow> sr_lane r # serve n s)"

lemma slot_within_four:
  assumes "c < 8"
  shows "\<exists>d<4. slot (c + d) = lane"
proof -
  have "c \<in> {0, 1, 2, 3, 4, 5, 6, 7}" using assms by auto
  then have "\<exists>d \<in> {0, 1, 2, 3}. slot (c + d) = lane"
    by (cases lane) (auto simp: slot_def LANE_SCHEDULE_def)
  then obtain d where "d \<in> {0, 1, 2, 3}" "slot (c + d) = lane" by (rule bexE)
  then show ?thesis by (intro exI [of _ d]) auto
qed

lemma serve_reaches:
  assumes "sc_inv s" and "lane_ready s lane" and "slot (sc_cursor s + d) = lane" and "d < n"
  shows "lane \<in> set (serve n s)"
  using assms
proof (induction n arbitrary: s d)
  case 0
  then show ?case by simp
next
  case (Suc n)
  obtain s' res where nf: "next_fragment s = (s', res)" by fastforce
  then obtain r where Some: "res = Some r"
    using next_fragment_None(1) [OF Suc.prems(1)] Suc.prems(2) by (cases res) auto
  have inv': "sc_inv s'" using Suc.prems(1) nf by (rule next_inv)
  have "lane \<in> set (sr_lane r # serve n s')"
  proof (rule next_fragment_Some [OF Suc.prems(1) nf [unfolded Some]], goal_cases)
    case (1 k i order f fs q)
    show ?case
    proof (cases "sr_lane r = lane")
      case False
      have "k \<le> d" using 1(2) Suc.prems(2,3) by (meson not_le)
      moreover have "k \<noteq> d" using 1(3) Suc.prems(3) False by metis
      ultimately have "k < d" by simp
      moreover have "(sc_cursor s + k + 1) mod 8 + (d - k - 1) = (sc_cursor s + k + 1) mod 8 + (d - (k + 1))" by simp
      moreover have "slot ((sc_cursor s + k + 1) mod 8 + (d - k - 1)) = slot (sc_cursor s + d)"
      proof -
        have "((sc_cursor s + k + 1) mod 8 + (d - k - 1)) mod 8 = (sc_cursor s + k + 1 + (d - k - 1)) mod 8"
          by (rule mod_add_left_eq)
        also have "sc_cursor s + k + 1 + (d - k - 1) = sc_cursor s + d" using \<open>k < d\<close> by simp
        finally show ?thesis by (simp add: slot_def)
      qed
      ultimately have "slot (sc_cursor s' + (d - k - 1)) = lane" using 1(7) Suc.prems(3) by simp
      moreover have "lane_ready s' lane" using Suc.prems(2) False by (simp add: lane_ready_def 1(5))
      ultimately have "lane \<in> set (serve n s')"
        using Suc.IH [OF inv', of "d - k - 1"] Suc.prems(4) \<open>k < d\<close> by linarith
      then show ?thesis by simp
    qed simp
  qed
  then show ?case using nf Some by simp
qed

section \<open>Draining\<close>

text \<open>The requests that \<open>n\<close> successive calls of \<open>next_fragment\<close> hand out, and the fragments that are queued.\<close>

fun drain :: "nat \<Rightarrow> lane_scheduler \<Rightarrow> lane_scheduler \<times> send_request list" where
  "drain 0 s = (s, [])"
| "drain (Suc n) s =
     (case next_fragment s of
        (s, None) \<Rightarrow> (s, [])
      | (s, Some r) \<Rightarrow> (case drain n s of (s, rs) \<Rightarrow> (s, r # rs)))"

definition lane_backlog :: "lane_queue \<Rightarrow> nat" where
  "lane_backlog q = sum_list (map (\<lambda>i. length (content q i)) (lq_order q))"

definition backlog :: "lane_scheduler \<Rightarrow> nat" where
  "backlog s = sum_list (map (\<lambda>lane. lane_backlog (sc_lanes s lane)) lane_ALL)"

lemma lane_backlog_0:
  assumes "lq_inv q"
  shows "lane_backlog q = 0 \<longleftrightarrow> lq_order q = []"
  using assms by (cases "lq_order q") (auto simp: lane_backlog_def lq_inv_def)

lemma lane_empty:
  assumes "lq_inv q" and "lq_order q = []"
  shows "lq_frames q = 0" and "lq_bytes q = 0"
proof -
  have "sq_fragments st = []" if "bt_get (lq_streams q) i = Some st" for i st
    using assms that unfolding lq_inv_def content_def by (metis empty_iff list.set(1) option.simps(5))
  then have none: "bt_get (lq_streams q) i = None" for i
    using assms(1) unfolding lq_inv_def by (metis not_None_eq)
  have "lq_streams q = []"
  proof (cases "lq_streams q")
    case (Cons e m)
    then have "bt_get (lq_streams q) (fst e) = Some (snd e)" by (cases e) (simp add: bt_get_def)
    with none [of "fst e"] show ?thesis by simp
  qed
  then show "lq_frames q = 0" "lq_bytes q = 0" using assms(1) by (simp_all add: lq_inv_def bt_total_def)
qed

lemma backlog_empty:
  assumes "sc_inv s" and "backlog s = 0"
  shows "\<not> has_pending s" and "queued_frames s lane = 0" and "queued_bytes s lane = 0"
proof -
  have order: "lq_order (sc_lanes s l) = []" for l
    using assms lane_backlog_0 [of "sc_lanes s l"] by (cases l) (auto simp: backlog_def lane_ALL_def sc_inv_def)
  then show "\<not> has_pending s" by (simp add: has_pending_def list_ex_iff)
  have "lq_inv (sc_lanes s lane)" using assms(1) by (simp add: sc_inv_def)
  from lane_empty [OF this order] show "queued_frames s lane = 0" "queued_bytes s lane = 0"
    by (simp_all add: queued_frames_def queued_bytes_def)
qed

lemma backlog_next:
  assumes inv: "sc_inv s" and nf: "next_fragment s = (s', Some r)"
  shows "backlog s = Suc (backlog s')" and "is_lane_writable s' lane = is_lane_writable s lane"
proof -
  have "backlog s = Suc (backlog s') \<and> is_lane_writable s' lane = is_lane_writable s lane"
  proof (rule next_fragment_Some [OF inv nf], goal_cases)
    case (1 k i order f fs q)
    have "distinct (i # order)" using inv 1(8) unfolding sc_inv_def lq_inv_def by metis
    then have "map (\<lambda>j. length (content q j)) order = map (\<lambda>j. length (content (sc_lanes s (sr_lane r)) j)) order"
      by (intro map_cong) (auto simp: 1(12))
    then have "sum_list (map (\<lambda>j. length (content (sc_lanes s (sr_lane r)) j)) order) = sum_list (map (\<lambda>j. length (content q j)) order)"
      by (simp only:)
    moreover have "content q i = fs" by (simp add: 1(12))
    ultimately have q: "lane_backlog (sc_lanes s (sr_lane r)) = Suc (lane_backlog q)"
      by (simp add: lane_backlog_def 1(8,9,13))
    have "lq_writable (sc_lanes s (sr_lane r))" using 1(4) by (simp add: lane_ready_def)
    then show ?case
      using q 1(14) by (cases "sr_lane r") (auto simp: backlog_def lane_ALL_def 1(5) is_lane_writable_def)
  qed
  then show "backlog s = Suc (backlog s')" and "is_lane_writable s' lane = is_lane_writable s lane" by simp_all
qed

lemma backlog_ready:
  assumes inv: "sc_inv s" and "\<And>lane. is_lane_writable s lane" and "0 < backlog s"
  obtains lane where "lane_ready s lane"
proof -
  obtain lane where "lane_backlog (sc_lanes s lane) \<noteq> 0"
    using assms(3) by (auto simp: backlog_def lane_ALL_def)
  then have "lane_ready s lane"
    using lane_backlog_0 [of "sc_lanes s lane"] inv assms(2) by (simp add: lane_ready_def is_lane_writable_def sc_inv_def)
  then show ?thesis by (rule that)
qed

lemma drain_all:
  assumes "sc_inv s" and "\<And>lane. is_lane_writable s lane"
  shows "case drain (backlog s) s of (s', rs) \<Rightarrow> length rs = backlog s \<and> sc_inv s' \<and> backlog s' = 0"
  using assms
proof (induction "backlog s" arbitrary: s)
  case (Suc n)
  obtain s1 res where nf: "next_fragment s = (s1, res)" by fastforce
  obtain lane where "lane_ready s lane" using backlog_ready [OF Suc.prems] Suc.hyps(2) by auto
  then obtain r where r: "res = Some r" using next_fragment_None(1) [OF Suc.prems(1)] nf by (cases res) auto
  note b = backlog_next [OF Suc.prems(1) nf [unfolded r]]
  have n: "n = backlog s1" using b(1) Suc.hyps(2) by simp
  have "sc_inv s1" using next_inv [OF Suc.prems(1) nf] .
  from Suc.hyps(1) [OF n this] b(2) Suc.prems(2) show ?case
    unfolding Suc.hyps(2) [symmetric] using nf r by (auto simp: n split: prod.splits)
qed simp

section \<open>Properties\<close>

text \<open>
  Exact accounting. After any calls on a scheduler, including the return of arbitrary requests, the
  frame and byte counts of every lane are the charges carried by its queued fragments, and the round-robin
  order lists each stream with queued fragments once and no other.
\<close>

theorem scheduler_accounting:
  "let q = sc_lanes (foldl (sched_step sha) (scheduler_new limits) calls) lane in
     lq_frames q = bt_total (\<lambda>st. charges (sq_fragments st)) (lq_streams q)
     \<and> lq_bytes q = bt_total (\<lambda>st. charge_bytes (sq_fragments st)) (lq_streams q)
     \<and> distinct (lq_order q) \<and> (i \<in> set (lq_order q) \<longleftrightarrow> content q i \<noteq> [])"
proof -
  have "sc_inv (foldl (sched_step sha) (scheduler_new limits) calls)"
    by (intro sched.inv_run sc_inv_new) (simp add: list_all_iff)
  then have "lq_inv (sc_lanes (foldl (sched_step sha) (scheduler_new limits) calls) lane)"
    by (simp add: sc_inv_def)
  then show ?thesis by (simp add: lq_inv_def Let_def)
qed

lemma default_limits:
  "shared_pool_bytes LIMITS_DEFAULT = 13631488" "ql_aggregate_bytes LIMITS_DEFAULT = 16777216"
  "ql_control_reserved_bytes LIMITS_DEFAULT = 1048576" "ql_interactive_reserved_bytes LIMITS_DEFAULT = 2097152"
  "ql_control_reserved_frames LIMITS_DEFAULT = 32" "ql_control_frames LIMITS_DEFAULT = 256" "ql_control_bytes LIMITS_DEFAULT = 2097152"
  by (simp_all add: shared_pool_bytes_def LIMITS_DEFAULT_def)

lemma default_run_caps:
  assumes "list_all (\<lambda>c. \<not> returns_fragment c) calls"
  shows "within_caps (foldl (sched_step sha) (scheduler_new LIMITS_DEFAULT) calls)
    \<and> sc_limits (foldl (sched_step sha) (scheduler_new LIMITS_DEFAULT) calls) = LIMITS_DEFAULT"
proof -
  have "within_caps (scheduler_new LIMITS_DEFAULT)"
    by (simp add: within_caps_def scheduler_new_def queued_frames_def queued_bytes_def shared_usage_def lane_ALL_def)
  with sc_inv_new have "within_caps (foldl (sched_step sha) (scheduler_new LIMITS_DEFAULT) calls)"
    using capped.inv_run [of "scheduler_new LIMITS_DEFAULT" calls sha] assms by blast
  then show ?thesis
    using sched_run_limits [OF sc_inv_new] by (simp add: scheduler_new_def)
qed

text \<open>
  C14. Caps. Under the default limits, whatever frames are offered, taken and cancelled, every lane stays
  within its frame and byte caps and the queues together within 16 MiB. The calls are all but the return
  of a lent fragment, which puts back a charge without asking for room.
\<close>

theorem scheduler_within_caps:
  assumes "list_all (\<lambda>c. \<not> returns_fragment c) calls"
  shows "let s = foldl (sched_step sha) (scheduler_new LIMITS_DEFAULT) calls in
    queued_frames s lane \<le> frames_for LIMITS_DEFAULT lane \<and> queued_bytes s lane \<le> bytes_for LIMITS_DEFAULT lane
    \<and> aggregate_bytes s \<le> ql_aggregate_bytes LIMITS_DEFAULT"
proof -
  define s where s: "s = foldl (sched_step sha) (scheduler_new LIMITS_DEFAULT) calls"
  have caps: "within_caps s" and lim: "sc_limits s = LIMITS_DEFAULT"
    unfolding s using default_run_caps [OF assms] by blast+
  have "aggregate_bytes s \<le> shared_usage s + (1048576 + 2097152)"
    by (simp add: aggregate_bytes_def shared_usage_def lane_ALL_def lim default_limits)
  also have "\<dots> \<le> ql_aggregate_bytes LIMITS_DEFAULT"
    using caps by (simp add: within_caps_def lim default_limits)
  finally show ?thesis
    using caps by (simp add: within_caps_def lim Let_def flip: s)
qed

theorem scheduler_within_caps_witness:
  "list_all (\<lambda>c. \<not> returns_fragment c) [Call_Enqueue (sample_frame 3), Call_Next]
   \<and> aggregate_bytes (foldl (sched_step (\<lambda>_. 0)) (scheduler_new LIMITS_DEFAULT) [Call_Enqueue (sample_frame 3), Call_Next])
       \<le> ql_aggregate_bytes LIMITS_DEFAULT"
  using scheduler_within_caps [of "[Call_Enqueue (sample_frame 3), Call_Next]" "\<lambda>_. 0"]
  by (simp add: Let_def)

text \<open>
  The control reservation is deliverable. Under the default limits, after any calls but returns of
  lent fragments, a well-formed control frame is admitted whenever control holds fewer than its 32
  reserved frames and stays within its reserved megabyte, however full the other lanes are.
\<close>

theorem control_reservation_deliverable:
  assumes "list_all (\<lambda>c. \<not> returns_fragment c) calls"
    and "s = foldl (sched_step sha) (scheduler_new LIMITS_DEFAULT) calls"
    and "frame_ok f" and "fr_lane f = Lane_Control" and "queued_frames s Lane_Control < 32"
    and "queued_bytes s Lane_Control + frame_serialized_len f \<le> 1048576"
  shows "snd (enqueue sha s f) = Enqueued"
proof -
  have "within_caps s" and lim: "sc_limits s = LIMITS_DEFAULT"
    unfolding assms(2) using default_run_caps [OF assms(1)] by blast+
  then have pool: "shared_usage s \<le> shared_pool_bytes LIMITS_DEFAULT" by (simp add: within_caps_def)
  obtain bs where bs: "frame_encode sha f = Inr bs" using frame_codec.enc_total [OF assms(3)] by blast
  obtain gs where "fragment_frame (fr_lane f) (fr_frame_id f) bs = Inr gs"
    using fragment_frame_eq [OF frame_bytes_bound [OF assms(3) bs]] by metis
  then show ?thesis
    using bs pool assms(4-6)
    by (simp add: enqueue_def Let_def lim queued_frames_def queued_bytes_def default_limits)
qed

theorem control_reservation_deliverable_witness:
  "snd (enqueue (\<lambda>_. 0) (scheduler_new LIMITS_DEFAULT)
     \<lparr>fr_lane = Lane_Control, fr_flags = 0, fr_stream_id = 0, fr_stream_seq = 0, fr_frame_id = 9, fr_payload = [1]\<rparr>) = Enqueued"
proof -
  let ?f = "\<lparr>fr_lane = Lane_Control, fr_flags = 0, fr_stream_id = 0, fr_stream_seq = 0, fr_frame_id = 9, fr_payload = [1]\<rparr>"
  show ?thesis
    by (rule control_reservation_deliverable [of "[]"])
      (simp_all add: frame_ok_def flags_from_bits_def lane_consts scheduler_new_def queued_frames_def queued_bytes_def
        frame_serialized_len_def frame_consts)
qed

text \<open>
  C15. Streams keep their order. Whatever frames are offered and whatever a carrier accepts or hands back,
  the fragments accepted on a stream, followed by those still waiting on it, are exactly the fragments of
  the frames admitted on it, in the order of admission: nothing is lost, repeated or reordered.
\<close>

theorem scheduler_stream_order:
  "let (s, admitted, sent) = sched_turns sha (scheduler_new limits) turns in
     sent_on lane i sent @ waiting s lane i = queued_on sha lane i admitted"
proof -
  obtain s admitted sent where t: "sched_turns sha (scheduler_new limits) turns = (s, admitted, sent)"
    by (cases "sched_turns sha (scheduler_new limits) turns") auto
  have "waiting (scheduler_new limits) lane i = []"
    by (simp add: waiting_def content_def scheduler_new_def)
  with sched_turns_order [OF sc_inv_new t, of lane i] show ?thesis by (simp add: t)
qed

text \<open>
  C16. No lane starves. After any calls, a lane that is writable and has something queued is served within
  four calls of \<open>next_fragment\<close>, however busy the other lanes are.
\<close>

theorem lane_served_within_four:
  assumes "s = foldl (sched_step sha) (scheduler_new limits) calls" and "lane_ready s lane"
  shows "lane \<in> set (serve 4 s)"
proof -
  have inv: "sc_inv s"
    unfolding assms(1) by (intro sched.inv_run sc_inv_new) (simp add: list_all_iff)
  then obtain d where "d < 4" "slot (sc_cursor s + d) = lane"
    using slot_within_four unfolding sc_inv_def by blast
  then show ?thesis using serve_reaches [OF inv assms(2)] by blast
qed

lemma sample_frame_enqueued:
  assumes "k \<le> 70000"
  shows "snd (enqueue (\<lambda>_. 0) (scheduler_new LIMITS_DEFAULT) (sample_frame k)) = Enqueued"
proof -
  obtain bs where bs: "frame_encode (\<lambda>_. 0) (sample_frame k) = Inr bs" "length bs = 72 + k"
    using sample_frame_bytes [OF assms] .
  obtain gs where "fragment_frame Lane_Bulk 9 bs = Inr gs"
    using fragment_frame_eq [OF frame_bytes_bound [OF sample_frame_ok [OF assms] bs(1)]] by metis
  then show ?thesis
    using bs assms
    by (simp add: enqueue_def Let_def sample_frame_def scheduler_new_def shared_usage_def lane_ALL_def
        frame_serialized_len_def frame_consts LIMITS_DEFAULT_def shared_pool_bytes_def)
qed

lemma sample_lane_ready:
  "lane_ready (fst (enqueue (\<lambda>_. 0) (scheduler_new LIMITS_DEFAULT) (sample_frame 3))) Lane_Bulk"
proof -
  obtain s where e: "enqueue (\<lambda>_. 0) (scheduler_new LIMITS_DEFAULT) (sample_frame 3) = (s, Enqueued)"
    using sample_frame_enqueued [of 3] by (cases "enqueue (\<lambda>_. 0) (scheduler_new LIMITS_DEFAULT) (sample_frame 3)") simp
  note a = enqueue_accepted(1,2) [OF e]
  have "lq_inv (sc_lanes (scheduler_new LIMITS_DEFAULT) Lane_Bulk)" using sc_inv_new by (simp add: sc_inv_def)
  note p = push_frame_ok(3,6) [OF this a(2)]
  have "content (sc_lanes (scheduler_new LIMITS_DEFAULT) Lane_Bulk) i = []" and "lq_writable (sc_lanes (scheduler_new LIMITS_DEFAULT) Lane_Bulk)" for i
    by (simp_all add: scheduler_new_def content_def)
  moreover have "fr_lane (sample_frame 3) = Lane_Bulk" by (simp add: sample_frame_def)
  ultimately show ?thesis
    by (simp add: e a(1) lane_ready_def p)
qed

theorem lane_served_within_four_witness:
  "Lane_Bulk \<in> set (serve 4 (fst (enqueue (\<lambda>_. 0) (scheduler_new LIMITS_DEFAULT) (sample_frame 3))))"
  by (rule lane_served_within_four [where calls = "[Call_Enqueue (sample_frame 3)]"])
    (simp_all add: sample_lane_ready)

text \<open>
  C30. Sending ends. After any calls, once every lane is writable, as many calls of \<open>next_fragment\<close> as there
  are fragments queued each hand out one fragment; then nothing is pending, every counter is zero and further
  calls hand out nothing.
\<close>

theorem scheduler_drains:
  assumes "s = foldl (sched_step sha) (scheduler_new limits) calls" and "list_all (is_lane_writable s) lane_ALL"
  shows "case drain (backlog s) s of (s', rs) \<Rightarrow> length rs = backlog s \<and> \<not> has_pending s'
     \<and> queued_frames s' lane = 0 \<and> queued_bytes s' lane = 0 \<and> snd (next_fragment s') = None"
proof -
  have inv: "sc_inv s"
    unfolding assms(1) by (intro sched.inv_run sc_inv_new) (simp add: list_all_iff)
  have w: "is_lane_writable s l" for l using assms(2) by (cases l) (simp_all add: lane_ALL_def)
  obtain s' rs where d: "drain (backlog s) s = (s', rs)" by fastforce
  have a: "length rs = backlog s" "sc_inv s'" "backlog s' = 0" using drain_all [OF inv w] d by simp_all
  obtain s2 res where nf: "next_fragment s' = (s2, res)" by fastforce
  have "res = None" using backlog_next(1) [OF a(2)] nf a(3) by (cases res) auto
  then show ?thesis using d nf a(1) backlog_empty [OF a(2,3)] by simp
qed

theorem scheduler_drains_witness:
  "let s = fst (enqueue (\<lambda>_. 0) (scheduler_new LIMITS_DEFAULT) (sample_frame 3)) in
     has_pending s \<and> (\<exists>s' rs. drain (backlog s) s = (s', rs) \<and> rs \<noteq> [] \<and> \<not> has_pending s')"
proof -
  let ?s = "foldl (sched_step (\<lambda>_. 0)) (scheduler_new LIMITS_DEFAULT) [Call_Enqueue (sample_frame 3)]"
  have w: "list_all (is_lane_writable ?s) lane_ALL"
    using sample_lane_ready
    by (auto simp: is_lane_writable_def lane_ready_def list_all_iff enqueue_def Let_def scheduler_new_def set_lane_def
        sample_frame_def push_frame_def split: sum.splits)
  have p: "has_pending ?s" using sample_lane_ready by (auto simp: has_pending_def lane_ready_def lane_ALL_def)
  have "sc_inv ?s" by (intro sched.inv_run sc_inv_new) simp
  with p have "backlog ?s \<noteq> 0" using backlog_empty(1) by blast
  moreover obtain s' rs where d: "drain (backlog ?s) ?s = (s', rs)" by fastforce
  moreover have "length rs = backlog ?s \<and> \<not> has_pending s'"
    using scheduler_drains [OF refl w, of Lane_Bulk] unfolding d by simp
  ultimately have "has_pending ?s \<and> rs \<noteq> [] \<and> \<not> has_pending s'" using p by auto
  with d have "\<exists>s' rs. drain (backlog ?s) ?s = (s', rs) \<and> rs \<noteq> [] \<and> \<not> has_pending s'" by blast
  with p show ?thesis by (simp add: Let_def)
qed

text \<open>
  A refused fragment is restored. When a carrier hands back the fragment it was just lent, every lane
  has the same streams with the same fragments, the same round-robin order, the same counts and the
  same writability as before the fragment was taken. The cursor of the schedule and the deficit of the stream
  are not part of this.
\<close>

theorem requeue_restores:
  assumes "s = foldl (sched_step sha) (scheduler_new limits) calls" and "next_fragment s = (s', Some r)"
  shows "content (sc_lanes (requeue s' r) lane) i = content (sc_lanes s lane) i
    \<and> lq_order (sc_lanes (requeue s' r) lane) = lq_order (sc_lanes s lane)
    \<and> queued_frames (requeue s' r) lane = queued_frames s lane \<and> queued_bytes (requeue s' r) lane = queued_bytes s lane
    \<and> is_lane_writable (requeue s' r) lane = is_lane_writable s lane"
proof -
  have "sc_inv s"
    unfolding assms(1) by (intro sched.inv_run sc_inv_new) (simp add: list_all_iff)
  then show ?thesis using assms(2) by (rule requeue_restores_queue)
qed

theorem requeue_restores_witness:
  "\<exists>s' r. next_fragment (fst (enqueue (\<lambda>_. 0) (scheduler_new LIMITS_DEFAULT) (sample_frame 3))) = (s', Some r)
     \<and> queued_bytes (requeue s' r) Lane_Bulk
       = queued_bytes (fst (enqueue (\<lambda>_. 0) (scheduler_new LIMITS_DEFAULT) (sample_frame 3))) Lane_Bulk"
proof -
  let ?s = "foldl (sched_step (\<lambda>_. 0)) (scheduler_new LIMITS_DEFAULT) [Call_Enqueue (sample_frame 3)]"
  have inv: "sc_inv ?s" by (intro sched.inv_run sc_inv_new) simp
  obtain s' res where nf: "next_fragment ?s = (s', res)" by fastforce
  then obtain r where "res = Some r"
    using next_fragment_None(1) [OF inv, of s' Lane_Bulk] sample_lane_ready by (cases res) auto
  with nf have nf: "next_fragment ?s = (s', Some r)" by simp
  from requeue_restores [OF refl nf] nf show ?thesis by auto
qed

end
