(* ===== verification/Remote_Endpoint.thy ===== *)
theory Remote_Endpoint
  imports Remote_Scheduler
begin

text \<open>
  Lane endpoints (\<open>crates/cockpit-proto/src/remote_transport/lane_io.rs\<close>): the writer and reader of
  encoded fragments over the two carriers, the WebRTC data channel and the WebSocket fallback, which
  differ in the watermark that the fallback transmits before each fragment.

  An endpoint keeps one queue of records per lane and one list of lanes in arrival order. The two
  \<open>expect\<close> calls of the code would panic if these disagreed: a panic is the value \<open>None\<close>.

  Shown here: a pair of endpoints of any carrier kinds refines two plain queues of fragments, answer by answer,
  over writes, reads and deliveries in both directions, so that no call panics; what is written on any carrier
  is read on any other, in order and unchanged.
\<close>

section \<open>Definitions\<close>

datatype writability = Writable | BufferFull

datatype carrier_kind = WebRtcDataChannel | WebSocketFallback

fun carrier_as_str :: "carrier_kind \<Rightarrow> string" where
  "carrier_as_str WebRtcDataChannel = ''webrtc_data_channel''"
| "carrier_as_str WebSocketFallback = ''websocket_fallback''"

definition transmits_watermark :: "carrier_kind \<Rightarrow> bool" where
  "transmits_watermark k \<longleftrightarrow> k = WebSocketFallback"

record lane_endpoint =
  le_kind :: carrier_kind
  le_records :: "remote_lane \<Rightarrow> bytes list"
  le_arrival :: "remote_lane list"
  le_writable :: "remote_lane \<Rightarrow> bool"
  le_peer_seen_through :: u64

definition endpoint_new :: "carrier_kind \<Rightarrow> lane_endpoint" where
  "endpoint_new kind =
     \<lparr>le_kind = kind, le_records = (\<lambda>_. []), le_arrival = [], le_writable = (\<lambda>_. True), le_peer_seen_through = 0\<rparr>"

definition set_writable :: "lane_endpoint \<Rightarrow> remote_lane \<Rightarrow> bool \<Rightarrow> lane_endpoint" where
  "set_writable e lane w = e\<lparr>le_writable := (le_writable e)(lane := w)\<rparr>"

definition set_peer_seen_through :: "lane_endpoint \<Rightarrow> u64 \<Rightarrow> lane_endpoint" where
  "set_peer_seen_through e watermark = e\<lparr>le_peer_seen_through := watermark\<rparr>"

definition encode_record :: "lane_endpoint \<Rightarrow> carrier_fragment \<Rightarrow> remote_transport_error + bytes" where
  "encode_record e g =
     rbind (fragment_encode g) (\<lambda>payload.
       if length payload + PEER_SEEN_THROUGH_WATERMARK_BYTES
            > LANE_FRAGMENT_TOTAL_BYTES + PEER_SEEN_THROUGH_WATERMARK_BYTES
       then Inl (error_with_size FragmentPayloadCapExceeded (fg_lane g) (length payload))
       else if transmits_watermark (le_kind e) then Inr (be64 (le_peer_seen_through e) @ payload)
       else Inr payload)"

definition decode_record :: "lane_endpoint \<Rightarrow> bytes \<Rightarrow> remote_transport_error + bytes" where
  "decode_record e rec =
     (if transmits_watermark (le_kind e)
      then if length rec < PEER_SEEN_THROUGH_WATERMARK_BYTES then Inl (error_new HeaderTooShort)
           else Inr (drop PEER_SEEN_THROUGH_WATERMARK_BYTES rec)
      else Inr rec)"

text \<open>Taking the next record in arrival order; \<open>None\<close> inside the option is the \<open>expect\<close> that fails.\<close>

definition push_record :: "lane_endpoint \<Rightarrow> remote_lane \<Rightarrow> bytes \<Rightarrow> lane_endpoint" where
  "push_record e lane rec =
     e\<lparr>le_records := (le_records e)(lane := le_records e lane @ [rec]), le_arrival := le_arrival e @ [lane]\<rparr>"

definition pop_record :: "lane_endpoint \<Rightarrow> remote_lane \<Rightarrow> remote_lane list \<Rightarrow> (lane_endpoint \<times> bytes) option" where
  "pop_record e lane arrival =
     (case le_records e lane of
        [] \<Rightarrow> None
      | rec # recs \<Rightarrow> Some (e\<lparr>le_records := (le_records e)(lane := recs), le_arrival := arrival\<rparr>, rec))"

function deliver_to ::
    "lane_endpoint \<Rightarrow> lane_endpoint \<Rightarrow> (lane_endpoint \<times> lane_endpoint \<times> (remote_transport_error + unit)) option" where
  "deliver_to e peer =
     (case le_arrival e of
        [] \<Rightarrow> Some (e, peer, Inr ())
      | lane # arrival \<Rightarrow>
        (case pop_record e lane arrival of
           None \<Rightarrow> None
         | Some (e', rec) \<Rightarrow>
           (case decode_record e rec of
              Inl err \<Rightarrow> Some (e', peer, Inl err)
            | Inr fragment_bytes \<Rightarrow>
              deliver_to e'
                (push_record peer lane
                  (if transmits_watermark (le_kind peer) then be64 (le_peer_seen_through peer) @ fragment_bytes
                   else fragment_bytes)))))"
  by pat_completeness auto
termination
  by (relation "measure (\<lambda>(e, _). length (le_arrival e))") (auto simp: pop_record_def split: list.splits)

declare deliver_to.simps [simp del]

definition pending_records :: "lane_endpoint \<Rightarrow> nat" where
  "pending_records e = length (le_arrival e)"

definition endpoint_writability :: "lane_endpoint \<Rightarrow> remote_lane \<Rightarrow> writability" where
  "endpoint_writability e lane = (if le_writable e lane then Writable else BufferFull)"

definition write_fragment ::
    "lane_endpoint \<Rightarrow> remote_lane \<Rightarrow> carrier_fragment \<Rightarrow> lane_endpoint \<times> (remote_transport_error + unit)" where
  "write_fragment e lane g =
     (if fg_lane g \<noteq> lane then (e, Inl (error_with_lane UnknownLane lane))
      else if \<not> le_writable e lane then (e, Inl (error_with_lane QueueByteLimit lane))
      else case encode_record e g of
        Inl err \<Rightarrow> (e, Inl err)
      | Inr rec \<Rightarrow> (push_record e lane rec, Inr ()))"

definition read_fragment ::
    "lane_endpoint \<Rightarrow> (lane_endpoint \<times> (remote_transport_error + carrier_fragment option)) option" where
  "read_fragment e =
     (case le_arrival e of
        [] \<Rightarrow> Some (e, Inr None)
      | lane # arrival \<Rightarrow>
        (case pop_record e lane arrival of
           None \<Rightarrow> None
         | Some (e', rec) \<Rightarrow>
           Some (e', rbind (decode_record e rec) (\<lambda>fragment_bytes.
             rbind (fragment_decode fragment_bytes) (\<lambda>g. Inr (Some g))))))"

subsection \<open>Predicates\<close>

text \<open>The abstract endpoint: one queue of records, each with its lane, in arrival order.\<close>

definition holds :: "lane_endpoint \<Rightarrow> (remote_lane \<times> bytes) list \<Rightarrow> bool" where
  "holds e q \<longleftrightarrow> le_arrival e = map fst q \<and> (\<forall>lane. le_records e lane = map snd (filter (\<lambda>x. fst x = lane) q))"

text \<open>What an endpoint sends for a fragment.\<close>

definition wire_of :: "lane_endpoint \<Rightarrow> bytes \<Rightarrow> bytes" where
  "wire_of e payload = (if transmits_watermark (le_kind e) then be64 (le_peer_seen_through e) @ payload else payload)"

text \<open>
  The calls on one endpoint of a pair, with their answers. A delivery moves everything that waits at the
  endpoint to the other one.
\<close>

datatype endpoint_call =
    Ep_Write remote_lane carrier_fragment
  | Ep_Read
  | Ep_Deliver
  | Ep_Writable remote_lane bool
  | Ep_Watermark u64
  | Ep_Writability remote_lane
  | Ep_Pending

datatype endpoint_answer =
    Answer_Result "remote_transport_error + unit"
  | Answer_Read "remote_transport_error + carrier_fragment option"
  | Answer_Writability writability
  | Answer_Pending nat
  | Answer_Done

fun endpoint_call_on ::
    "lane_endpoint \<Rightarrow> lane_endpoint \<Rightarrow> endpoint_call \<Rightarrow> (lane_endpoint \<times> lane_endpoint \<times> endpoint_answer) option" where
  "endpoint_call_on e peer (Ep_Write lane g) = (case write_fragment e lane g of (e', r) \<Rightarrow> Some (e', peer, Answer_Result r))"
| "endpoint_call_on e peer Ep_Read = map_option (\<lambda>(e', r). (e', peer, Answer_Read r)) (read_fragment e)"
| "endpoint_call_on e peer Ep_Deliver = map_option (\<lambda>(e', peer', r). (e', peer', Answer_Result r)) (deliver_to e peer)"
| "endpoint_call_on e peer (Ep_Writable lane w) = Some (set_writable e lane w, peer, Answer_Done)"
| "endpoint_call_on e peer (Ep_Watermark w) = Some (set_peer_seen_through e w, peer, Answer_Done)"
| "endpoint_call_on e peer (Ep_Writability lane) = Some (e, peer, Answer_Writability (endpoint_writability e lane))"
| "endpoint_call_on e peer Ep_Pending = Some (e, peer, Answer_Pending (pending_records e))"

text \<open>A call on a pair of endpoints names the endpoint it is made on.\<close>

fun pair_step ::
    "lane_endpoint \<times> lane_endpoint \<Rightarrow> bool \<times> endpoint_call \<Rightarrow> ((lane_endpoint \<times> lane_endpoint) \<times> endpoint_answer) option" where
  "pair_step (a, b) (True, c) = map_option (\<lambda>(a', b', out). ((a', b'), out)) (endpoint_call_on a b c)"
| "pair_step (a, b) (False, c) = map_option (\<lambda>(b', a', out). ((a', b'), out)) (endpoint_call_on b a c)"

text \<open>
  What an endpoint promises: a queue of fragments and a writability per lane, with no carrier, record or
  watermark in it.
\<close>

record fragment_queue =
  fq_waiting :: "carrier_fragment list"
  fq_writable :: "remote_lane \<Rightarrow> bool"

definition queue_new :: fragment_queue where
  "queue_new = \<lparr>fq_waiting = [], fq_writable = (\<lambda>_. True)\<rparr>"

definition queue_write :: "fragment_queue \<Rightarrow> remote_lane \<Rightarrow> carrier_fragment \<Rightarrow> fragment_queue \<times> (remote_transport_error + unit)" where
  "queue_write q lane g =
     (if fg_lane g \<noteq> lane then (q, Inl (error_with_lane UnknownLane lane))
      else if \<not> fq_writable q lane then (q, Inl (error_with_lane QueueByteLimit lane))
      else case fragment_validate_shape g of
        Inl err \<Rightarrow> (q, Inl err)
      | Inr _ \<Rightarrow> (q\<lparr>fq_waiting := fq_waiting q @ [g]\<rparr>, Inr ()))"

fun queue_call_on :: "fragment_queue \<Rightarrow> fragment_queue \<Rightarrow> endpoint_call \<Rightarrow> fragment_queue \<times> fragment_queue \<times> endpoint_answer" where
  "queue_call_on q peer (Ep_Write lane g) = (case queue_write q lane g of (q', r) \<Rightarrow> (q', peer, Answer_Result r))"
| "queue_call_on q peer Ep_Read =
     (case fq_waiting q of
        [] \<Rightarrow> (q, peer, Answer_Read (Inr None))
      | g # gs \<Rightarrow> (q\<lparr>fq_waiting := gs\<rparr>, peer, Answer_Read (Inr (Some g))))"
| "queue_call_on q peer Ep_Deliver =
     (q\<lparr>fq_waiting := []\<rparr>, peer\<lparr>fq_waiting := fq_waiting peer @ fq_waiting q\<rparr>, Answer_Result (Inr ()))"
| "queue_call_on q peer (Ep_Writable lane w) = (q\<lparr>fq_writable := (fq_writable q)(lane := w)\<rparr>, peer, Answer_Done)"
| "queue_call_on q peer (Ep_Watermark w) = (q, peer, Answer_Done)"
| "queue_call_on q peer (Ep_Writability lane) = (q, peer, Answer_Writability (if fq_writable q lane then Writable else BufferFull))"
| "queue_call_on q peer Ep_Pending = (q, peer, Answer_Pending (length (fq_waiting q)))"

fun queues_step ::
    "fragment_queue \<times> fragment_queue \<Rightarrow> bool \<times> endpoint_call \<Rightarrow> (fragment_queue \<times> fragment_queue) \<times> endpoint_answer" where
  "queues_step (a, b) (True, c) = (case queue_call_on a b c of (a', b', out) \<Rightarrow> ((a', b'), out))"
| "queues_step (a, b) (False, c) = (case queue_call_on b a c of (b', a', out) \<Rightarrow> ((a', b'), out))"

text \<open>The types of the code admit only known flags and nonzero frame ids.\<close>

fun typed_call :: "endpoint_call \<Rightarrow> bool" where
  "typed_call (Ep_Write lane g) \<longleftrightarrow> fragment_flags_from_bits (fg_flags g) \<noteq> None \<and> fg_frame_id g \<noteq> 0"
| "typed_call _ \<longleftrightarrow> True"

text \<open>An endpoint implements a queue: its records carry the waiting fragments, in order, in its own framing.\<close>

definition carries_fragment :: "lane_endpoint \<Rightarrow> remote_lane \<times> bytes \<Rightarrow> carrier_fragment \<Rightarrow> bool" where
  "carries_fragment e r g \<longleftrightarrow> fst r = fg_lane g \<and> fragment_ok g
     \<and> (\<exists>payload. decode_record e (snd r) = Inr payload \<and> fragment_encode g = Inr payload)"

definition implements :: "lane_endpoint \<Rightarrow> fragment_queue \<Rightarrow> bool" where
  "implements e q \<longleftrightarrow> le_writable e = fq_writable q \<and> (\<exists>rs. holds e rs \<and> list_all2 (carries_fragment e) rs (fq_waiting q))"

fun implements_pair :: "lane_endpoint \<times> lane_endpoint \<Rightarrow> fragment_queue \<times> fragment_queue \<Rightarrow> bool" where
  "implements_pair (a, b) (qa, qb) \<longleftrightarrow> implements a qa \<and> implements b qb"

text \<open>Writing a list of fragments, and reading up to \<open>n\<close> of them.\<close>

fun write_all :: "lane_endpoint \<Rightarrow> carrier_fragment list \<Rightarrow> remote_transport_error + lane_endpoint" where
  "write_all e [] = Inr e"
| "write_all e (g # gs) =
     (case write_fragment e (fg_lane g) g of
        (e, Inl err) \<Rightarrow> Inl err
      | (e, Inr _) \<Rightarrow> write_all e gs)"

fun read_all :: "nat \<Rightarrow> lane_endpoint \<Rightarrow> (remote_transport_error + carrier_fragment list) option" where
  "read_all 0 e = Some (Inr [])"
| "read_all (Suc n) e =
     (case read_fragment e of
        None \<Rightarrow> None
      | Some (e, Inl err) \<Rightarrow> Some (Inl err)
      | Some (e, Inr None) \<Rightarrow> Some (Inr [])
      | Some (e, Inr (Some g)) \<Rightarrow> map_option (\<lambda>r. rbind r (\<lambda>gs. Inr (g # gs))) (read_all n e))"

text \<open>
  One trip over the carriers: write on the sender, move to the receiver, read there until nothing is left.
\<close>

definition carry ::
    "lane_endpoint \<Rightarrow> lane_endpoint \<Rightarrow> carrier_fragment list \<Rightarrow> (remote_transport_error + carrier_fragment list) option" where
  "carry sender receiver gs =
     (case write_all sender gs of
        Inl err \<Rightarrow> Some (Inl err)
      | Inr sender \<Rightarrow>
        (case deliver_to sender receiver of
           None \<Rightarrow> None
         | Some (_, receiver, Inl err) \<Rightarrow> Some (Inl err)
         | Some (_, receiver, Inr _) \<Rightarrow> read_all (Suc (pending_records receiver)) receiver))"

section \<open>An endpoint is a queue\<close>

lemma holds_new: "holds (endpoint_new k) []"
  by (simp add: holds_def endpoint_new_def)

lemma holds_push: "holds e q \<Longrightarrow> holds (push_record e lane rec) (q @ [(lane, rec)])"
  by (simp add: holds_def push_record_def)

lemma holds_pop:
  assumes "holds e ((lane, rec) # q)"
  shows "pop_record e lane (map fst q)
    = Some (e\<lparr>le_records := (le_records e)(lane := map snd (filter (\<lambda>x. fst x = lane) q)), le_arrival := map fst q\<rparr>, rec)"
    and "holds (e\<lparr>le_records := (le_records e)(lane := map snd (filter (\<lambda>x. fst x = lane) q)), le_arrival := map fst q\<rparr>) q"
  using assms by (simp_all add: holds_def pop_record_def)

lemma wire_of_update [simp]:
  "wire_of (e\<lparr>le_records := rs, le_arrival := a\<rparr>) = wire_of e" "wire_of (push_record e lane rec) = wire_of e"
  "decode_record (e\<lparr>le_records := rs, le_arrival := a\<rparr>) = decode_record e"
  "le_kind (push_record e lane rec) = le_kind e" "le_writable (push_record e lane rec) = le_writable e"
  "le_peer_seen_through (push_record e lane rec) = le_peer_seen_through e"
  by (simp_all add: push_record_def wire_of_def decode_record_def fun_eq_iff)

lemma encode_record_ok:
  assumes "fragment_ok g" "fragment_encode g = Inr w"
  shows "encode_record e g = Inr (wire_of e w)" and "decode_record e (wire_of e w) = Inr w"
proof -
  have "fragment_validate_shape g = Inr ()" using assms(1) by (simp add: fragment_ok_def)
  then have "length w \<le> LANE_FRAGMENT_TOTAL_BYTES"
    using assms(2) by (auto simp: fragment_encode_ok fragment_shape_iff fragment_consts)
  then show "encode_record e g = Inr (wire_of e w)" "decode_record e (wire_of e w) = Inr w"
    using assms(2) by (simp_all add: encode_record_def decode_record_def wire_of_def fragment_consts)
qed

lemma write_fragment_iff:
  "write_fragment e lane g = (e', Inr ()) \<longleftrightarrow> fg_lane g = lane \<and> le_writable e lane
     \<and> (\<exists>rec. encode_record e g = Inr rec \<and> e' = push_record e lane rec)"
  by (auto simp: write_fragment_def split: sum.splits)

lemma write_fragment_error: "write_fragment e lane g = (e', Inl err) \<Longrightarrow> e' = e"
  by (auto simp: write_fragment_def split: if_splits sum.splits)

section \<open>An endpoint implements a queue of fragments\<close>

lemma carries_fragment_cong: "decode_record e = decode_record e' \<Longrightarrow> carries_fragment e = carries_fragment e'"
  by (simp add: carries_fragment_def fun_eq_iff)

lemma decode_record_eqs [simp]:
  "decode_record (push_record e lane rec) = decode_record e" "decode_record (set_writable e lane w) = decode_record e"
  "decode_record (set_peer_seen_through e v) = decode_record e"
  by (simp_all add: decode_record_def push_record_def set_writable_def set_peer_seen_through_def fun_eq_iff)

lemma carries_fragment_eqs [simp]:
  "carries_fragment (push_record e lane rec) = carries_fragment e"
  "carries_fragment (e\<lparr>le_records := rs, le_arrival := arr\<rparr>) = carries_fragment e"
  "carries_fragment (set_writable e lane w) = carries_fragment e"
  "carries_fragment (set_peer_seen_through e v) = carries_fragment e"
  by (rule carries_fragment_cong; simp)+

lemma implements_new: "implements (endpoint_new k) queue_new"
  using holds_new [of k] by (auto simp: implements_def queue_new_def endpoint_new_def)

lemma implements_push:
  assumes "implements e q" and "fragment_ok g" and "decode_record e rec = Inr w" and "fragment_encode g = Inr w"
  shows "implements (push_record e (fg_lane g) rec) (q\<lparr>fq_waiting := fq_waiting q @ [g]\<rparr>)"
proof -
  from assms(1) obtain rs where rs: "holds e rs" "list_all2 (carries_fragment e) rs (fq_waiting q)" "le_writable e = fq_writable q"
    by (auto simp: implements_def)
  have "list_all2 (carries_fragment e) (rs @ [(fg_lane g, rec)]) (fq_waiting q @ [g])"
    using rs(2) assms(2-4) by (intro list_all2_appendI) (auto simp: carries_fragment_def)
  then show ?thesis using holds_push [OF rs(1), of "fg_lane g" rec] rs(3) by (auto simp: implements_def)
qed

text \<open>Taking the head of an endpoint that implements a queue.\<close>

lemma implements_pop:
  assumes "implements e q" and "fq_waiting q = g # gs"
  obtains rec arrival e' w where "le_arrival e = fg_lane g # arrival" "pop_record e (fg_lane g) arrival = Some (e', rec)"
    "implements e' (q\<lparr>fq_waiting := gs\<rparr>)" "decode_record e rec = Inr w" "fragment_encode g = Inr w" "fragment_ok g"
    "decode_record e' = decode_record e"
proof -
  from assms obtain rs where rs: "holds e rs" "list_all2 (carries_fragment e) rs (g # gs)" "le_writable e = fq_writable q"
    by (auto simp: implements_def)
  then obtain rec rest where r: "rs = (fg_lane g, rec) # rest" "carries_fragment e (fg_lane g, rec) g" "list_all2 (carries_fragment e) rest gs"
    by (cases rs) (auto simp: carries_fragment_def)
  have h: "holds e ((fg_lane g, rec) # rest)" using rs(1) r(1) by simp
  let ?e = "e\<lparr>le_records := (le_records e)(fg_lane g := map snd (filter (\<lambda>x. fst x = fg_lane g) rest)), le_arrival := map fst rest\<rparr>"
  obtain w where w: "decode_record e rec = Inr w" "fragment_encode g = Inr w" "fragment_ok g"
    using r(2) by (auto simp: carries_fragment_def)
  have "implements ?e (q\<lparr>fq_waiting := gs\<rparr>)"
    using holds_pop(2) [OF h] r(3) rs(3) by (auto simp: implements_def)
  moreover have "le_arrival e = fg_lane g # map fst rest" using h by (simp add: holds_def)
  ultimately show thesis using holds_pop(1) [OF h] w by (intro that [of "map fst rest" ?e rec w]) simp_all
qed

lemma implements_empty: "implements e q \<Longrightarrow> fq_waiting q = [] \<Longrightarrow> le_arrival e = []"
  by (auto simp: implements_def holds_def)

lemma implements_same [simp]: "fq_waiting q = gs \<Longrightarrow> implements e (q\<lparr>fq_waiting := gs\<rparr>) \<longleftrightarrow> implements e q"
  by (simp add: implements_def)

lemma implements_pending: "implements e q \<Longrightarrow> pending_records e = length (fq_waiting q)"
  by (auto simp: implements_def holds_def pending_records_def dest: list_all2_lengthD)

lemma write_implements:
  assumes "implements e q" and "fragment_flags_from_bits (fg_flags g) \<noteq> None" and "fg_frame_id g \<noteq> 0"
  shows "\<exists>e'. write_fragment e lane g = (e', snd (queue_write q lane g)) \<and> implements e' (fst (queue_write q lane g))"
proof (cases "fg_lane g = lane \<and> fq_writable q lane")
  case True
  have w: "le_writable e = fq_writable q" using assms(1) by (simp add: implements_def)
  show ?thesis
  proof (cases "fragment_validate_shape g")
    case (Inl err)
    then have "fragment_encode g = Inl err" by (simp add: fragment_encode_def)
    then show ?thesis using True w Inl assms(1) by (simp add: write_fragment_def queue_write_def encode_record_def)
  next
    case (Inr u)
    then have ok: "fragment_ok g" using assms(2,3) by (simp add: fragment_ok_def)
    then obtain payload where p: "fragment_encode g = Inr payload" using fragment_codec.enc_total by blast
    note enc = encode_record_ok [OF ok p, of e]
    from implements_push [OF assms(1) ok enc(2) p] True w Inr enc(1) show ?thesis
      by (simp add: write_fragment_def queue_write_def)
  qed
next
  case False
  then show ?thesis using assms(1) by (auto simp: write_fragment_def queue_write_def implements_def)
qed

lemma read_implements:
  assumes "implements e q"
  shows "\<exists>e'. read_fragment e = Some (e', Inr (case fq_waiting q of [] \<Rightarrow> None | g # gs \<Rightarrow> Some g))
     \<and> implements e' (q\<lparr>fq_waiting := tl (fq_waiting q)\<rparr>)"
proof (cases "fq_waiting q")
  case Nil
  then show ?thesis using implements_empty [OF assms Nil] assms by (simp add: read_fragment_def)
next
  case (Cons g gs)
  obtain rec arrival e' w where p: "le_arrival e = fg_lane g # arrival" "pop_record e (fg_lane g) arrival = Some (e', rec)"
    "implements e' (q\<lparr>fq_waiting := gs\<rparr>)" "decode_record e rec = Inr w" "fragment_encode g = Inr w" "fragment_ok g"
    by (rule implements_pop [OF assms Cons])
  have "fragment_decode w = Inr g" using p(5,6) fragment_codec.dec_iff by blast
  with p Cons show ?thesis by (simp add: read_fragment_def)
qed

lemma deliver_implements:
  assumes "implements e q" and "implements peer p"
  shows "\<exists>e' peer'. deliver_to e peer = Some (e', peer', Inr ()) \<and> implements e' (q\<lparr>fq_waiting := []\<rparr>)
     \<and> implements peer' (p\<lparr>fq_waiting := fq_waiting p @ fq_waiting q\<rparr>)"
  using assms
proof (induction "fq_waiting q" arbitrary: e peer q p)
  case Nil
  then show ?case using implements_empty [OF Nil(2)] by (simp add: deliver_to.simps)
next
  case (Cons g gs)
  obtain rec arrival e' w where x: "le_arrival e = fg_lane g # arrival" "pop_record e (fg_lane g) arrival = Some (e', rec)"
    "implements e' (q\<lparr>fq_waiting := gs\<rparr>)" "decode_record e rec = Inr w" "fragment_encode g = Inr w" "fragment_ok g"
    by (rule implements_pop [OF Cons.prems(1) Cons.hyps(2) [symmetric]])
  have "implements (push_record peer (fg_lane g) (wire_of peer w)) (p\<lparr>fq_waiting := fq_waiting p @ [g]\<rparr>)"
    using implements_push [OF Cons.prems(2) x(6) encode_record_ok(2) [OF x(6,5)] x(5)] .
  from Cons.hyps(1) [OF _ x(3) this] Cons.hyps(2) [symmetric] x(1,2,4) show ?case
    by (subst deliver_to.simps) (simp add: wire_of_def)
qed

lemma call_implements:
  assumes "implements e q" and "implements peer p" and "typed_call c"
  shows "\<exists>e' peer'. endpoint_call_on e peer c = Some (e', peer', snd (snd (queue_call_on q p c)))
     \<and> implements e' (fst (queue_call_on q p c)) \<and> implements peer' (fst (snd (queue_call_on q p c)))"
proof (cases c)
  case (Ep_Write lane g)
  then show ?thesis using write_implements [OF assms(1), of g lane] assms(2,3) by (auto split: prod.split)
next
  case Ep_Read
  then show ?thesis using read_implements [OF assms(1)] assms(1,2) by (auto split: list.split)
next
  case Ep_Deliver
  then show ?thesis using deliver_implements [OF assms(1,2)] by auto
next
  case (Ep_Writable lane w)
  have "implements (set_writable e lane w) (q\<lparr>fq_writable := (fq_writable q)(lane := w)\<rparr>)"
    using assms(1) carries_fragment_eqs(3) [of e lane w] by (auto simp: implements_def holds_def set_writable_def)
  then show ?thesis using Ep_Writable assms(2) by simp
next
  case (Ep_Watermark w)
  have "implements (set_peer_seen_through e w) q"
    using assms(1) carries_fragment_eqs(4) [of e w] by (auto simp: implements_def holds_def set_peer_seen_through_def)
  then show ?thesis using Ep_Watermark assms(2) by simp
next
  case (Ep_Writability lane)
  then show ?thesis using assms(1,2) by (simp add: endpoint_writability_def implements_def)
next
  case Ep_Pending
  then show ?thesis using assms(1,2) implements_pending [OF assms(1)] by simp
qed

interpretation endpoints: simulating_machine pair_step queues_step "\<lambda>c. typed_call (snd c)" implements_pair
proof
  fix s a and c :: "bool \<times> endpoint_call"
  assume rel: "implements_pair s a" and typed: "typed_call (snd c)"
  obtain e f q p where s: "s = (e, f)" "a = (q, p)" by (cases s, cases a) auto
  obtain left call where c: "c = (left, call)" by (cases c)
  from rel typed s c have "implements e q" "implements f p" "typed_call call" by simp_all
  then show "\<exists>s'. pair_step s c = Some (s', snd (queues_step a c)) \<and> implements_pair s' (fst (queues_step a c))"
    using call_implements [of e q f p call] call_implements [of f p e q call] s c
    by (cases left) (auto split: prod.split)
qed

section \<open>A trip over the carriers\<close>

lemma write_all_ok:
  assumes "holds e q" "list_all2 (\<lambda>g w. fragment_ok g \<and> fragment_encode g = Inr w \<and> le_writable e (fg_lane g)) gs ws"
  shows "\<exists>e'. write_all e gs = Inr e' \<and> holds e' (q @ zip (map fg_lane gs) (map (wire_of e) ws))
    \<and> wire_of e' = wire_of e"
  using assms
proof (induction gs arbitrary: e q ws)
  case Nil
  then show ?case by simp
next
  case (Cons g gs)
  then obtain w ws' where ws: "ws = w # ws'" and g: "fragment_ok g" "fragment_encode g = Inr w" "le_writable e (fg_lane g)"
    and rest: "list_all2 (\<lambda>g w. fragment_ok g \<and> fragment_encode g = Inr w \<and> le_writable e (fg_lane g)) gs ws'"
    by (cases ws) auto
  let ?e = "push_record e (fg_lane g) (wire_of e w)"
  have wr: "write_fragment e (fg_lane g) g = (?e, Inr ())"
    using g encode_record_ok(1) [OF g(1,2)] by (simp add: write_fragment_iff)
  show ?case
    using Cons.IH [OF holds_push [OF Cons.prems(1)], of "fg_lane g" "wire_of e w" ws'] rest
    by (simp add: ws wr)
qed

lemma deliver_to_ok:
  assumes "holds e (zip lanes (map (wire_of e) ws))" "length lanes = length ws" "holds peer q"
    and "\<forall>w \<in> set ws. decode_record e (wire_of e w) = Inr w"
  shows "\<exists>e' peer'. deliver_to e peer = Some (e', peer', Inr ()) \<and> holds peer' (q @ zip lanes (map (wire_of peer) ws))
    \<and> le_kind peer' = le_kind peer"
  using assms
proof (induction ws arbitrary: e peer lanes q)
  case Nil
  then show ?case by (simp add: deliver_to.simps holds_def)
next
  case (Cons w ws)
  then obtain lane lanes' where lanes: "lanes = lane # lanes'" by (cases lanes) auto
  let ?e = "e\<lparr>le_records := (le_records e)(lane := map snd (filter (\<lambda>x. fst x = lane) (zip lanes' (map (wire_of e) ws)))),
      le_arrival := map fst (zip lanes' (map (wire_of e) ws))\<rparr>"
  let ?p = "push_record peer lane (wire_of peer w)"
  have h: "holds e ((lane, wire_of e w) # zip lanes' (map (wire_of e) ws))"
    using Cons.prems(1) lanes by simp
  have "le_arrival e = lane # map fst (zip lanes' (map (wire_of e) ws))"
    using h by (simp add: holds_def)
  then have step: "deliver_to e peer = deliver_to ?e ?p"
    using holds_pop(1) [OF h] Cons.prems(4) by (subst deliver_to.simps) (simp add: wire_of_def)
  show ?case
    using Cons.IH [of ?e lanes' ?p "q @ [(lane, wire_of peer w)]"] holds_pop(2) [OF h] holds_push [OF Cons.prems(3)]
      Cons.prems(2,4) lanes
    by (simp add: step)
qed

lemma read_all_ok:
  assumes "holds e (zip (map fg_lane gs) (map (wire_of e') ws))" "le_kind e = le_kind e'"
    and "list_all2 (\<lambda>g w. fragment_ok g \<and> fragment_encode g = Inr w) gs ws" "length gs \<le> n"
  shows "read_all (Suc n) e = Some (Inr gs)"
  using assms
proof (induction gs arbitrary: e ws n)
  case Nil
  then show ?case by (simp add: read_fragment_def holds_def)
next
  case (Cons g gs)
  then obtain w ws' where ws: "ws = w # ws'" and g: "fragment_ok g" "fragment_encode g = Inr w"
    and rest: "list_all2 (\<lambda>g w. fragment_ok g \<and> fragment_encode g = Inr w) gs ws'"
    by (cases ws) auto
  obtain m where m: "n = Suc m" "length gs \<le> m" using Cons.prems(4) by (cases n) auto
  have h: "holds e ((fg_lane g, wire_of e' w) # zip (map fg_lane gs) (map (wire_of e') ws'))"
    using Cons.prems(1) ws by simp
  then have "le_arrival e = fg_lane g # map fst (zip (map fg_lane gs) (map (wire_of e') ws'))"
    by (simp add: holds_def)
  moreover have "decode_record e (wire_of e' w) = Inr w"
    using encode_record_ok(2) [OF g, of e'] Cons.prems(2) by (simp add: decode_record_def)
  moreover have "fragment_decode w = Inr g"
    using g fragment_codec.dec_iff by blast
  ultimately show ?case
    using holds_pop [OF h] Cons.IH [OF holds_pop(2) [OF h] _ rest m(2)] Cons.prems(2)
    by (simp add: read_fragment_def m(1) del: read_all.simps(2) add: read_all.simps(2) [of "Suc m"])
qed

lemma carry_ok:
  assumes "holds sender []" "holds receiver []" "list_all (\<lambda>g. fragment_ok g \<and> le_writable sender (fg_lane g)) gs"
  shows "carry sender receiver gs = Some (Inr gs)"
proof -
  have "\<exists>ws. list_all2 (\<lambda>g w. fragment_ok g \<and> fragment_encode g = Inr w \<and> le_writable sender (fg_lane g)) gs ws"
    using assms(3)
  proof (induction gs)
    case (Cons g gs)
    then obtain ws w where "list_all2 (\<lambda>g w. fragment_ok g \<and> fragment_encode g = Inr w \<and> le_writable sender (fg_lane g)) gs ws"
      "fragment_encode g = Inr w" using fragment_codec.enc_total [of g] by auto
    with Cons.prems show ?case by (intro exI [of _ "w # ws"]) simp
  qed auto
  then obtain ws where ws: "list_all2 (\<lambda>g w. fragment_ok g \<and> fragment_encode g = Inr w \<and> le_writable sender (fg_lane g)) gs ws"
    by blast
  then have ws': "list_all2 (\<lambda>g w. fragment_ok g \<and> fragment_encode g = Inr w) gs ws" and len: "length ws = length gs"
    by (auto elim: list_all2_mono dest: list_all2_lengthD)
  obtain s where s: "write_all sender gs = Inr s" "holds s (zip (map fg_lane gs) (map (wire_of s) ws))"
    using write_all_ok [OF assms(1) ws] by auto
  have "\<forall>w \<in> set ws. decode_record s (wire_of s w) = Inr w"
    using ws' by (induction gs ws rule: list_all2_induct) (auto intro: encode_record_ok(2))
  from deliver_to_ok [OF s(2) _ assms(2) this] len
  obtain s' r where r: "deliver_to s receiver = Some (s', r, Inr ())"
    "holds r (zip (map fg_lane gs) (map (wire_of receiver) ws))" "le_kind r = le_kind receiver"
    by auto
  have "pending_records r = length gs"
    using r(2) len by (simp add: pending_records_def holds_def)
  then show ?thesis
    using s(1) r(1) read_all_ok [OF r(2,3) ws' order_refl] by (simp add: carry_def del: read_all.simps)
qed

section \<open>Properties\<close>

text \<open>
  Carriers are interchangeable. Well-formed fragments written on an endpoint of either kind, moved to
  an endpoint of either kind and read there come out in the order of writing and unchanged, whatever
  watermarks the two endpoints carry.
\<close>

theorem carrier_delivers:
  assumes "list_all fragment_ok gs"
  shows "carry (set_peer_seen_through (endpoint_new k) w) (set_peer_seen_through (endpoint_new k') w') gs = Some (Inr gs)"
  using assms holds_new
  by (intro carry_ok) (auto simp: holds_def set_peer_seen_through_def endpoint_new_def list_all_iff)

theorem carrier_delivers_witness:
  "carry (set_peer_seen_through (endpoint_new WebSocketFallback) 7) (set_peer_seen_through (endpoint_new WebRtcDataChannel) 0)
     [fragment_at Lane_Bulk 9 [1, 2, 3] 1 0, fragment_at Lane_Control 8 [4] 1 0]
   = Some (Inr [fragment_at Lane_Bulk 9 [1, 2, 3] 1 0, fragment_at Lane_Control 8 [4] 1 0])"
proof -
  have "fragment_ok (fragment_at lane key bs 1 0)" if "key \<noteq> 0" for lane key bs
    using fragment_at_shape [of 0 1 lane key bs] that
    by (simp add: fragment_ok_def) (simp add: fragment_at_def fragment_flags_from_bits_def FRAGMENT_END_def)
  then show ?thesis by (intro carrier_delivers) simp
qed

text \<open>
  C19. Two endpoints are two queues of fragments. Whatever calls are made on a new pair of endpoints of any
  carrier kinds, writes, reads, deliveries in both directions, changes of writability and watermark, no call
  panics and every answer is that of two plain queues of fragments, in which a write appends its fragment or
  reports why not, a read takes the oldest fragment, a delivery moves everything to the other queue, and
  neither carriers nor watermarks exist.
\<close>

theorem endpoints_refine_queues:
  assumes "list_all (\<lambda>c. typed_call (snd c)) calls"
  shows "\<exists>a b. run_panicking pair_step (endpoint_new k, endpoint_new k') calls
       = Some ((a, b), snd (run_abstract queues_step (queue_new, queue_new) calls))
     \<and> implements a (fst (fst (run_abstract queues_step (queue_new, queue_new) calls)))
     \<and> implements b (snd (fst (run_abstract queues_step (queue_new, queue_new) calls)))"
proof -
  have "implements_pair (endpoint_new k, endpoint_new k') (queue_new, queue_new)" by (simp add: implements_new)
  from endpoints.sim_run [OF this assms] show ?thesis
    by (cases "fst (run_abstract queues_step (queue_new, queue_new) calls)") auto
qed

text \<open>A fragment that is written, delivered and read.\<close>

theorem endpoints_refine_queues_witness:
  "\<exists>a b. run_panicking pair_step (endpoint_new WebSocketFallback, endpoint_new WebRtcDataChannel)
      [(True, Ep_Watermark 7), (True, Ep_Write Lane_Bulk (fragment_at Lane_Bulk 9 [1, 2, 3] 1 0)), (True, Ep_Deliver),
       (True, Ep_Pending), (False, Ep_Read), (False, Ep_Read)]
    = Some ((a, b), [Answer_Done, Answer_Result (Inr ()), Answer_Result (Inr ()), Answer_Pending 0,
        Answer_Read (Inr (Some (fragment_at Lane_Bulk 9 [1, 2, 3] 1 0))), Answer_Read (Inr None)])"
proof -
  let ?g = "fragment_at Lane_Bulk 9 [1, 2, 3] 1 0"
  have shape: "fragment_validate_shape ?g = Inr ()" using fragment_at_shape [of 0 1 Lane_Bulk 9 "[1, 2, 3]"] by simp
  have g: "fragment_flags_from_bits (fg_flags ?g) \<noteq> None" "fg_frame_id ?g \<noteq> 0" "fg_lane ?g = Lane_Bulk"
    by (simp_all add: fragment_at_def fragment_flags_from_bits_def FRAGMENT_END_def)
  from endpoints_refine_queues [of "[(True, Ep_Watermark 7), (True, Ep_Write Lane_Bulk ?g), (True, Ep_Deliver),
       (True, Ep_Pending), (False, Ep_Read), (False, Ep_Read)]" WebSocketFallback WebRtcDataChannel] shape g
  show ?thesis by (auto simp: queue_write_def queue_new_def)
qed

end
