(* ===== verification/Remote_Path.thy ===== *)
theory Remote_Path
  imports Remote_Endpoint
begin

text \<open>
  The transport path as a whole: frames are queued by a scheduler, sent as fragments in the order it
  chooses, carried between two endpoints, and reassembled behind the receive gate. The fragments of
  different streams interleave; those of one stream stay in order.

  Shown here: when the frames of at most 15 streams arrive in this way, each stream's frames are
  dispatched completely and in order. The bound 15 comes from the receiver's byte budget: 15 frames of
  the largest serialized size fit into its 8 MiB, 16 do not.
\<close>

declare split_paired_All [simp del] split_paired_Ex [simp del]

section \<open>Definitions\<close>

type_synonym stream = "remote_lane \<times> u64"

definition frame_stream :: "transport_frame \<Rightarrow> stream" where
  "frame_stream f = (fr_lane f, fr_stream_id f)"

definition request_stream :: "send_request \<Rightarrow> stream" where
  "request_stream r = (sr_lane r, sr_stream_id r)"

text \<open>The sequence number the gate expects next on a stream.\<close>

definition next_seq :: "stream_sequences \<Rightarrow> stream \<Rightarrow> nat" where
  "next_seq s st = (case bt_get (ss_next s) st of Some n \<Rightarrow> unat n | None \<Rightarrow> 0)"

text \<open>Frames that the gate would pass one after the other on a stream that is not retired.\<close>

definition numbered :: "nat \<Rightarrow> transport_frame list \<Rightarrow> bool" where
  "numbered k fs \<longleftrightarrow> map (\<lambda>f. unat (fr_stream_seq f)) fs = [k..<k + length fs] \<and> k + length fs < 2 ^ 64
     \<and> list_all (\<lambda>f. \<not> frame_terminal f) (butlast fs)"

definition passable :: "stream_origin \<Rightarrow> stream_sequences \<Rightarrow> stream \<Rightarrow> transport_frame list \<Rightarrow> bool" where
  "passable origin s st fs \<longleftrightarrow> fs = []
     \<or> stream_valid origin (fst st) (snd st) \<and> numbered (next_seq s st) fs
       \<and> stream_ordinal origin (snd st) \<notin> retired s (fst st)
       \<and> unat (stream_ordinal origin (snd st)) < unat MAX_OUTSTANDING_STREAM_IDS"

section \<open>The gate\<close>

lemma numbered_Cons:
  assumes "numbered k (f # fs)"
  shows "unat (fr_stream_seq f) = k" "numbered (Suc k) fs" "k + 1 < 2 ^ 64" "fs \<noteq> [] \<Longrightarrow> \<not> frame_terminal f"
proof -
  have "[k..<k + length (f # fs)] = k # [Suc k..<Suc k + length fs]"
    by (subst upt_conv_Cons) simp_all
  then show "unat (fr_stream_seq f) = k" "numbered (Suc k) fs" "k + 1 < 2 ^ 64" "fs \<noteq> [] \<Longrightarrow> \<not> frame_terminal f"
    using assms by (auto simp: numbered_def list_all_iff dest: in_set_butlastD split: if_splits)
qed

lemma accept_in_order:
  assumes inv: "streams_inv origin s" and o: "ss_max_outstanding s = MAX_OUTSTANDING_STREAM_IDS"
    and room: "length (ss_next s) < ss_max_active s"
    and pass: "passable origin s (lane, i) (f # fs)" and q: "fr_stream_seq f = q"
  shows "\<exists>s'. sequences_accept s lane i q = (s', Inr ())"
proof -
  note p = pass [unfolded passable_def, simplified]
  have k: "unat q = next_seq s (lane, i)" "next_seq s (lane, i) + 1 < 2 ^ 64"
    using numbered_Cons(1,3) [of "next_seq s (lane, i)" f fs] p q by simp_all
  show ?thesis
  proof (cases "bt_get (ss_next s) (lane, i)")
    case (Some n)
    then have "q = n" using k(1) by (simp add: next_seq_def word_unat_eq_iff)
    moreover have "checked_add q 1 \<noteq> None"
      using k by (simp add: checked_add_def)
    ultimately show ?thesis
      using Some by (auto simp: sequences_accept_def)
  next
    case None
    then have "q = 0" using k(1) by (simp add: next_seq_def unat_eq_zero)
    obtain s1 st where ls: "lane_state s lane = (s1, st)" by fastforce
    note cs = current_state_lane_state [OF ls]
    have org: "ss_origin s = origin" using inv by (simp add: streams_inv_def)
    have "stream_ordinal origin i \<notin> retired_state st"
      using p cs(1) by (simp add: retired_def)
    moreover have "saturating_sub (stream_ordinal origin i) (ls_retire_cursor st) < ss_max_outstanding s1"
      using p o cs(6) by (simp add: word_less_nat_alt unat_saturating_sub less_imp_diff_less)
    ultimately show ?thesis
      using None ls org room cs \<open>q = 0\<close>
      by (simp add: sequences_accept_def Let_def retired_state_def not_le)
  qed
qed

text \<open>A frame that passes advances its own stream and leaves every other stream as passable as it was.\<close>

lemma gate_in_order:
  assumes inv: "streams_inv origin s" and o: "ss_max_outstanding s = MAX_OUTSTANDING_STREAM_IDS"
    and room: "length (ss_next s) < ss_max_active s"
    and pass: "passable origin s (frame_stream f) (f # fs)"
  obtains s' where "gate_frame origin s f = (s', Inr ())" "streams_inv origin s'"
    "ss_max_outstanding s' = ss_max_outstanding s" "ss_max_active s' = ss_max_active s"
    "passable origin s' (frame_stream f) fs"
    "\<And>st gs. st \<noteq> frame_stream f \<Longrightarrow> passable origin s st gs \<Longrightarrow> passable origin s' st gs"
    "\<And>st. bt_get (ss_next s') st \<noteq> None \<Longrightarrow> st = frame_stream f \<or> bt_get (ss_next s) st \<noteq> None"
proof -
  let ?l = "fr_lane f" and ?i = "fr_stream_id f"
  note p = pass [unfolded passable_def frame_stream_def, simplified]
  have val: "stream_valid origin ?l ?i" using p by simp
  note num = numbered_Cons [of "next_seq s (?l, ?i)" f fs]
  obtain s1 where acc: "sequences_accept s ?l ?i (fr_stream_seq f) = (s1, Inr ())"
    using accept_in_order [OF inv o room pass [unfolded frame_stream_def] refl] by blast
  note a = sequences_accept_ok [OF inv val acc]
  obtain m where m: "ss_next s1 = bt_insert (?l, ?i) m (ss_next s)" "unat m = unat (fr_stream_seq f) + 1"
    using a(3) by blast
  have opn: "bt_get (ss_next s1) (?l, ?i) = Some m" by (simp add: m)
  note c = sequences_close_ok [OF a(1) opn]
  define s' where "s' = (if frame_terminal f then sequences_close s1 ?l ?i else s1)"
  have gate: "gate_frame origin s f = (s', Inr ())"
    using val acc by (simp add: gate_frame_def stream_valid_def s'_def frame_terminal_def)
  have ret: "retired s' l \<subseteq> (if l = ?l then insert (stream_ordinal origin ?i) (retired s l) else retired s l)" for l
    using a(2) c(2) by (auto simp: s'_def split: if_splits)
  have nxt: "bt_get (ss_next s') st = bt_get (ss_next s) st" if "st \<noteq> (?l, ?i)" for st
    using that m(1) c(3) by (simp add: s'_def)
  show thesis
  proof (rule that [OF gate])
    show "streams_inv origin s'" using a(1) c(1) by (simp add: s'_def)
    show "ss_max_outstanding s' = ss_max_outstanding s" "ss_max_active s' = ss_max_active s"
      using config_accept [OF acc] config_close [of s1 ?l ?i] by (simp_all add: s'_def)
    show "passable origin s' (frame_stream f) fs"
    proof (cases "fs = []")
      case False
      then have "s' = s1" using num(4) p by (auto simp: s'_def)
      moreover have "next_seq s1 (?l, ?i) = Suc (next_seq s (?l, ?i))"
        using m num(1) p by (simp add: next_seq_def)
      ultimately show ?thesis
        using num(2) p a(2) by (simp add: passable_def frame_stream_def)
    qed (simp add: passable_def)
    show "passable origin s' st gs" if "st \<noteq> frame_stream f" "passable origin s st gs" for st gs
    proof (cases "gs = []")
      case False
      have st: "st \<noteq> (?l, ?i)" using that(1) by (simp add: frame_stream_def)
      have "next_seq s' st = next_seq s st" using nxt [OF st] by (simp add: next_seq_def)
      moreover have "fst st = ?l \<Longrightarrow> stream_ordinal origin (snd st) \<noteq> stream_ordinal origin ?i"
        using stream_ordinal_inject [OF _ val, of "snd st"] that(2) False st
        by (cases st) (auto simp: passable_def)
      ultimately show ?thesis
        using that(2) False ret [of "fst st"] by (auto simp: passable_def split: if_splits)
    qed (simp add: passable_def)
    show "st = frame_stream f \<or> bt_get (ss_next s) st \<noteq> None" if "bt_get (ss_next s') st \<noteq> None" for st
      using that nxt [of st] by (cases "st = (?l, ?i)") (simp_all add: frame_stream_def)
  qed
qed

section \<open>The receiver\<close>

subsection \<open>What is expected\<close>

definition frame_bytes :: "(bytes \<Rightarrow> digest32) \<Rightarrow> transport_frame \<Rightarrow> bytes" where
  "frame_bytes sha f = (case frame_encode sha f of Inl _ \<Rightarrow> [] | Inr bs \<Rightarrow> bs)"

definition frame_parts :: "(bytes \<Rightarrow> digest32) \<Rightarrow> transport_frame \<Rightarrow> nat" where
  "frame_parts sha f = length (fragments_of sha f)"

definition head_partial :: "(bytes \<Rightarrow> digest32) \<Rightarrow> transport_frame \<Rightarrow> nat \<Rightarrow> u64 \<Rightarrow> partial_frame" where
  "head_partial sha f d t0 = partial_at (fr_lane f) (frame_bytes sha f) (frame_parts sha f) {..<d} t0"

text \<open>
  \<open>plan st\<close> are the frames still to be dispatched on stream \<open>st\<close>, of the first of which \<open>d st\<close> fragments
  have arrived, the first of these at time \<open>t st\<close>.
\<close>

definition plan_ok :: "stream set \<Rightarrow> (stream \<Rightarrow> transport_frame list) \<Rightarrow> bool" where
  "plan_ok streams plan \<longleftrightarrow> finite streams \<and> card streams \<le> 15
     \<and> (\<forall>st. plan st \<noteq> [] \<longrightarrow> st \<in> streams) \<and> (\<forall>st. distinct (plan st))
     \<and> (\<forall>st. \<forall>f \<in> set (plan st). frame_stream f = st \<and> frame_ok f)
     \<and> (\<forall>st st'. \<forall>f \<in> set (plan st). \<forall>g \<in> set (plan st'). fr_frame_id f = fr_frame_id g \<longrightarrow> f = g)"

definition rx_inv ::
    "(bytes \<Rightarrow> digest32) \<Rightarrow> stream set \<Rightarrow> stream_origin \<Rightarrow> (stream \<Rightarrow> transport_frame list) \<Rightarrow> (stream \<Rightarrow> nat)
     \<Rightarrow> (stream \<Rightarrow> u64) \<Rightarrow> reassembler \<Rightarrow> bool" where
  "rx_inv sha streams origin plan d t r \<longleftrightarrow> plan_ok streams plan \<and> ra_inv r \<and> ra_peer_origin r = origin
     \<and> ra_max_frames r = MAX_INCOMPLETE_FRAMES_PER_PEER \<and> ra_max_bytes r = MAX_REASSEMBLY_BYTES_PER_PEER
     \<and> ss_max_outstanding (ra_sequences r) = MAX_OUTSTANDING_STREAM_IDS
     \<and> ss_max_active (ra_sequences r) = MAX_ACTIVE_STREAMS_PER_PEER
     \<and> (\<exists>h. history_ok origin (ra_sequences r) h)
     \<and> (\<forall>st. bt_get (ss_next (ra_sequences r)) st \<noteq> None \<longrightarrow> st \<in> streams)
     \<and> (\<forall>st. passable origin (ra_sequences r) st (plan st))
     \<and> (\<forall>st. \<forall>f \<in> set (plan st). bt_get (ra_completed r) (fr_frame_id f) = None)
     \<and> (\<forall>st. d st \<noteq> 0 \<longrightarrow> plan st \<noteq> [] \<and> d st < frame_parts sha (hd (plan st)))
     \<and> (\<forall>k p. bt_get (ra_partials r) k = Some p \<longleftrightarrow>
          (\<exists>st. d st \<noteq> 0 \<and> k = fr_frame_id (hd (plan st)) \<and> p = head_partial sha (hd (plan st)) (d st) (t st)))"

text \<open>The requests still to arrive, with their times, are those that the plan misses, stream by stream.\<close>

definition arrives ::
    "(bytes \<Rightarrow> digest32) \<Rightarrow> (stream \<Rightarrow> transport_frame list) \<Rightarrow> (stream \<Rightarrow> nat) \<Rightarrow> (send_request \<times> u64) list \<Rightarrow> bool" where
  "arrives sha plan d es \<longleftrightarrow>
     (\<forall>st. sent_on (fst st) (snd st) (map fst es) = drop (d st) (concat (map (fragments_of sha) (plan st))))"

text \<open>
  No fragment arrives \<open>dl\<close> or more after a fragment of a frame of which a fragment is still to come.
\<close>

fun upto_last :: "id16 \<Rightarrow> (id16 \<times> u64) list \<Rightarrow> (id16 \<times> u64) list" where
  "upto_last k [] = []"
| "upto_last k (e # es) = (if k \<in> fst ` set (e # es) then e # upto_last k es else [])"

fun prompt :: "u64 \<Rightarrow> (id16 \<times> u64) list \<Rightarrow> bool" where
  "prompt dl [] \<longleftrightarrow> True"
| "prompt dl (e # es) \<longleftrightarrow> (\<forall>x \<in> set (upto_last (fst e) es). saturating_sub (snd x) (snd e) < dl) \<and> prompt dl es"

definition keyed :: "(send_request \<times> u64) list \<Rightarrow> (id16 \<times> u64) list" where
  "keyed es = map (\<lambda>e. (fg_frame_id (sr_fragment (fst e)), snd e)) es"

definition timely ::
    "u64 \<Rightarrow> (stream \<Rightarrow> transport_frame list) \<Rightarrow> (stream \<Rightarrow> nat) \<Rightarrow> (stream \<Rightarrow> u64) \<Rightarrow> (send_request \<times> u64) list \<Rightarrow> bool" where
  "timely dl plan d t es \<longleftrightarrow> prompt dl (keyed es)
     \<and> (\<forall>st. d st \<noteq> 0 \<longrightarrow>
          (\<forall>x \<in> set (upto_last (fr_frame_id (hd (plan st))) (keyed es)). saturating_sub (snd x) (t st) < dl))"

subsection \<open>One fragment\<close>

lemma fragments_of_ok:
  assumes "frame_ok f"
  shows "frame_encode sha f = Inr (frame_bytes sha f)" "1 \<le> frame_parts sha f" "frame_parts sha f \<le> 9"
    "length (frame_bytes sha f) \<le> frame_parts sha f * 65471"
    "fragments_of sha f = map (fragment_at (fr_lane f) (fr_frame_id f) (frame_bytes sha f) (of_nat (frame_parts sha f)))
       [0..<frame_parts sha f]"
    "length (frame_bytes sha f) \<le> 524360"
proof -
  obtain bs where bs: "frame_encode sha f = Inr bs" using frame_codec.enc_total [OF assms] by blast
  then have b: "frame_bytes sha f = bs" by (simp add: frame_bytes_def)
  obtain n where n: "1 \<le> n" "n \<le> 9" "length bs \<le> n * 65471"
    and eq: "fragment_frame (fr_lane f) (fr_frame_id f) bs = Inr (map (fragment_at (fr_lane f) (fr_frame_id f) bs (of_nat n)) [0..<n])"
    using fragment_frame_eq [OF frame_bytes_bound [OF assms bs]] by metis
  have "fragments_of sha f = map (fragment_at (fr_lane f) (fr_frame_id f) bs (of_nat n)) [0..<n]"
    using bs eq by (simp add: fragments_of_def)
  then show "frame_encode sha f = Inr (frame_bytes sha f)" "1 \<le> frame_parts sha f" "frame_parts sha f \<le> 9"
    "length (frame_bytes sha f) \<le> frame_parts sha f * 65471"
    "fragments_of sha f = map (fragment_at (fr_lane f) (fr_frame_id f) (frame_bytes sha f) (of_nat (frame_parts sha f)))
       [0..<frame_parts sha f]"
    "length (frame_bytes sha f) \<le> 524360"
    using bs b n frame_bytes_bound(2) [OF assms bs] by (simp_all add: frame_parts_def frame_consts lane_consts)
qed

lemma rx_invD:
  assumes "rx_inv sha streams origin plan d t r"
  shows "plan_ok streams plan" "ra_inv r" "ra_peer_origin r = origin"
    "ra_max_frames r = 16" "ra_max_bytes r = 8388608"
    "ss_max_outstanding (ra_sequences r) = MAX_OUTSTANDING_STREAM_IDS" "ss_max_active (ra_sequences r) = 256"
    "bt_get (ss_next (ra_sequences r)) st \<noteq> None \<Longrightarrow> st \<in> streams"
    "passable origin (ra_sequences r) st (plan st)"
    "d st \<noteq> 0 \<Longrightarrow> plan st \<noteq> [] \<and> d st < frame_parts sha (hd (plan st))"
    "bt_get (ra_partials r) k = Some p \<longleftrightarrow>
      (\<exists>st. d st \<noteq> 0 \<and> k = fr_frame_id (hd (plan st)) \<and> p = head_partial sha (hd (plan st)) (d st) (t st))"
    "\<exists>h. history_ok origin (ra_sequences r) h"
  using assms unfolding rx_inv_def MAX_INCOMPLETE_FRAMES_PER_PEER_def MAX_REASSEMBLY_BYTES_PER_PEER_def
    MAX_ACTIVE_STREAMS_PER_PEER_def by auto

lemma plan_member:
  assumes "rx_inv sha streams origin plan d t r" "f \<in> set (plan st)"
  shows "frame_stream f = st" "frame_ok f" "bt_get (ra_completed r) (fr_frame_id f) = None" "st \<in> streams"
proof -
  have ok: "plan_ok streams plan" using assms(1) by (rule rx_invD)
  then show "frame_stream f = st" "frame_ok f" using assms(2) unfolding plan_ok_def by blast+
  show "bt_get (ra_completed r) (fr_frame_id f) = None" using assms unfolding rx_inv_def by blast
  have "plan st \<noteq> []" using assms(2) by auto
  then show "st \<in> streams" using ok unfolding plan_ok_def by blast
qed

lemma plan_ids:
  assumes "plan_ok streams plan" "f \<in> set (plan st)" "g \<in> set (plan st')" "fr_frame_id f = fr_frame_id g"
  shows "f = g \<and> st = st'"
  using assms unfolding plan_ok_def by metis

lemma arrives_Cons:
  assumes inv: "rx_inv sha streams origin plan d t r" and arr: "arrives sha plan d (e # es)"
  defines "st \<equiv> request_stream (fst e)"
  obtains f fs where "plan st = f # fs" "d st < frame_parts sha f" "frame_ok f" "frame_stream f = st"
    "sr_fragment (fst e) = fragment_at (fr_lane f) (fr_frame_id f) (frame_bytes sha f) (of_nat (frame_parts sha f)) (d st)"
    "sent_on (fst st) (snd st) (map fst es) = drop (Suc (d st)) (concat (map (fragments_of sha) (plan st)))"
    "\<And>st'. st' \<noteq> st \<Longrightarrow>
       sent_on (fst st') (snd st') (map fst es) = drop (d st') (concat (map (fragments_of sha) (plan st')))"
proof -
  have hd: "drop (d st) (concat (map (fragments_of sha) (plan st)))
      = sr_fragment (fst e) # sent_on (fst st) (snd st) (map fst es)"
    using arr [unfolded arrives_def, rule_format, of st] by (simp add: st_def request_stream_def sent_on_def)
  have other: "sent_on (fst st') (snd st') (map fst es) = drop (d st') (concat (map (fragments_of sha) (plan st')))"
    if "st' \<noteq> st" for st'
  proof -
    have "\<not> (sr_lane (fst e) = fst st' \<and> sr_stream_id (fst e) = snd st')"
      using that by (cases st') (auto simp: st_def request_stream_def)
    then show ?thesis using arr [unfolded arrives_def, rule_format, of st'] by (auto simp: sent_on_def)
  qed
  obtain f fs where p: "plan st = f # fs" using hd by (cases "plan st") auto
  have f: "frame_ok f" "frame_stream f = st" using plan_member [OF inv, of f st] p by simp_all
  note fo = fragments_of_ok [OF f(1), of sha]
  have d: "d st < frame_parts sha f"
    using rx_invD(10) [OF inv, of st] p fo(2) by (cases "d st = 0") auto
  then have "drop (d st) (concat (map (fragments_of sha) (plan st)))
      = fragments_of sha f ! d st # drop (Suc (d st)) (concat (map (fragments_of sha) (plan st)))"
    using p by (simp add: frame_parts_def Cons_nth_drop_Suc [symmetric])
  then have "sr_fragment (fst e) = fragments_of sha f ! d st"
      "sent_on (fst st) (snd st) (map fst es) = drop (Suc (d st)) (concat (map (fragments_of sha) (plan st)))"
    using hd by simp_all
  then show thesis using that p d f other fo(5) by simp
qed

lemma partial_pending:
  assumes inv: "rx_inv sha streams origin plan d t r" and arr: "arrives sha plan d es" and "d st \<noteq> 0"
  shows "fr_frame_id (hd (plan st)) \<in> fst ` set (keyed es)"
proof -
  have p: "plan st \<noteq> []" "d st < frame_parts sha (hd (plan st))" using rx_invD(10) [OF inv assms(3)] by blast+
  then obtain f fs where f: "plan st = f # fs" by (cases "plan st") auto
  then have ok: "frame_ok f" using plan_member(2) [OF inv, of f st] by simp
  let ?g = "fragments_of sha f ! d st"
  have "?g \<in> set (drop (d st) (concat (map (fragments_of sha) (plan st))))"
    using p f by (simp add: frame_parts_def Cons_nth_drop_Suc [symmetric])
  then have "?g \<in> set (sent_on (fst st) (snd st) (map fst es))" using arr by (simp add: arrives_def)
  then obtain e where "e \<in> set es" "sr_fragment (fst e) = ?g" by (auto simp: sent_on_def)
  moreover have "fg_frame_id ?g = fr_frame_id f"
    using fragments_of_ok(5) [OF ok, of sha] p f by simp
  ultimately show ?thesis using f by (force simp: keyed_def)
qed

text \<open>Nothing expires, so that looking for expired frames changes no partial frame.\<close>

lemma nothing_expires:
  assumes inv: "rx_inv sha streams origin plan d t r" and arr: "arrives sha plan d (e # es)"
    and time: "timely (ra_deadline_ms r) plan d t (e # es)"
  shows "ra_partials (fst (reassembler_expire r (snd e))) = ra_partials r"
    "ra_buffered_bytes (fst (reassembler_expire r (snd e))) = ra_buffered_bytes r"
    "d st \<noteq> 0 \<Longrightarrow> saturating_sub (snd e) (t st) < ra_deadline_ms r"
proof -
  have live: "saturating_sub (snd e) (t st) < ra_deadline_ms r" if "d st \<noteq> 0" for st
  proof -
    have "(fg_frame_id (sr_fragment (fst e)), snd e) \<in> set (upto_last (fr_frame_id (hd (plan st))) (keyed (e # es)))"
      using partial_pending [OF inv arr that] by (simp add: keyed_def)
    with time that show ?thesis unfolding timely_def by fastforce
  qed
  then show "d st \<noteq> 0 \<Longrightarrow> saturating_sub (snd e) (t st) < ra_deadline_ms r" by blast
  have wf: "bt_wf (ra_partials r)" using inv by (simp add: rx_inv_def ra_inv_def)
  have "saturating_sub (snd e) (pf_first_seen_ms (snd x)) < ra_deadline_ms r" if "x \<in> set (ra_partials r)" for x
  proof -
    have "bt_get (ra_partials r) (fst x) = Some (snd x)" using that wf by (simp add: bt_get_eq_Some_iff)
    then obtain st where "d st \<noteq> 0" "snd x = head_partial sha (hd (plan st)) (d st) (t st)"
      using rx_invD(11) [OF inv] by blast
    then show ?thesis using live by (simp add: head_partial_def partial_at_def)
  qed
  then have "filter (\<lambda>x. \<not> ra_deadline_ms r \<le> saturating_sub (snd e) (pf_first_seen_ms (snd x))) (ra_partials r) = ra_partials r"
      "filter (\<lambda>x. ra_deadline_ms r \<le> saturating_sub (snd e) (pf_first_seen_ms (snd x))) (ra_partials r) = []"
    by (simp_all add: filter_id_conv filter_empty_conv not_le)
  then show "ra_partials (fst (reassembler_expire r (snd e))) = ra_partials r"
    "ra_buffered_bytes (fst (reassembler_expire r (snd e))) = ra_buffered_bytes r"
    unfolding reassembler_expire_def Let_def by (simp_all add: bt.total_empty)
qed

subsection \<open>There is room\<close>

lemma bt_total_le:
  assumes "bt_wf m" "\<And>k v. bt_get m k = Some v \<Longrightarrow> f v \<le> b"
  shows "bt_total f m \<le> length m * b"
proof -
  have "\<forall>x \<in> set m. f (snd x) \<le> b"
    using assms bt_get_eq_Some_iff [OF assms(1)] by (metis prod.collapse)
  then have "sum_list (map (\<lambda>x. f (snd x)) m) \<le> sum_list (map (\<lambda>x. b) m)"
    by (intro sum_list_mono) auto
  then show ?thesis by (simp add: bt_total_def sum_list_triv)
qed

lemma bt_length_le:
  assumes "bt_wf m" "finite A" "\<And>k v. bt_get m k = Some v \<Longrightarrow> k \<in> A"
  shows "length m \<le> card A"
proof -
  have "fst ` set m \<subseteq> A"
    using assms(3) bt_get_eq_Some_iff [OF assms(1)] by force
  then have "card (set (map fst m)) \<le> card A" using assms(2) by (simp add: card_mono)
  then show ?thesis using distinct_card [OF bt_wf_distinct [OF assms(1)]] by simp
qed

lemma open_streams:
  assumes inv: "rx_inv sha streams origin plan d t r"
  shows "length (ss_next (ra_sequences r)) < ss_max_active (ra_sequences r)"
proof -
  have "bt_wf (ss_next (ra_sequences r))"
    using rx_invD(2) [OF inv] by (simp add: ra_inv_def streams_inv_def)
  moreover have "finite streams" "card streams \<le> 15"
    using rx_invD(1) [OF inv] by (simp_all add: plan_ok_def)
  ultimately have "length (ss_next (ra_sequences r)) \<le> 15"
    using bt_length_le [of "ss_next (ra_sequences r)" streams] rx_invD(8) [OF inv] by fastforce
  then show ?thesis using rx_invD(7) [OF inv] by simp
qed

lemma other_partials:
  assumes inv: "rx_inv sha streams origin plan d t r" and p: "plan st = f # fs"
  defines "others \<equiv> bt_remove (fr_frame_id f) (ra_partials r)"
  shows "length others \<le> 14" "bt_total pf_buffered_bytes others \<le> 7341040"
proof -
  have ra: "ra_inv r" using rx_invD(2) [OF inv] .
  then have wf: "bt_wf others" by (simp add: others_def ra_inv_def)
  have st: "st \<in> streams" using plan_member(4) [OF inv, of f st] p by simp
  have fin: "finite streams" "card streams \<le> 15" using rx_invD(1) [OF inv] by (simp_all add: plan_ok_def)
  have "k \<in> (\<lambda>st. fr_frame_id (hd (plan st))) ` (streams - {st})" if "bt_get others k = Some v" for k v
  proof -
    have "bt_get (ra_partials r) k = Some v" "k \<noteq> fr_frame_id f"
      using that by (auto simp: others_def split: if_splits)
    then obtain st' where st': "d st' \<noteq> 0" "k = fr_frame_id (hd (plan st'))"
      using rx_invD(11) [OF inv] by blast
    then have "hd (plan st') \<in> set (plan st')" using rx_invD(10) [OF inv, of st'] by simp
    then have "st' \<in> streams" by (rule plan_member(4) [OF inv])
    moreover have "st' \<noteq> st" using st'(2) p \<open>k \<noteq> fr_frame_id f\<close> by auto
    ultimately show ?thesis using st'(2) by blast
  qed
  then have "length others \<le> card ((\<lambda>st. fr_frame_id (hd (plan st))) ` (streams - {st}))"
    using fin(1) by (intro bt_length_le [OF wf]) auto
  also have "\<dots> \<le> card (streams - {st})" using fin(1) by (simp add: card_image_le)
  also have "\<dots> \<le> 14" using fin st by simp
  finally show len: "length others \<le> 14" .
  have "pf_buffered_bytes v \<le> 524360" if "bt_get others k = Some v" for k v
  proof -
    have "partial_ok v" using that ra by (auto simp: others_def ra_inv_def split: if_splits)
    then show ?thesis by (simp add: partial_ok_def frame_consts lane_consts)
  qed
  then have "bt_total pf_buffered_bytes others \<le> length others * 524360"
    by (intro bt_total_le [OF wf]) blast
  then show "bt_total pf_buffered_bytes others \<le> 7341040" using len by linarith
qed

lemma gate_open:
  assumes inv: "rx_inv sha streams origin plan d t r" and p: "plan st = f # fs"
  shows "is_ok (snd (gate_frame (ra_peer_origin r) (ra_sequences r) f))"
proof -
  have "frame_stream f = st" using plan_member(1) [OF inv, of f st] p by simp
  then have pass: "passable origin (ra_sequences r) (frame_stream f) (f # fs)"
    using rx_invD(9) [OF inv, of st] p by simp
  have "streams_inv origin (ra_sequences r)" using rx_invD(2,3) [OF inv] by (auto simp: ra_inv_def)
  from gate_in_order [OF this rx_invD(6) [OF inv] open_streams [OF inv] pass]
  show ?thesis using rx_invD(3) [OF inv] by (metis is_ok.simps(2) snd_conv)
qed

lemma head_ready:
  assumes inv: "rx_inv sha streams origin plan d t r" and p: "plan st = f # fs" and d: "d st = 0"
  shows "ready_for f (frame_bytes sha f) r"
proof -
  have f: "f \<in> set (plan st)" using p by simp
  have "bt_get (ra_partials r) (fr_frame_id f) = None"
  proof (rule ccontr)
    assume "bt_get (ra_partials r) (fr_frame_id f) \<noteq> None"
    then obtain st' where st': "d st' \<noteq> 0" "fr_frame_id f = fr_frame_id (hd (plan st'))"
      using rx_invD(11) [OF inv] by blast
    then have "hd (plan st') \<in> set (plan st')" using rx_invD(10) [OF inv, of st'] by simp
    then have "st = st'" using plan_ids [OF rx_invD(1) [OF inv] f] st'(2) by blast
    with st'(1) d show False by simp
  qed
  moreover from this have "bt_remove (fr_frame_id f) (ra_partials r) = ra_partials r" by (rule bt_remove_absent)
  moreover have "length (frame_bytes sha f) \<le> 524360"
    using fragments_of_ok(6) plan_member(2) [OF inv f] by blast
  ultimately show ?thesis
    using other_partials [OF inv p] rx_invD(2,4,5) [OF inv] gate_open [OF inv p] plan_member(3) [OF inv f]
    by (simp add: ready_for_def ra_inv_def)
qed

lemma head_assembling:
  assumes inv: "rx_inv sha streams origin plan d t r" and p: "plan st = f # fs" and d: "d st \<noteq> 0"
  shows "assembling f (frame_bytes sha f) (frame_parts sha f) {..<d st} (t st) r"
proof -
  have f: "f \<in> set (plan st)" using p by simp
  have get: "bt_get (ra_partials r) (fr_frame_id f) = Some (head_partial sha f (d st) (t st))"
    using rx_invD(11) [OF inv] d p by (metis list.sel(1))
  have ra: "ra_inv r" by (rule rx_invD(2) [OF inv])
  have "pf_buffered_bytes (head_partial sha f (d st) (t st))
      + bt_total pf_buffered_bytes (bt_remove (fr_frame_id f) (ra_partials r)) = ra_buffered_bytes r"
    using bt.total_remove_old [OF _ get, of pf_buffered_bytes] ra by (simp add: ra_inv_def)
  moreover have "pf_buffered_bytes (head_partial sha f (d st) (t st))
      = slot_bytes (slots_at (frame_bytes sha f) (frame_parts sha f) {..<d st})"
    by (simp add: head_partial_def partial_at_def)
  moreover have "length (frame_bytes sha f) \<le> 524360"
    using fragments_of_ok(6) plan_member(2) [OF inv f] by blast
  ultimately have "ra_buffered_bytes r
      + (length (frame_bytes sha f) - slot_bytes (slots_at (frame_bytes sha f) (frame_parts sha f) {..<d st})) \<le> 8388608"
    using other_partials(2) [OF inv p] slots_at_bytes [of "frame_bytes sha f" "frame_parts sha f" "{..<d st}"] by linarith
  then show ?thesis
    using ra rx_invD(5) [OF inv] get gate_open [OF inv p] plan_member(3) [OF inv f]
    by (simp add: assembling_def head_partial_def del: add_diff_assoc)
qed

text \<open>The reassembler as it stands when it stores the fragment: the frame's partial is there.\<close>

lemma accept_stores:
  assumes inv: "rx_inv sha streams origin plan d t r" and arr: "arrives sha plan d (e # es)"
    and time: "timely (ra_deadline_ms r) plan d t (e # es)"
    and p: "plan st = f # fs" and i: "d st < frame_parts sha f"
    and g: "sr_fragment (fst e) = fragment_at (fr_lane f) (fr_frame_id f) (frame_bytes sha f) (of_nat (frame_parts sha f)) (d st)"
  obtains r1 is_new t0 where
    "assembling f (frame_bytes sha f) (frame_parts sha f) {..<d st} t0 r1"
    "reassembler_accept iter sha r (sr_fragment (fst e)) (snd e)
       = reassembler_store iter sha r1 is_new (head_partial sha f (d st) t0) (sr_fragment (fst e)) (snd e)"
    "d st = 0 \<Longrightarrow> t0 = snd e" "d st \<noteq> 0 \<Longrightarrow> t0 = t st"
    "\<And>k. bt_get (ra_partials r1) k = (if k = fr_frame_id f then Some (head_partial sha f (d st) t0) else bt_get (ra_partials r) k)"
    "\<And>k. bt_get (ra_completed r) k = None \<Longrightarrow> bt_get (ra_completed r1) k = None"
    "ra_sequences r1 = ra_sequences r" "same_config r r1"
proof -
  let ?r = "fst (reassembler_expire r (snd e))"
  have ok: "frame_ok f" using plan_member(2) [OF inv, of f st] p by simp
  note n = fragments_of_ok(3) [OF ok, of sha]
  note quiet = nothing_expires [OF inv arr time]
  have cmp: "bt_get (ra_completed r) k = None \<Longrightarrow> bt_get (ra_completed ?r) k = None" for k
    by (auto simp: reassembler_expire_def Let_def bt_get_None_iff)
  show thesis
  proof (cases "d st = 0")
    case True
    note ready = head_ready [OF inv p True]
    let ?o = "opened f (frame_bytes sha f) (frame_parts sha f) (snd e) r"
    show thesis
    proof (rule that [of "snd e" ?o True])
      show "assembling f (frame_bytes sha f) (frame_parts sha f) {..<d st} (snd e) ?o"
        using opened_assembling [OF ready n] True by simp
      show "reassembler_accept iter sha r (sr_fragment (fst e)) (snd e)
         = reassembler_store iter sha ?o True (head_partial sha f (d st) (snd e)) (sr_fragment (fst e)) (snd e)"
        using accept_opens [OF ready i n, of iter sha "snd e"] True by (simp add: g head_partial_def)
    qed (use True quiet cmp expire_fields [of r "snd e"] in
        \<open>simp_all add: opened_def Let_def head_partial_def same_config_def\<close>)
  next
    case False
    note a = head_assembling [OF inv p False]
    have live: "saturating_sub (snd e) (t st) < ra_deadline_ms r" by (rule quiet(3) [OF False])
    note ax = assembling_expire [OF a live]
    show thesis
    proof (rule that [of "t st" ?r False])
      show "assembling f (frame_bytes sha f) (frame_parts sha f) {..<d st} (t st) ?r" by (rule ax)
      show "reassembler_accept iter sha r (sr_fragment (fst e)) (snd e)
         = reassembler_store iter sha ?r False (head_partial sha f (d st) (t st)) (sr_fragment (fst e)) (snd e)"
        using accept_as_store [OF a i n live, of iter sha] by (simp add: g head_partial_def)
      show "bt_get (ra_partials ?r) k
          = (if k = fr_frame_id f then Some (head_partial sha f (d st) (t st)) else bt_get (ra_partials r) k)" for k
        using ax quiet(1) by (simp add: assembling_def head_partial_def)
    qed (use False cmp expire_fields [of r "snd e"] in simp_all)
  qed
qed

subsection \<open>Every fragment is taken\<close>

lemma upto_last_Cons: "set (upto_last k es) \<subseteq> set (upto_last k (e # es))"
  by (cases es) auto

lemma timely_tail:
  assumes "timely dl plan d t (e # es)"
    and "\<And>st'. st' \<noteq> st \<Longrightarrow> d' st' = d st' \<and> t' st' = t st' \<and> plan' st' = plan st'"
    and "d' st \<noteq> 0 \<Longrightarrow> plan' st = plan st \<and> fg_frame_id (sr_fragment (fst e)) = fr_frame_id (hd (plan st))
      \<and> (if d st = 0 then t' st = snd e else t' st = t st)"
  shows "timely dl plan' d' t' es"
proof -
  have pr: "\<forall>x \<in> set (upto_last (fg_frame_id (sr_fragment (fst e))) (keyed es)). saturating_sub (snd x) (snd e) < dl"
      "prompt dl (keyed es)"
    using assms(1) by (simp_all add: timely_def keyed_def)
  have old: "\<forall>x \<in> set (upto_last (fr_frame_id (hd (plan st'))) (keyed es)). saturating_sub (snd x) (t st') < dl"
    if "d st' \<noteq> 0" for st'
    using assms(1) that upto_last_Cons [of _ "keyed es" "(fg_frame_id (sr_fragment (fst e)), snd e)"]
    unfolding timely_def by (fastforce simp: keyed_def)
  have "\<forall>x \<in> set (upto_last (fr_frame_id (hd (plan' st'))) (keyed es)). saturating_sub (snd x) (t' st') < dl"
    if "d' st' \<noteq> 0" for st'
  proof (cases "st' = st")
    case True
    then show ?thesis using assms(3) that pr(1) old [of st] by (cases "d st = 0") auto
  next
    case False
    then show ?thesis using assms(2) that old [of st'] by simp
  qed
  with pr(2) show ?thesis by (simp add: timely_def)
qed

lemma arrives_tail:
  assumes "sent_on (fst st) (snd st) (map fst es) = drop (d' st) (concat (map (fragments_of sha) (plan' st)))"
    and "\<And>st'. st' \<noteq> st \<Longrightarrow>
      sent_on (fst st') (snd st') (map fst es) = drop (d st') (concat (map (fragments_of sha) (plan st')))"
    and "\<And>st'. st' \<noteq> st \<Longrightarrow> d' st' = d st' \<and> plan' st' = plan st'"
  shows "arrives sha plan' d' es"
  unfolding arrives_def using assms by metis

lemma ex_only: "(\<And>x. P x \<Longrightarrow> x = a) \<Longrightarrow> (\<exists>x. P x) \<longleftrightarrow> P a"
  by blast

text \<open>The partial frames after a change on one stream.\<close>

lemma partials_update:
  assumes "plan_ok streams plan" "plan st = f # fs"
    and parts: "\<And>k p. bt_get m k = Some p \<longleftrightarrow>
      (\<exists>st. d st \<noteq> 0 \<and> k = fr_frame_id (hd (plan st)) \<and> p = head_partial sha (hd (plan st)) (d st) (t st))"
    and heads: "\<And>st. d st \<noteq> 0 \<Longrightarrow> plan st \<noteq> []"
  shows "(if k = fr_frame_id f then (if n = 0 then None else Some (head_partial sha f n t0)) else bt_get m k) = Some p
    \<longleftrightarrow> (\<exists>st'. (d(st := n)) st' \<noteq> 0 \<and> k = fr_frame_id (hd ((plan(st := (if n = 0 then fs else f # fs))) st'))
          \<and> p = head_partial sha (hd ((plan(st := (if n = 0 then fs else f # fs))) st')) ((d(st := n)) st') ((t(st := t0)) st'))" (is "_ \<longleftrightarrow> ?R")
proof -
  have other: "fr_frame_id (hd (plan st')) \<noteq> fr_frame_id f" if "st' \<noteq> st" "d st' \<noteq> 0" for st'
    using plan_ids [OF assms(1), of "hd (plan st')" st' f st] heads [OF that(2)] that(1) assms(2) by auto
  show ?thesis
  proof (cases "k = fr_frame_id f")
    case True
    have "st' = st" if "(d(st := n)) st' \<noteq> 0" "k = fr_frame_id (hd ((plan(st := (if n = 0 then fs else f # fs))) st'))" for st'
      using other [of st'] that True by (cases "st' = st") simp_all
    then have "?R \<longleftrightarrow> (d(st := n)) st \<noteq> 0 \<and> k = fr_frame_id (hd ((plan(st := (if n = 0 then fs else f # fs))) st))
        \<and> p = head_partial sha (hd ((plan(st := (if n = 0 then fs else f # fs))) st)) ((d(st := n)) st) ((t(st := t0)) st)"
      by (intro ex_only) blast
    then show ?thesis using True by (simp split: if_split) blast
  next
    case False
    have "((d(st := n)) st' \<noteq> 0 \<and> k = fr_frame_id (hd ((plan(st := (if n = 0 then fs else f # fs))) st'))
          \<and> p = head_partial sha (hd ((plan(st := (if n = 0 then fs else f # fs))) st')) ((d(st := n)) st') ((t(st := t0)) st'))
        \<longleftrightarrow> (d st' \<noteq> 0 \<and> k = fr_frame_id (hd (plan st')) \<and> p = head_partial sha (hd (plan st')) (d st') (t st'))" for st'
      by (cases "st' = st") (use False assms(2) in simp_all)
    then show ?thesis using parts False by simp
  qed
qed

lemma remember_completed_get:
  "k \<noteq> key \<Longrightarrow> bt_get (ra_completed r) k = None \<Longrightarrow> bt_get (ra_completed (remember_completed iter r key c)) k = None"
  by (auto simp: remember_completed_def Let_def split: option.splits)

lemma rx_invI:
  assumes "rx_inv sha streams origin plan d t r" "plan st = f # fs"
    and "plan' = plan(st := (if n = 0 then fs else f # fs))" "d' = d(st := n)" "t' = t(st := t0)" "n < frame_parts sha f"
    and "ra_inv r'" "same_config r r'" "history_ok origin (ra_sequences r') h"
    and "ss_max_outstanding (ra_sequences r') = ss_max_outstanding (ra_sequences r)"
    and "ss_max_active (ra_sequences r') = ss_max_active (ra_sequences r)"
    and "\<And>st'. bt_get (ss_next (ra_sequences r')) st' \<noteq> None \<Longrightarrow> st' = st \<or> bt_get (ss_next (ra_sequences r)) st' \<noteq> None"
    and "\<And>st'. passable origin (ra_sequences r') st' (plan' st')"
    and "\<And>k. (n \<noteq> 0 \<or> k \<noteq> fr_frame_id f) \<Longrightarrow> bt_get (ra_completed r) k = None \<Longrightarrow> bt_get (ra_completed r') k = None"
    and "\<And>k. bt_get (ra_partials r') k
      = (if k = fr_frame_id f then (if n = 0 then None else Some (head_partial sha f n t0)) else bt_get (ra_partials r) k)"
  shows "rx_inv sha streams origin plan' d' t' r'"
proof -
  note inv = assms(1)
  have ok: "plan_ok streams plan" by (rule rx_invD(1) [OF inv])
  have dist: "distinct (plan st')" for st' using ok unfolding plan_ok_def by blast
  have sub: "set (plan' st') \<subseteq> set (plan st')" "distinct (plan' st')" for st'
    using assms(2) dist [of st] dist [of st'] by (cases "st' = st"; auto simp: assms(3))+
  have "plan_ok streams plan'"
    unfolding plan_ok_def
  proof (intro conjI allI ballI impI)
    show "finite streams" "card streams \<le> 15" using ok by (simp_all add: plan_ok_def)
    show "st' \<in> streams" if "plan' st' \<noteq> []" for st'
      by (rule plan_member(4) [OF inv, of "hd (plan' st')"]) (rule subsetD [OF sub(1) hd_in_set [OF that]])
    show "frame_stream f = st'" "frame_ok f" if "f \<in> set (plan' st')" for st' f
      using sub(1) [of st'] that plan_member(1,2) [OF inv, of f st'] by blast+
    show "f = g" if "f \<in> set (plan' st')" "g \<in> set (plan' st'')" "fr_frame_id f = fr_frame_id g" for st' st'' f g
      using sub(1) that plan_ids [OF ok] by blast
  qed (rule sub)
  moreover have "bt_get (ra_completed r') (fr_frame_id g) = None" if g: "g \<in> set (plan' st')" for st' g
  proof -
    have f: "f \<in> set (plan st)" and g': "g \<in> set (plan st')" using assms(2) g sub(1) [of st'] by auto
    have "n \<noteq> 0 \<or> fr_frame_id g \<noteq> fr_frame_id f"
    proof (rule ccontr)
      assume "\<not> (n \<noteq> 0 \<or> fr_frame_id g \<noteq> fr_frame_id f)"
      then have "g = f" "st' = st" "n = 0" using plan_ids [OF ok g' f] by simp_all
      moreover have "f \<notin> set fs" using dist [of st] assms(2) by simp
      ultimately show False using g assms(3) by simp
    qed
    then show ?thesis using assms(14) plan_member(3) [OF inv g'] by blast
  qed
  moreover have "plan' st' \<noteq> [] \<and> d' st' < frame_parts sha (hd (plan' st'))" if "d' st' \<noteq> 0" for st'
    using that rx_invD(10) [OF inv, of st'] assms(6) by (cases "st' = st") (simp_all add: assms(3,4))
  moreover have "bt_get (ra_partials r') k = Some p \<longleftrightarrow>
      (\<exists>st. d' st \<noteq> 0 \<and> k = fr_frame_id (hd (plan' st)) \<and> p = head_partial sha (hd (plan' st)) (d' st) (t' st))" for k p
    unfolding assms(3,4,5,15)
    by (rule partials_update [OF ok assms(2) rx_invD(11) [OF inv]]) (use rx_invD(10) [OF inv] in blast)
  moreover have "st' \<in> streams" if "bt_get (ss_next (ra_sequences r')) st' \<noteq> None" for st'
    using assms(12) [OF that] rx_invD(8) [OF inv, of st'] plan_member(4) [OF inv, of f st] assms(2) by auto
  moreover have "ra_peer_origin r' = origin" "ra_max_frames r' = MAX_INCOMPLETE_FRAMES_PER_PEER"
      "ra_max_bytes r' = MAX_REASSEMBLY_BYTES_PER_PEER" "ss_max_outstanding (ra_sequences r') = MAX_OUTSTANDING_STREAM_IDS"
      "ss_max_active (ra_sequences r') = MAX_ACTIVE_STREAMS_PER_PEER"
    using inv assms(8,10,11) unfolding rx_inv_def same_config_def by simp_all
  ultimately show ?thesis
    unfolding rx_inv_def using assms(7,9,13) by blast
qed

text \<open>A fragment that leaves its frame incomplete, and the last one of a frame.\<close>

lemma rx_progress:
  assumes inv: "rx_inv sha streams origin plan d t r" and p: "plan st = f # fs" and i: "Suc (d st) < frame_parts sha f"
    and a: "assembling f (frame_bytes sha f) (frame_parts sha f) {..<d st} t0 r1"
    and store: "reassembler_store iter sha r1 is_new (head_partial sha f (d st) t0)
      (fragment_at (fr_lane f) (fr_frame_id f) (frame_bytes sha f) (of_nat (frame_parts sha f)) (d st)) now = (r', res)"
    and part: "\<And>k. bt_get (ra_partials r1) k = (if k = fr_frame_id f then Some (head_partial sha f (d st) t0) else bt_get (ra_partials r) k)"
    and comp: "\<And>k. bt_get (ra_completed r) k = None \<Longrightarrow> bt_get (ra_completed r1) k = None"
    and seq: "ra_sequences r1 = ra_sequences r"
    and kept: "ra_inv r'" "same_config r r'" "history_ok origin (ra_sequences r') h"
  shows "res = Inr None" "rx_inv sha streams origin plan (d(st := Suc (d st))) (t(st := t0)) r'"
proof -
  have f: "frame_ok f" using plan_member(2) [OF inv, of f st] p by simp
  note fo = fragments_of_ok [OF f, of sha]
  have ins: "insert (d st) {..<d st} = {..<Suc (d st)}" by auto
  then have "\<not> {..<frame_parts sha f} \<subseteq> insert (d st) {..<d st}" using i by auto
  then have r': "r' = with_fragment f (frame_bytes sha f) (frame_parts sha f) {..<d st} t0 (d st) r1" "res = Inr None"
    using store store_fresh(1) [OF a _ _ fo(3) frame_bytes_bound(2) [OF f fo(1)], of "d st" iter sha is_new now] i
    by (simp_all add: head_partial_def)
  show "res = Inr None" by (rule r')
  show "rx_inv sha streams origin plan (d(st := Suc (d st))) (t(st := t0)) r'"
    by (rule rx_invI [OF inv p _ refl refl i kept])
      (use p part comp seq rx_invD(9) [OF inv] in
        \<open>auto simp: r' with_fragment_def head_partial_def ins fun_upd_idem\<close>)
qed

lemma rx_finish:
  assumes inv: "rx_inv sha streams origin plan d t r" and p: "plan st = f # fs" and n: "frame_parts sha f = Suc (d st)"
    and a: "assembling f (frame_bytes sha f) (frame_parts sha f) {..<d st} t0 r1"
    and store: "reassembler_store iter sha r1 is_new (head_partial sha f (d st) t0)
      (fragment_at (fr_lane f) (fr_frame_id f) (frame_bytes sha f) (of_nat (frame_parts sha f)) (d st)) now = (r', res)"
    and part: "\<And>k. bt_get (ra_partials r1) k = (if k = fr_frame_id f then Some (head_partial sha f (d st) t0) else bt_get (ra_partials r) k)"
    and comp: "\<And>k. bt_get (ra_completed r) k = None \<Longrightarrow> bt_get (ra_completed r1) k = None"
    and seq: "ra_sequences r1 = ra_sequences r" and conf: "same_config r r1"
    and kept: "ra_inv r'" "same_config r r'" "history_ok origin (ra_sequences r') h"
  shows "res = Inr (Some f) \<and> rx_inv sha streams origin (plan(st := fs)) (d(st := 0)) t r'"
proof -
  have f: "frame_ok f" "frame_stream f = st" using plan_member(1,2) [OF inv, of f st] p by simp_all
  note fo = fragments_of_ok [OF f(1), of sha]
  have ins: "insert (d st) {..<d st} = {..<Suc (d st)}" by auto
  have str: "streams_inv origin (ra_sequences r)" using rx_invD(2,3) [OF inv] by (auto simp: ra_inv_def)
  have pass: "passable origin (ra_sequences r) (frame_stream f) (f # fs)"
    using rx_invD(9) [OF inv, of st] p f(2) by simp
  show ?thesis
  proof (rule gate_in_order [OF str rx_invD(6) [OF inv] open_streams [OF inv] pass], goal_cases)
    case (1 s')
    note gate = 1
    have "ra_peer_origin r1 = origin" using conf rx_invD(3) [OF inv] by (simp add: same_config_def)
    with gate(1) seq have "gate_frame (ra_peer_origin r1) (ra_sequences r1) f = (s', Inr ())" by simp
    from store_finish_state [OF a _ _ fo(3,4) f(1) fo(1) _ this, of "d st" iter is_new now] store n
    have r': "r' = with_frame iter f (frame_bytes sha f) (slot_bytes (slots_at (frame_bytes sha f) (frame_parts sha f) (insert (d st) {..<d st})))
        now s' (with_fragment f (frame_bytes sha f) (frame_parts sha f) {..<d st} t0 (d st) r1)" "res = Inr (Some f)"
      by (simp_all add: ins head_partial_def)
    have fields: "ra_sequences r' = s'" "ra_partials r' = bt_remove (fr_frame_id f) (bt_insert (fr_frame_id f)
        (partial_at (fr_lane f) (frame_bytes sha f) (frame_parts sha f) (insert (d st) {..<d st}) t0) (ra_partials r1))"
      by (simp_all add: r' with_frame_def with_fragment_def)
    have comp': "bt_get (ra_completed r') k = None" if "k \<noteq> fr_frame_id f" "bt_get (ra_completed r) k = None" for k
      unfolding r' with_frame_def by (rule remember_completed_get) (use that comp in \<open>simp_all add: with_fragment_def\<close>)
    have "rx_inv sha streams origin (plan(st := fs)) (d(st := 0)) t r'"
    proof (rule rx_invI [OF inv p, where n = 0 and ?t0.0 = "t st"])
      show "0 < frame_parts sha f" using n by simp
      show "passable origin (ra_sequences r') st' ((plan(st := fs)) st')" for st'
        using gate(5) gate(6) [of st'] rx_invD(9) [OF inv, of st'] f(2) by (cases "st' = st") (simp_all add: fields)
    qed (use kept gate(3,4,7) f(2) comp' part in \<open>auto simp: fields\<close>)
    with r'(2) show ?case by simp
  qed
qed

lemma rx_step:
  assumes inv: "rx_inv sha streams origin plan d t r" and arr: "arrives sha plan d (e # es)"
    and time: "timely (ra_deadline_ms r) plan d t (e # es)"
  obtains r' res plan' d' t' where "reassembler_accept iter sha r (sr_fragment (fst e)) (snd e) = (r', res)"
    "rx_inv sha streams origin plan' d' t' r'" "arrives sha plan' d' es" "timely (ra_deadline_ms r) plan' d' t' es"
    "ra_deadline_ms r' = ra_deadline_ms r" "\<And>st. plan st = filter (\<lambda>f. frame_stream f = st) (dispatched res) @ plan' st"
proof -
  obtain h where hist: "history_ok (ra_peer_origin r) (ra_sequences r) h" using rx_invD(3,12) [OF inv] by auto
  obtain r' res where acc: "reassembler_accept iter sha r (sr_fragment (fst e)) (snd e) = (r', res)" by fastforce
  have kept: "ra_inv r'" "same_config r r'" "history_ok origin (ra_sequences r') (h @ dispatched res)"
    using accept_keeps [OF rx_invD(2) [OF inv] hist, of iter sha "sr_fragment (fst e)" "snd e"] acc rx_invD(3) [OF inv]
    by simp_all
  define st where "st = request_stream (fst e)"
  show thesis
  proof (rule arrives_Cons [OF inv arr, folded st_def], goal_cases)
    case (1 f fs)
    note p = 1(1) and i = 1(2) and f = 1(4) and g = 1(5) and sent = 1(6) and others = 1(7)
    show thesis
    proof (rule accept_stores [OF inv arr time p i g, of iter], goal_cases)
      case (1 r1 is_new t0)
      note store = 1(2) [symmetric, unfolded acc, unfolded g]
      have t0: "fg_frame_id (sr_fragment (fst e)) = fr_frame_id (hd (plan st)) \<and> (if d st = 0 then t0 = snd e else t0 = t st)"
        using 1(3,4) p g by simp
      have dl: "ra_deadline_ms r' = ra_deadline_ms r" using kept(2) by (simp add: same_config_def)
      show thesis
      proof (cases "Suc (d st) < frame_parts sha f")
        case True
        note step = rx_progress [OF inv p True 1(1) store 1(5-7) kept]
        have "arrives sha plan (d(st := Suc (d st))) es"
          by (rule arrives_tail [of st]) (use sent others in simp_all)
        moreover have "timely (ra_deadline_ms r) plan (d(st := Suc (d st))) (t(st := t0)) es"
          by (rule timely_tail [OF time, of st]) (use t0 in simp_all)
        ultimately show thesis using that [OF acc step(2) _ _ dl] step(1) by simp
      next
        case False
        then have n: "frame_parts sha f = Suc (d st)" using i by simp
        note step = rx_finish [OF inv p n 1(1) store 1(5-8) kept]
        have "plan st' = filter (\<lambda>f. frame_stream f = st') (dispatched res) @ (plan(st := fs)) st'" for st'
          using step p f by (cases "st' = st") auto
        moreover have "arrives sha (plan(st := fs)) (d(st := 0)) es"
          by (rule arrives_tail [of st]) (use sent others p n in \<open>simp_all add: frame_parts_def\<close>)
        moreover have "timely (ra_deadline_ms r) (plan(st := fs)) (d(st := 0)) t es"
          by (rule timely_tail [OF time, of st]) simp_all
        ultimately show thesis using that [OF acc conjunct2 [OF step] _ _ dl] by blast
      qed
    qed
  qed
qed

subsection \<open>Every stream arrives\<close>

lemma arrives_Nil:
  assumes inv: "rx_inv sha streams origin plan d t r" and arr: "arrives sha plan d []"
  shows "plan st = []"
proof (cases "plan st")
  case (Cons f fs)
  then have f: "frame_ok f" using plan_member(2) [OF inv, of f st] by simp
  have "d st < frame_parts sha f"
    using rx_invD(10) [OF inv, of st] Cons fragments_of_ok(2) [OF f, of sha] by (cases "d st = 0") auto
  moreover have "drop (d st) (concat (map (fragments_of sha) (plan st))) = []"
    using arr [unfolded arrives_def, rule_format, of st] by (simp add: sent_on_def)
  ultimately show ?thesis using Cons by (simp add: frame_parts_def)
qed

lemma rx_run:
  assumes "rx_inv sha streams origin plan d t r" "arrives sha plan d es" "timely (ra_deadline_ms r) plan d t es"
  shows "filter (\<lambda>f. frame_stream f = st)
    (snd (reassembler_run iter sha r (map (\<lambda>e. (sr_fragment (fst e), snd e)) es))) = plan st"
  using assms
proof (induction es arbitrary: plan d t r)
  case Nil
  then show ?case using arrives_Nil [OF Nil.prems(1,2), of st] by simp
next
  case (Cons e es)
  show ?case
  proof (rule rx_step [OF Cons.prems, of iter], goal_cases)
    case (1 r' res plan' d' t')
    have "filter (\<lambda>f. frame_stream f = st)
        (snd (reassembler_run iter sha r' (map (\<lambda>e. (sr_fragment (fst e), snd e)) es))) = plan' st"
      by (rule Cons.IH [OF 1(2,3)]) (use 1(4,5) in simp)
    then show ?case using 1(1) 1(6) [of st] by (auto split: prod.splits)
  qed
qed

section \<open>The whole path\<close>

text \<open>Frames a sender may hand over: well formed, with fresh ids, numbered per stream, on few streams.\<close>

definition sendable :: "stream_origin \<Rightarrow> transport_frame list \<Rightarrow> bool" where
  "sendable origin fs \<longleftrightarrow> list_all frame_ok fs \<and> distinct (map fr_frame_id fs) \<and> card (set (map frame_stream fs)) \<le> 15
     \<and> list_all (\<lambda>f. stream_valid origin (fr_lane f) (fr_stream_id f)
          \<and> unat (stream_ordinal origin (fr_stream_id f)) < unat MAX_OUTSTANDING_STREAM_IDS
          \<and> numbered 0 (on_stream (fr_lane f) (fr_stream_id f) fs)) fs"

lemma on_stream_filter: "on_stream lane i fs = filter (\<lambda>f. frame_stream f = (lane, i)) fs"
  by (simp add: on_stream_def frame_stream_def)

lemma valid_not_retired:
  assumes "stream_valid origin lane i"
  shows "stream_ordinal origin i \<notin> retired (sequences_new origin) lane"
proof (cases "lane = Lane_Control")
  case True
  then show ?thesis
    by (simp add: retired_def retired_state_def current_state_def sequences_new_def)
next
  case False
  then have i: "i \<noteq> 0" "case origin of Origin_Client \<Rightarrow> unat i mod 2 = 0 | Origin_Daemon \<Rightarrow> unat i mod 2 = 1"
    using stream_valid_parity [OF assms] by auto
  then have "unat i \<noteq> 0" by (simp add: unat_eq_zero)
  then have "1 \<le> unat (stream_ordinal origin i)"
    using i(2) by (auto simp: unat_stream_ordinal split: stream_origin.splits)
  moreover have "first_legal_ordinal lane = 1" using False by (cases lane) simp_all
  ultimately show ?thesis
    by (simp add: retired_def retired_state_def current_state_def sequences_new_def word_less_nat_alt)
qed

lemma rx_inv_new:
  assumes "sendable origin fs"
  shows "rx_inv sha (set (map frame_stream fs)) origin (\<lambda>st. on_stream (fst st) (snd st) fs) (\<lambda>_. 0) t (reassembler_new origin)"
proof -
  let ?plan = "\<lambda>st. on_stream (fst st) (snd st) fs"
  have sub: "f \<in> set (?plan st) \<longleftrightarrow> f \<in> set fs \<and> frame_stream f = st" for f st
    by (auto simp: on_stream_filter)
  have dist: "distinct (map fr_frame_id fs)" and ok: "list_all frame_ok fs" and few: "card (set (map frame_stream fs)) \<le> 15"
    using assms by (simp_all add: sendable_def)
  have "plan_ok (set (map frame_stream fs)) ?plan"
    unfolding plan_ok_def
  proof (intro conjI allI ballI impI)
    show "card (set (map frame_stream fs)) \<le> 15" by (rule few)
    show "st \<in> set (map frame_stream fs)" if "?plan st \<noteq> []" for st
      using sub [of "hd (?plan st)" st] hd_in_set [OF that] by (metis image_eqI set_map)
    show "distinct (?plan st)" for st
      using dist by (simp add: on_stream_def distinct_map)
    show "frame_stream f = st" "frame_ok f" if "f \<in> set (?plan st)" for st f
      using that ok unfolding sub list_all_iff by blast+
    show "f = g" if "f \<in> set (?plan st)" "g \<in> set (?plan st')" "fr_frame_id f = fr_frame_id g" for st st' f g
      using that dist unfolding sub by (auto simp: distinct_map dest: inj_onD)
  qed simp
  moreover have "passable origin (sequences_new origin) st (?plan st)" for st
  proof (cases "?plan st = []")
    case False
    then have "hd (?plan st) \<in> set fs" "frame_stream (hd (?plan st)) = st"
      using sub [of "hd (?plan st)" st] hd_in_set [OF False] by simp_all
    then have "stream_valid origin (fst st) (snd st)" "unat (stream_ordinal origin (snd st)) < unat MAX_OUTSTANDING_STREAM_IDS"
        "numbered 0 (?plan st)"
      using assms unfolding sendable_def list_all_iff frame_stream_def by (metis fst_conv snd_conv)+
    moreover have "next_seq (sequences_new origin) st = 0" by (simp add: next_seq_def sequences_new_def)
    ultimately show ?thesis
      using valid_not_retired by (simp add: passable_def)
  qed (simp add: passable_def)
  ultimately show ?thesis
    using ra_inv_new [of origin] ra_history_new [of origin]
    unfolding rx_inv_def by (auto simp: reassembler_new_def sequences_new_def)
qed

text \<open>The sender's side.\<close>

lemma sched_turns_inv:
  assumes "sc_inv s" "sched_turns sha s ts = (s', admitted, sent)"
  shows "sc_inv s'"
  using assms
proof (induction ts arbitrary: s admitted sent)
  case (Cons u ts)
  show ?case
  proof (cases u)
    case (Turn_Queue f)
    obtain s1 out where e: "enqueue sha s f = (s1, out)" by fastforce
    have "sc_inv s1" using enqueue_ok(1) [OF Cons.prems(1)] enqueue_refused [OF e] Cons.prems(1) e by (cases "out = Enqueued") auto
    then show ?thesis using Cons Turn_Queue e by (auto split: prod.splits)
  next
    case (Turn_Send taken)
    obtain s1 q where nf: "next_fragment s = (s1, q)" by fastforce
    have "sc_inv s1" using Cons.prems(1) nf by (rule next_inv)
    then show ?thesis
      using Cons Turn_Send nf Cons.IH [OF requeue_inv [of s1]] by (auto split: prod.splits option.splits if_splits)
  next
    case (Turn_Writable l b)
    then show ?thesis using Cons.IH [OF writable_inv [OF Cons.prems(1)]] Cons.prems(2) by simp
  qed
qed simp

lemma drained_waiting:
  assumes "sc_inv s" "\<not> has_pending s"
  shows "waiting s lane i = []"
proof -
  have "lq_order (sc_lanes s lane) = []"
    using assms(2) by (cases lane) (auto simp: has_pending_def lane_ALL_def)
  moreover have "lq_inv (sc_lanes s lane)" using assms(1) by (simp add: sc_inv_def)
  ultimately show ?thesis by (auto simp: lq_inv_def waiting_def)
qed

lemma sent_all:
  assumes "sched_turns sha (scheduler_new limits) turns = (s, admitted, sent)" "\<not> has_pending s"
  shows "sent_on lane i sent = queued_on sha lane i admitted"
proof -
  have "waiting (scheduler_new limits) lane i = []"
    by (simp add: waiting_def content_def scheduler_new_def)
  then show ?thesis
    using sched_turns_order [OF sc_inv_new assms(1), of lane i]
      drained_waiting [OF sched_turns_inv [OF sc_inv_new assms(1)] assms(2), of lane i] by simp
qed

lemma fragments_of_fragment_ok:
  assumes "frame_ok f" "g \<in> set (fragments_of sha f)"
  shows "fragment_ok g"
proof -
  note fo = fragments_of_ok [OF assms(1), of sha]
  obtain j where j: "j < frame_parts sha f"
    and g: "g = fragment_at (fr_lane f) (fr_frame_id f) (frame_bytes sha f) (of_nat (frame_parts sha f)) j"
    using assms(2) fo(5) by auto
  have "fragment_flags_from_bits (fg_flags g) \<noteq> None"
    by (simp add: g fragment_at_def Let_def fragment_flags_from_bits_def FRAGMENT_END_def)
  then show ?thesis
    using fragment_at_shape [OF j fo(3)] assms(1) by (simp add: fragment_ok_def g frame_ok_def)
qed

lemma sent_fragments_ok:
  assumes "sched_turns sha (scheduler_new limits) turns = (s, admitted, sent)" "\<not> has_pending s" "list_all frame_ok admitted"
  shows "list_all fragment_ok (map sr_fragment sent)"
proof -
  have "fragment_ok (sr_fragment r)" if "r \<in> set sent" for r
  proof -
    have "sr_fragment r \<in> set (queued_on sha (sr_lane r) (sr_stream_id r) admitted)"
      using that unfolding sent_all [OF assms(1,2), symmetric] by (auto simp: sent_on_def)
    then show ?thesis
      using assms(3) fragments_of_fragment_ok by (auto simp: queued_on_def list_all_iff)
  qed
  then show ?thesis by (simp add: list_all_iff)
qed

text \<open>What arrives of the sent fragments, in the order of sending, completes every stream.\<close>

lemma receiver_delivers:
  assumes "sendable origin fs" "\<And>lane i. sent_on lane i sent = queued_on sha lane i fs" "length clock = length sent"
    and "prompt REASSEMBLY_DEADLINE_MS (zip (map (\<lambda>r. fg_frame_id (sr_fragment r)) sent) clock)"
  shows "on_stream lane i (snd (reassembler_run iter sha (reassembler_new origin) (zip (map sr_fragment sent) clock)))
    = on_stream lane i fs"
proof -
  let ?es = "zip sent clock" and ?plan = "\<lambda>st. on_stream (fst st) (snd st) fs"
  have "arrives sha ?plan (\<lambda>_. 0) ?es"
    using assms(2,3) by (simp add: arrives_def queued_on_def on_stream_def)
  moreover have "keyed ?es = zip (map (\<lambda>r. fg_frame_id (sr_fragment r)) sent) clock"
    by (simp add: keyed_def zip_map1 split_beta)
  then have "timely (ra_deadline_ms (reassembler_new origin)) ?plan (\<lambda>_. 0) (\<lambda>_. 0) ?es"
    using assms(4) by (simp add: timely_def reassembler_new_def)
  moreover have "map (\<lambda>e. (sr_fragment (fst e), snd e)) ?es = zip (map sr_fragment sent) clock"
    by (simp add: zip_map1 split_beta)
  ultimately show ?thesis
    using rx_run [OF rx_inv_new [OF assms(1)], of sha ?es "\<lambda>_. 0" "(lane, i)" iter] by (simp add: on_stream_filter)
qed

end
