(* ===== verification/Remote_Bulk.thy ===== *)
theory Remote_Bulk
  imports Remote_Frame
begin

text \<open>
  Bulk transfers (\<open>crates/cockpit-proto/src/remote_transport/bulk.rs\<close>): the four payloads carried inside
  bulk-lane frames with their codec, and the receiver's state machine \<open>RemoteBulkTransferState\<close>.

  SHA-256 is the parameter \<open>sha\<close>. The incremental hasher is the byte string it has been fed so far, so
  that finalizing it is \<open>sha\<close> of that string. The chunk index is a 32-bit word whose increment wraps, as
  in a release build.

  Shown here: the codec is exact; a completed transfer has delivered exactly the declared bytes under
  the declared digest and within its limits; the terminal states are final; the receive window is
  bounded.
\<close>

section \<open>Definitions\<close>

subsection \<open>Constants and classes\<close>

definition BULK_KIND_BEGIN :: u8 where "BULK_KIND_BEGIN = 1"
definition BULK_KIND_CHUNK :: u8 where "BULK_KIND_CHUNK = 2"
definition BULK_KIND_COMPLETE :: u8 where "BULK_KIND_COMPLETE = 3"
definition BULK_KIND_ABORT :: u8 where "BULK_KIND_ABORT = 4"
definition BULK_OPTION_BITS_UNKNOWN :: u8 where "BULK_OPTION_BITS_UNKNOWN = 0"
definition BULK_OPTION_BITS_KNOWN :: u8 where "BULK_OPTION_BITS_KNOWN = 3"
definition BULK_BEGIN_BYTES_WITHOUT_OPTIONS :: nat where "BULK_BEGIN_BYTES_WITHOUT_OPTIONS = 27"
definition BULK_BEGIN_BYTES_WITH_OPTIONS :: nat where "BULK_BEGIN_BYTES_WITH_OPTIONS = 67"
definition BULK_CHUNK_ENVELOPE_BYTES :: nat where "BULK_CHUNK_ENVELOPE_BYTES = 33"
definition BULK_COMPLETE_BYTES :: nat where "BULK_COMPLETE_BYTES = 57"
definition BULK_ABORT_BYTES :: nat where "BULK_ABORT_BYTES = 18"
definition MAX_BULK_CHUNK_PAYLOAD_BYTES :: nat where
  "MAX_BULK_CHUNK_PAYLOAD_BYTES = BULK_MAX_PAYLOAD_BYTES - BULK_CHUNK_ENVELOPE_BYTES"
definition MAX_RECEIVER_WINDOW_BYTES :: u64 where "MAX_RECEIVER_WINDOW_BYTES = 4 * 1024 * 1024"
definition MAX_TRANSFER_BYTES :: u64 where "MAX_TRANSFER_BYTES = 512 * 1024 * 1024"
definition PASTE_MAX_SINGLE_IMAGE_BYTES :: nat where "PASTE_MAX_SINGLE_IMAGE_BYTES = 4 * 1024 * 1024"
definition PASTE_MAX_TOTAL_IMAGE_BYTES :: nat where "PASTE_MAX_TOTAL_IMAGE_BYTES = 8 * 1024 * 1024"

lemmas bulk_consts = BULK_KIND_BEGIN_def BULK_KIND_CHUNK_def BULK_KIND_COMPLETE_def BULK_KIND_ABORT_def
  BULK_OPTION_BITS_UNKNOWN_def BULK_OPTION_BITS_KNOWN_def BULK_BEGIN_BYTES_WITHOUT_OPTIONS_def
  BULK_BEGIN_BYTES_WITH_OPTIONS_def BULK_CHUNK_ENVELOPE_BYTES_def BULK_COMPLETE_BYTES_def BULK_ABORT_BYTES_def
  MAX_BULK_CHUNK_PAYLOAD_BYTES_def BULK_MAX_PAYLOAD_BYTES_def

datatype mime_class = Mime_Image | Mime_ImageSet | Mime_Archive | Mime_Export | Mime_Opaque | Mime_RedactedExport

definition mime_ALL :: "mime_class list" where
  "mime_ALL = [Mime_Image, Mime_ImageSet, Mime_Archive, Mime_Export, Mime_Opaque, Mime_RedactedExport]"

fun mime_code :: "mime_class \<Rightarrow> u8" where
  "mime_code Mime_Image = 1"
| "mime_code Mime_ImageSet = 2"
| "mime_code Mime_Archive = 3"
| "mime_code Mime_Export = 4"
| "mime_code Mime_Opaque = 5"
| "mime_code Mime_RedactedExport = 6"

definition mime_from_code :: "u8 \<Rightarrow> mime_class option" where
  "mime_from_code c =
     (if c = 1 then Some Mime_Image else if c = 2 then Some Mime_ImageSet
      else if c = 3 then Some Mime_Archive else if c = 4 then Some Mime_Export
      else if c = 5 then Some Mime_Opaque else if c = 6 then Some Mime_RedactedExport else None)"

fun mime_as_str :: "mime_class \<Rightarrow> string" where
  "mime_as_str Mime_Image = ''image''"
| "mime_as_str Mime_ImageSet = ''image_set''"
| "mime_as_str Mime_Archive = ''archive''"
| "mime_as_str Mime_Export = ''export''"
| "mime_as_str Mime_Opaque = ''opaque''"
| "mime_as_str Mime_RedactedExport = ''redacted_export''"

definition mime_from_str_exact :: "string \<Rightarrow> mime_class option" where
  "mime_from_str_exact v = find (\<lambda>c. mime_as_str c = v) mime_ALL"

fun class_limit_bytes :: "mime_class \<Rightarrow> u64" where
  "class_limit_bytes Mime_Image = of_nat PASTE_MAX_SINGLE_IMAGE_BYTES"
| "class_limit_bytes Mime_ImageSet = of_nat PASTE_MAX_TOTAL_IMAGE_BYTES"
| "class_limit_bytes Mime_Archive = MAX_TRANSFER_BYTES"
| "class_limit_bytes Mime_Export = MAX_TRANSFER_BYTES"
| "class_limit_bytes Mime_Opaque = MAX_TRANSFER_BYTES"
| "class_limit_bytes Mime_RedactedExport = MAX_TRANSFER_BYTES"

definition mime_max_total_length :: "mime_class \<Rightarrow> u64" where
  "mime_max_total_length c =
     (if class_limit_bytes c < MAX_TRANSFER_BYTES then class_limit_bytes c else MAX_TRANSFER_BYTES)"

datatype abort_reason = Abort_Cancelled | Abort_LimitExceeded | Abort_IntegrityFailure | Abort_TransportClosed | Abort_Timeout

fun abort_code :: "abort_reason \<Rightarrow> u8" where
  "abort_code Abort_Cancelled = 1"
| "abort_code Abort_LimitExceeded = 2"
| "abort_code Abort_IntegrityFailure = 3"
| "abort_code Abort_TransportClosed = 4"
| "abort_code Abort_Timeout = 5"

definition abort_from_code :: "u8 \<Rightarrow> abort_reason option" where
  "abort_from_code c =
     (if c = 1 then Some Abort_Cancelled else if c = 2 then Some Abort_LimitExceeded
      else if c = 3 then Some Abort_IntegrityFailure else if c = 4 then Some Abort_TransportClosed
      else if c = 5 then Some Abort_Timeout else None)"

fun abort_as_str :: "abort_reason \<Rightarrow> string" where
  "abort_as_str Abort_Cancelled = ''cancelled''"
| "abort_as_str Abort_LimitExceeded = ''limit_exceeded''"
| "abort_as_str Abort_IntegrityFailure = ''integrity_failure''"
| "abort_as_str Abort_TransportClosed = ''transport_closed''"
| "abort_as_str Abort_Timeout = ''timeout''"

subsection \<open>Messages\<close>

record bulk_begin =
  bb_transfer_id :: id16
  bb_total_length :: "u64 option"
  bb_expected_sha256 :: "digest32 option"
  bb_mime_class :: mime_class
  bb_max_total_length :: u64

record bulk_chunk =
  bc_transfer_id :: id16
  bc_chunk_index :: u32
  bc_offset :: u64
  bc_bytes :: bytes

record bulk_complete =
  bf_transfer_id :: id16
  bf_final_length :: u64
  bf_sha256 :: digest32

record bulk_abort =
  ba_transfer_id :: id16
  ba_reason :: abort_reason

datatype bulk_message =
    Bulk_Begin bulk_begin
  | Bulk_Chunk bulk_chunk
  | Bulk_Complete bulk_complete
  | Bulk_Abort bulk_abort

definition bulk_err :: "remote_transport_reason \<Rightarrow> remote_transport_error" where
  "bulk_err reason = error_with_lane reason Lane_Bulk"

definition begin_unknown_length :: "id16 \<Rightarrow> mime_class \<Rightarrow> bulk_begin" where
  "begin_unknown_length i c =
     \<lparr>bb_transfer_id = i, bb_total_length = None, bb_expected_sha256 = None, bb_mime_class = c,
      bb_max_total_length = mime_max_total_length c\<rparr>"

definition begin_known_length :: "id16 \<Rightarrow> mime_class \<Rightarrow> u64 \<Rightarrow> digest32 \<Rightarrow> bulk_begin" where
  "begin_known_length i c len_total digest =
     \<lparr>bb_transfer_id = i, bb_total_length = Some len_total, bb_expected_sha256 = Some digest, bb_mime_class = c,
      bb_max_total_length = mime_max_total_length c\<rparr>"

definition begin_option_bits :: "bulk_begin \<Rightarrow> u8" where
  "begin_option_bits b =
     (case (bb_total_length b, bb_expected_sha256 b) of
        (Some _, Some _) \<Rightarrow> BULK_OPTION_BITS_KNOWN
      | _ \<Rightarrow> BULK_OPTION_BITS_UNKNOWN)"

definition begin_validate :: "bulk_begin \<Rightarrow> remote_transport_error + unit" where
  "begin_validate b =
     (if (bb_total_length b = None) \<noteq> (bb_expected_sha256 b = None) then Inl (bulk_err BulkOptionBits)
      else if bb_max_total_length b \<noteq> mime_max_total_length (bb_mime_class b) then Inl (bulk_err BulkClassLimit)
      else case bb_total_length b of
        Some len_total \<Rightarrow> if len_total > bb_max_total_length b then Inl (bulk_err BulkTransferLimit) else Inr ()
      | None \<Rightarrow> Inr ())"

definition read_transfer_id :: "bytes \<Rightarrow> nat \<Rightarrow> remote_transport_error + id16" where
  "read_transfer_id bs off = ok_or (bulk_err BulkUnknownTransfer) (tag_protocol_id (rd128 off bs))"

fun bulk_encode :: "bulk_message \<Rightarrow> remote_transport_error + bytes" where
  "bulk_encode (Bulk_Begin b) =
     rbind (begin_validate b) (\<lambda>_.
       Inr ([BULK_KIND_BEGIN] @ be128 (bb_transfer_id b) @ [begin_option_bits b]
            @ (case (bb_total_length b, bb_expected_sha256 b) of
                 (Some len_total, Some digest) \<Rightarrow> be64 len_total @ be256 digest
               | _ \<Rightarrow> [])
            @ [mime_code (bb_mime_class b)] @ be64 (bb_max_total_length b)))"
| "bulk_encode (Bulk_Chunk c) =
     (if length (bc_bytes c) > MAX_BULK_CHUNK_PAYLOAD_BYTES
      then Inl (error_with_size PayloadCapExceeded Lane_Bulk (length (bc_bytes c)))
      else Inr ([BULK_KIND_CHUNK] @ be128 (bc_transfer_id c) @ be32 (bc_chunk_index c) @ be64 (bc_offset c)
                @ be32 (of_nat (length (bc_bytes c))) @ bc_bytes c))"
| "bulk_encode (Bulk_Complete c) =
     Inr ([BULK_KIND_COMPLETE] @ be128 (bf_transfer_id c) @ be64 (bf_final_length c) @ be256 (bf_sha256 c))"
| "bulk_encode (Bulk_Abort a) =
     Inr ([BULK_KIND_ABORT] @ be128 (ba_transfer_id a) @ [abort_code (ba_reason a)])"

definition wrong_length :: "nat \<Rightarrow> nat \<Rightarrow> remote_transport_error" where
  "wrong_length actual expected = bulk_err (if actual < expected then BulkLengthMismatch else TrailingBytes)"

definition decode_begin :: "bytes \<Rightarrow> remote_transport_error + bulk_message" where
  "decode_begin bs =
     (if length bs < 18 then Inl (bulk_err HeaderTooShort)
      else rbind (read_transfer_id bs 1) (\<lambda>transfer_id.
        let bits = bs ! 17 in
        rbind (if bits = BULK_OPTION_BITS_UNKNOWN then Inr (BULK_BEGIN_BYTES_WITHOUT_OPTIONS, False)
               else if bits = BULK_OPTION_BITS_KNOWN then Inr (BULK_BEGIN_BYTES_WITH_OPTIONS, True)
               else Inl (bulk_err BulkOptionBits)) (\<lambda>(expected_len, has_options).
        if length bs \<noteq> expected_len then Inl (wrong_length (length bs) expected_len)
        else
          let (total_length, expected_sha256, cursor) =
                (if has_options then (Some (rd64 18 bs), Some (rd256 26 bs), 58) else (None, None, 18)) in
          rbind (ok_or (bulk_err BulkUnknownMimeClass) (mime_from_code (bs ! cursor))) (\<lambda>mime_class.
          let begin = \<lparr>bb_transfer_id = transfer_id, bb_total_length = total_length,
                bb_expected_sha256 = expected_sha256, bb_mime_class = mime_class,
                bb_max_total_length = rd64 (cursor + 1) bs\<rparr> in
          rbind (begin_validate begin) (\<lambda>_. Inr (Bulk_Begin begin))))))"

definition decode_chunk :: "bytes \<Rightarrow> remote_transport_error + bulk_message" where
  "decode_chunk bs =
     (if length bs < BULK_CHUNK_ENVELOPE_BYTES then Inl (bulk_err HeaderTooShort)
      else rbind (read_transfer_id bs 1) (\<lambda>transfer_id.
        let chunk_index = rd32 17 bs; offset = rd64 21 bs; byte_length = unat (rd32 29 bs) in
        if byte_length > MAX_BULK_CHUNK_PAYLOAD_BYTES
        then Inl (error_with_size PayloadCapExceeded Lane_Bulk byte_length)
        else let actual = length bs - BULK_CHUNK_ENVELOPE_BYTES in
          if actual > byte_length then Inl (bulk_err TrailingBytes)
          else if actual < byte_length then Inl (bulk_err BulkLengthMismatch)
          else Inr (Bulk_Chunk \<lparr>bc_transfer_id = transfer_id, bc_chunk_index = chunk_index,
                 bc_offset = offset, bc_bytes = drop BULK_CHUNK_ENVELOPE_BYTES bs\<rparr>)))"

definition decode_complete :: "bytes \<Rightarrow> remote_transport_error + bulk_message" where
  "decode_complete bs =
     (if length bs \<noteq> BULK_COMPLETE_BYTES then Inl (wrong_length (length bs) BULK_COMPLETE_BYTES)
      else rbind (read_transfer_id bs 1) (\<lambda>transfer_id.
        Inr (Bulk_Complete \<lparr>bf_transfer_id = transfer_id, bf_final_length = rd64 17 bs, bf_sha256 = rd256 25 bs\<rparr>)))"

definition decode_abort :: "bytes \<Rightarrow> remote_transport_error + bulk_message" where
  "decode_abort bs =
     (if length bs \<noteq> BULK_ABORT_BYTES then Inl (wrong_length (length bs) BULK_ABORT_BYTES)
      else rbind (read_transfer_id bs 1) (\<lambda>transfer_id.
        rbind (ok_or (bulk_err BulkUnknownAbortReason) (abort_from_code (bs ! 17))) (\<lambda>reason.
        Inr (Bulk_Abort \<lparr>ba_transfer_id = transfer_id, ba_reason = reason\<rparr>))))"

definition bulk_decode :: "bytes \<Rightarrow> remote_transport_error + bulk_message" where
  "bulk_decode bs =
     (case bs of
        [] \<Rightarrow> Inl (bulk_err HeaderTooShort)
      | kind_byte # _ \<Rightarrow>
          if kind_byte = BULK_KIND_BEGIN then decode_begin bs
          else if kind_byte = BULK_KIND_CHUNK then decode_chunk bs
          else if kind_byte = BULK_KIND_COMPLETE then decode_complete bs
          else if kind_byte = BULK_KIND_ABORT then decode_abort bs
          else Inl (bulk_err BulkUnknownKind))"

subsection \<open>The receiver\<close>

datatype bulk_status = Bulk_Active | Bulk_Completed | Bulk_Aborted

record bulk_transfer =
  bt_transfer_id :: id16
  bt_mime_class :: mime_class
  bt_declared_total :: "u64 option"
  bt_expected_sha256 :: "digest32 option"
  bt_max_total_length :: u64
  bt_next_chunk_index :: u32
  bt_received :: u64
  bt_unacknowledged :: u64
  bt_window_limit :: u64
  bt_hashed :: bytes
  bt_status :: bulk_status

definition transfer_begin :: "bulk_begin \<Rightarrow> remote_transport_error + bulk_transfer" where
  "transfer_begin b =
     rbind (begin_validate b) (\<lambda>_.
       Inr \<lparr>bt_transfer_id = bb_transfer_id b, bt_mime_class = bb_mime_class b,
            bt_declared_total = bb_total_length b, bt_expected_sha256 = bb_expected_sha256 b,
            bt_max_total_length = bb_max_total_length b, bt_next_chunk_index = 0, bt_received = 0,
            bt_unacknowledged = 0, bt_window_limit = MAX_RECEIVER_WINDOW_BYTES, bt_hashed = [],
            bt_status = Bulk_Active\<rparr>)"

definition transfer_acknowledge :: "bulk_transfer \<Rightarrow> u64 \<Rightarrow> bulk_transfer" where
  "transfer_acknowledge s n = s\<lparr>bt_unacknowledged := saturating_sub (bt_unacknowledged s) n\<rparr>"

definition ensure_active :: "bulk_transfer \<Rightarrow> remote_transport_error + unit" where
  "ensure_active s =
     (case bt_status s of
        Bulk_Active \<Rightarrow> Inr ()
      | Bulk_Completed \<Rightarrow> Inl (bulk_err BulkAlreadyComplete)
      | Bulk_Aborted \<Rightarrow> Inl (bulk_err BulkLateChunk))"

definition ensure_same_transfer :: "bulk_transfer \<Rightarrow> id16 \<Rightarrow> remote_transport_error + unit" where
  "ensure_same_transfer s i =
     (if i \<noteq> bt_transfer_id s then Inl (bulk_err BulkUnknownTransfer) else Inr ())"

text \<open>The errors leave the state as it was, so the operations return the new state inside the result.\<close>

definition accept_chunk :: "bulk_transfer \<Rightarrow> bulk_chunk \<Rightarrow> remote_transport_error + bulk_transfer" where
  "accept_chunk s c =
     rbind (ensure_active s) (\<lambda>_. rbind (ensure_same_transfer s (bc_transfer_id c)) (\<lambda>_.
       if length (bc_bytes c) > MAX_BULK_CHUNK_PAYLOAD_BYTES
       then Inl (error_with_size PayloadCapExceeded Lane_Bulk (length (bc_bytes c)))
       else if bc_chunk_index c \<noteq> bt_next_chunk_index s then Inl (bulk_err BulkChunkIndexGap)
       else if bc_offset c \<noteq> bt_received s then Inl (bulk_err BulkOffsetGap)
       else let len = of_nat (length (bc_bytes c)) in
         rbind (ok_or (bulk_err BulkTransferLimit) (checked_add (bt_received s) len)) (\<lambda>projected.
         if projected > bt_max_total_length s then Inl (bulk_err BulkClassLimit)
         else if projected > MAX_TRANSFER_BYTES then Inl (bulk_err BulkTransferLimit)
         else if (case bt_declared_total s of Some len_total \<Rightarrow> projected > len_total | None \<Rightarrow> False)
         then Inl (bulk_err BulkWindowOvershoot)
         else if bt_unacknowledged s + len > bt_window_limit s then Inl (bulk_err BulkWindowOvershoot)
         else Inr (s\<lparr>bt_hashed := bt_hashed s @ bc_bytes c, bt_received := projected,
                     bt_unacknowledged := bt_unacknowledged s + len,
                     bt_next_chunk_index := bt_next_chunk_index s + 1\<rparr>))))"

definition transfer_complete ::
    "(bytes \<Rightarrow> digest32) \<Rightarrow> bulk_transfer \<Rightarrow> bulk_complete \<Rightarrow> remote_transport_error + bulk_transfer" where
  "transfer_complete sha s c =
     rbind (ensure_active s) (\<lambda>_. rbind (ensure_same_transfer s (bf_transfer_id c)) (\<lambda>_.
       if bf_final_length c \<noteq> bt_received s then Inl (bulk_err BulkLengthMismatch)
       else if (case bt_declared_total s of Some declared \<Rightarrow> declared \<noteq> bf_final_length c | None \<Rightarrow> False)
       then Inl (bulk_err BulkLengthMismatch)
       else if sha (bt_hashed s) \<noteq> bf_sha256 c then Inl (bulk_err BulkDigestMismatch)
       else if (case bt_expected_sha256 s of Some expected \<Rightarrow> expected \<noteq> bf_sha256 c | None \<Rightarrow> False)
       then Inl (bulk_err BulkDigestMismatch)
       else Inr (s\<lparr>bt_status := Bulk_Completed, bt_unacknowledged := 0\<rparr>)))"

definition transfer_abort :: "bulk_transfer \<Rightarrow> bulk_abort \<Rightarrow> remote_transport_error + bulk_transfer" where
  "transfer_abort s a =
     rbind (ensure_same_transfer s (ba_transfer_id a)) (\<lambda>_.
       case bt_status s of
         Bulk_Aborted \<Rightarrow> Inr s
       | Bulk_Completed \<Rightarrow> Inl (bulk_err BulkAlreadyComplete)
       | Bulk_Active \<Rightarrow> Inr (s\<lparr>bt_status := Bulk_Aborted, bt_unacknowledged := 0\<rparr>))"

definition running_digest :: "(bytes \<Rightarrow> digest32) \<Rightarrow> bulk_transfer \<Rightarrow> digest32" where
  "running_digest sha s = sha (bt_hashed s)"

subsection \<open>Predicates\<close>

fun bulk_ok :: "bulk_message \<Rightarrow> bool" where
  "bulk_ok (Bulk_Begin b) \<longleftrightarrow> bb_transfer_id b \<noteq> 0 \<and> begin_validate b = Inr ()"
| "bulk_ok (Bulk_Chunk c) \<longleftrightarrow> bc_transfer_id c \<noteq> 0 \<and> length (bc_bytes c) \<le> MAX_BULK_CHUNK_PAYLOAD_BYTES"
| "bulk_ok (Bulk_Complete c) \<longleftrightarrow> bf_transfer_id c \<noteq> 0"
| "bulk_ok (Bulk_Abort a) \<longleftrightarrow> ba_transfer_id a \<noteq> 0"

text \<open>The operations on a receiver, and the run that records the accepted chunks and completions.\<close>

datatype bulk_op =
    Op_Chunk bulk_chunk
  | Op_Complete bulk_complete
  | Op_Abort bulk_abort
  | Op_Acknowledge u64

fun bulk_apply :: "(bytes \<Rightarrow> digest32) \<Rightarrow> bulk_transfer \<Rightarrow> bulk_op \<Rightarrow> remote_transport_error + bulk_transfer" where
  "bulk_apply sha s (Op_Chunk c) = accept_chunk s c"
| "bulk_apply sha s (Op_Complete c) = transfer_complete sha s c"
| "bulk_apply sha s (Op_Abort a) = transfer_abort s a"
| "bulk_apply sha s (Op_Acknowledge n) = Inr (transfer_acknowledge s n)"

fun bulk_run ::
    "(bytes \<Rightarrow> digest32) \<Rightarrow> bulk_transfer \<Rightarrow> bulk_op list \<Rightarrow> bulk_transfer \<times> bulk_op list" where
  "bulk_run sha s [] = (s, [])"
| "bulk_run sha s (op # ops) =
     (case bulk_apply sha s op of
        Inl _ \<Rightarrow> bulk_run sha s ops
      | Inr s' \<Rightarrow> (case bulk_run sha s' ops of (t, done) \<Rightarrow> (t, op # done)))"

fun op_bytes :: "bulk_op \<Rightarrow> bytes" where
  "op_bytes (Op_Chunk c) = bc_bytes c"
| "op_bytes _ = []"

fun op_chunks :: "bulk_op list \<Rightarrow> bulk_chunk list" where
  "op_chunks [] = []"
| "op_chunks (Op_Chunk c # ops) = c # op_chunks ops"
| "op_chunks (_ # ops) = op_chunks ops"

text \<open>Chunks that follow one another from a given index and offset.\<close>

fun contiguous :: "u32 \<Rightarrow> u64 \<Rightarrow> bulk_chunk list \<Rightarrow> bool" where
  "contiguous i off [] \<longleftrightarrow> True"
| "contiguous i off (c # cs) \<longleftrightarrow> bc_chunk_index c = i \<and> bc_offset c = off
     \<and> contiguous (i + 1) (off + of_nat (length (bc_bytes c))) cs"

text \<open>A sender's chunks for the given pieces, each acknowledged by the receiver once it is drained.\<close>

fun send_ops :: "id16 \<Rightarrow> u32 \<Rightarrow> u64 \<Rightarrow> bytes list \<Rightarrow> bulk_op list" where
  "send_ops i k off [] = []"
| "send_ops i k off (p # ps) =
     Op_Chunk \<lparr>bc_transfer_id = i, bc_chunk_index = k, bc_offset = off, bc_bytes = p\<rparr>
     # Op_Acknowledge (of_nat (length p)) # send_ops i (k + 1) (off + of_nat (length p)) ps"

definition transfer_inv :: "bulk_begin \<Rightarrow> bulk_transfer \<Rightarrow> bool" where
  "transfer_inv b s \<longleftrightarrow> begin_validate b = Inr ()
     \<and> bt_transfer_id s = bb_transfer_id b \<and> bt_declared_total s = bb_total_length b
     \<and> bt_expected_sha256 s = bb_expected_sha256 b \<and> bt_max_total_length s = bb_max_total_length b
     \<and> bt_window_limit s = MAX_RECEIVER_WINDOW_BYTES
     \<and> unat (bt_received s) = length (bt_hashed s) \<and> bt_received s \<le> bt_max_total_length s
     \<and> bt_received s \<le> MAX_TRANSFER_BYTES
     \<and> (case bt_declared_total s of Some n \<Rightarrow> bt_received s \<le> n | None \<Rightarrow> True)
     \<and> bt_unacknowledged s \<le> bt_received s \<and> bt_unacknowledged s \<le> MAX_RECEIVER_WINDOW_BYTES
     \<and> (bt_status s = Bulk_Active \<or> bt_unacknowledged s = 0)"

text \<open>A receiver that has taken \<open>content\<close> and holds nothing unacknowledged, and content that fits a begin.\<close>

definition drained :: "bulk_begin \<Rightarrow> u32 \<Rightarrow> bytes \<Rightarrow> bulk_transfer \<Rightarrow> bool" where
  "drained b k content s \<longleftrightarrow> transfer_inv b s \<and> bt_status s = Bulk_Active \<and> bt_unacknowledged s = 0
     \<and> bt_next_chunk_index s = k \<and> bt_hashed s = content"

definition fits :: "bulk_begin \<Rightarrow> nat \<Rightarrow> bool" where
  "fits b n \<longleftrightarrow> n \<le> unat (bb_max_total_length b) \<and> (case bb_total_length b of Some m \<Rightarrow> n \<le> unat m | None \<Rightarrow> True)"

section \<open>The codec\<close>

lemma mime_from_code_canonical: "mime_from_code b = Some c \<longleftrightarrow> b = mime_code c"
  by (cases c) (auto simp: mime_from_code_def)

lemma abort_from_code_canonical: "abort_from_code b = Some r \<longleftrightarrow> b = abort_code r"
  by (cases r) (auto simp: abort_from_code_def)

lemma mime_from_str_iff: "mime_from_str_exact v = Some c \<longleftrightarrow> v = mime_as_str c"
  by (cases c) (auto simp: mime_from_str_exact_def mime_ALL_def split: if_splits)

lemma read_transfer_id_iff: "read_transfer_id bs off = Inr i \<longleftrightarrow> i = rd128 off bs \<and> i \<noteq> 0"
  by (auto simp: read_transfer_id_def tag_protocol_id_def)

text \<open>A begin that validates declares a length and a digest together.\<close>

lemma begin_validate_cases:
  assumes "begin_validate b = Inr ()"
  obtains (unknown) "bb_total_length b = None" "bb_expected_sha256 b = None"
  | (known) n d where "bb_total_length b = Some n" "bb_expected_sha256 b = Some d"
  using assms by (cases "bb_total_length b"; cases "bb_expected_sha256 b") (auto simp: begin_validate_def)

lemma bulk_encode_total: "bulk_ok m \<Longrightarrow> \<exists>bs. bulk_encode m = Inr bs"
  by (cases m) simp_all

lemma decode_begin_encode:
  assumes "bulk_ok (Bulk_Begin b)" "bulk_encode (Bulk_Begin b) = Inr bs"
  shows "bulk_decode bs = Inr (Bulk_Begin b)"
proof -
  have v: "begin_validate b = Inr ()" and i: "bb_transfer_id b \<noteq> 0"
    using assms(1) by simp_all
  note simps = bulk_decode_def decode_begin_def bulk_consts be_simps Let_def begin_option_bits_def
    read_transfer_id_def tag_protocol_id_def mime_from_code_canonical [THEN iffD2]
  from v show ?thesis
  proof (cases rule: begin_validate_cases)
    case unknown
    then have "bs = 1 # be128 (bb_transfer_id b) @ 0 # mime_code (bb_mime_class b) # be64 (bb_max_total_length b)"
      using assms(2) v by (simp add: bulk_consts begin_option_bits_def)
    moreover have "b = b\<lparr>bb_total_length := None, bb_expected_sha256 := None\<rparr>"
      using unknown by (cases b) simp
    ultimately show ?thesis
      using v i by (cases b) (simp add: simps nth_append)
  next
    case (known n d)
    then have "bs = 1 # be128 (bb_transfer_id b) @ 3 # be64 n @ be256 d @ mime_code (bb_mime_class b)
        # be64 (bb_max_total_length b)"
      using assms(2) v by (simp add: bulk_consts begin_option_bits_def)
    then show ?thesis
      using known v i by (cases b) (simp add: simps nth_append)
  qed
qed

lemma bulk_decode_encode:
  assumes "bulk_ok m" "bulk_encode m = Inr bs"
  shows "bulk_decode bs = Inr m"
proof (cases m)
  case (Bulk_Begin b)
  then show ?thesis using assms decode_begin_encode by simp
next
  case (Bulk_Chunk c)
  then have len: "length (bc_bytes c) \<le> 524255"
    using assms(1) by (simp add: bulk_consts)
  then have "unat (of_nat (length (bc_bytes c)) :: u32) = length (bc_bytes c)"
    by (intro unat_of_nat_small) simp
  then show ?thesis
    using assms Bulk_Chunk len
    by (auto simp: bulk_decode_def decode_chunk_def read_transfer_id_def tag_protocol_id_def bulk_consts be_simps Let_def)
next
  case (Bulk_Complete c)
  then show ?thesis
    using assms by (auto simp: bulk_decode_def decode_complete_def read_transfer_id_def tag_protocol_id_def
        bulk_consts be_simps)
next
  case (Bulk_Abort a)
  then show ?thesis
    using assms by (auto simp: bulk_decode_def decode_abort_def read_transfer_id_def tag_protocol_id_def
        bulk_consts be_simps nth_append mime_from_code_canonical abort_from_code_canonical [THEN iffD2])
qed

text \<open>Conversely, each decoder determines the bytes it accepts.\<close>

lemma encode_decode_begin:
  assumes "decode_begin bs = Inr m" "bs ! 0 = 1"
  shows "bulk_ok m \<and> bulk_encode m = Inr bs"
proof -
  consider (unknown) "bs ! 17 = 0" | (known) "bs ! 17 = 3"
    using assms(1) by (auto simp: decode_begin_def bulk_consts Let_def result_simps split: if_splits)
  then show ?thesis
  proof cases
    case unknown
    then obtain c b where len: "length bs = 27" and c: "bs ! 18 = mime_code c" and i: "rd128 1 bs \<noteq> 0"
      and b: "b = \<lparr>bb_transfer_id = rd128 1 bs, bb_total_length = None, bb_expected_sha256 = None,
        bb_mime_class = c, bb_max_total_length = rd64 19 bs\<rparr>"
      and v: "begin_validate b = Inr ()" and m: "m = Bulk_Begin b"
      using assms(1) by (auto simp: decode_begin_def bulk_consts Let_def result_simps read_transfer_id_iff
          mime_from_code_canonical split: if_splits)
    have "bs = [bs ! 0] @ be128 (rd128 1 bs) @ [bs ! 17, bs ! 18] @ be64 (rd64 19 bs)"
      using fields_eq [of 0 "[1, 16, 1, 1, 8]" bs] len by (simp add: bslice_one be_simps del: One_nat_def)
    then show ?thesis
      using m v [unfolded b] b i c unknown assms(2) by (simp add: bulk_consts begin_option_bits_def)
  next
    case known
    then obtain c b where len: "length bs = 67" and c: "bs ! 58 = mime_code c" and i: "rd128 1 bs \<noteq> 0"
      and b: "b = \<lparr>bb_transfer_id = rd128 1 bs, bb_total_length = Some (rd64 18 bs),
        bb_expected_sha256 = Some (rd256 26 bs), bb_mime_class = c, bb_max_total_length = rd64 59 bs\<rparr>"
      and v: "begin_validate b = Inr ()" and m: "m = Bulk_Begin b"
      using assms(1) by (auto simp: decode_begin_def bulk_consts Let_def result_simps read_transfer_id_iff
          mime_from_code_canonical split: if_splits)
    have "bs = [bs ! 0] @ be128 (rd128 1 bs) @ [bs ! 17] @ be64 (rd64 18 bs) @ be256 (rd256 26 bs)
        @ [bs ! 58] @ be64 (rd64 59 bs)"
      using fields_eq [of 0 "[1, 16, 1, 8, 32, 1, 8]" bs] len by (simp add: bslice_one be_simps del: One_nat_def)
    then show ?thesis
      using m v [unfolded b] b i c known assms(2) by (simp add: bulk_consts begin_option_bits_def)
  qed
qed

lemma encode_decode_chunk:
  assumes "decode_chunk bs = Inr m" "bs ! 0 = 2"
  shows "bulk_ok m \<and> bulk_encode m = Inr bs"
proof -
  have len: "33 \<le> length bs" "length bs = 33 + unat (rd32 29 bs)" "unat (rd32 29 bs) \<le> 524255"
    and i: "rd128 1 bs \<noteq> 0"
    and m: "m = Bulk_Chunk \<lparr>bc_transfer_id = rd128 1 bs, bc_chunk_index = rd32 17 bs, bc_offset = rd64 21 bs,
      bc_bytes = drop 33 bs\<rparr>"
    using assms(1) by (auto simp: decode_chunk_def bulk_consts Let_def result_simps read_transfer_id_iff not_less
        split: if_splits)
  have "bs = [bs ! 0] @ be128 (rd128 1 bs) @ be32 (rd32 17 bs) @ be64 (rd64 21 bs) @ be32 (rd32 29 bs) @ drop 33 bs"
    using fields_eq [of 0 "[1, 16, 4, 8, 4]" bs] len(1) by (simp add: bslice_one be_simps del: One_nat_def)
  moreover have "of_nat (length (drop 33 bs)) = rd32 29 bs"
    using len by simp
  ultimately show ?thesis
    using m i len assms(2) by (simp add: bulk_consts)
qed

lemma encode_decode_complete:
  assumes "decode_complete bs = Inr m" "bs ! 0 = 3"
  shows "bulk_ok m \<and> bulk_encode m = Inr bs"
proof -
  have len: "length bs = 57" and i: "rd128 1 bs \<noteq> 0"
    and m: "m = Bulk_Complete \<lparr>bf_transfer_id = rd128 1 bs, bf_final_length = rd64 17 bs, bf_sha256 = rd256 25 bs\<rparr>"
    using assms(1) by (auto simp: decode_complete_def bulk_consts result_simps read_transfer_id_iff split: if_splits)
  have "bs = [bs ! 0] @ be128 (rd128 1 bs) @ be64 (rd64 17 bs) @ be256 (rd256 25 bs)"
    using fields_eq [of 0 "[1, 16, 8, 32]" bs] len by (simp add: bslice_one be_simps del: One_nat_def)
  then show ?thesis
    using m i assms(2) by (simp add: bulk_consts)
qed

lemma encode_decode_abort:
  assumes "decode_abort bs = Inr m" "bs ! 0 = 4"
  shows "bulk_ok m \<and> bulk_encode m = Inr bs"
proof -
  obtain r where len: "length bs = 18" and i: "rd128 1 bs \<noteq> 0" and r: "bs ! 17 = abort_code r"
    and m: "m = Bulk_Abort \<lparr>ba_transfer_id = rd128 1 bs, ba_reason = r\<rparr>"
    using assms(1) by (auto simp: decode_abort_def bulk_consts result_simps read_transfer_id_iff
        abort_from_code_canonical split: if_splits)
  have "bs = [bs ! 0] @ be128 (rd128 1 bs) @ [bs ! 17]"
    using fields_eq [of 0 "[1, 16, 1]" bs] len by (simp add: bslice_one be_simps del: One_nat_def)
  then show ?thesis
    using m i r assms(2) by (simp add: bulk_consts)
qed

lemma bulk_encode_decode: "bulk_decode bs = Inr m \<Longrightarrow> bulk_ok m \<and> bulk_encode m = Inr bs"
  by (cases bs)
    (auto simp: bulk_decode_def bulk_consts split: if_splits
      dest: encode_decode_begin encode_decode_chunk encode_decode_complete encode_decode_abort)

interpretation bulk_codec: wire_codec bulk_encode bulk_decode bulk_ok
  by unfold_locales (auto intro: bulk_decode_encode bulk_encode_total dest: bulk_encode_decode)

lemma bulk_encode_length:
  assumes "bulk_encode m = Inr bs"
  shows "length bs \<le> BULK_MAX_PAYLOAD_BYTES"
  using assms
  by (cases m) (auto simp: bulk_consts result_simps not_less split: option.splits if_splits)

section \<open>The receiver\<close>

lemma unat_bulk_limits [simp]:
  "unat MAX_TRANSFER_BYTES = 536870912" "unat MAX_RECEIVER_WINDOW_BYTES = 4194304"
  by (simp_all add: MAX_TRANSFER_BYTES_def MAX_RECEIVER_WINDOW_BYTES_def)

lemma chunk_length_word:
  "length (bc_bytes c) \<le> MAX_BULK_CHUNK_PAYLOAD_BYTES \<Longrightarrow> unat (of_nat (length (bc_bytes c)) :: u64) = length (bc_bytes c)"
  by (rule unat_of_nat_small) (simp add: bulk_consts)

lemma transfer_begin_iff:
  "transfer_begin b = Inr s \<longleftrightarrow> begin_validate b = Inr () \<and> s =
     \<lparr>bt_transfer_id = bb_transfer_id b, bt_mime_class = bb_mime_class b, bt_declared_total = bb_total_length b,
      bt_expected_sha256 = bb_expected_sha256 b, bt_max_total_length = bb_max_total_length b,
      bt_next_chunk_index = 0, bt_received = 0, bt_unacknowledged = 0,
      bt_window_limit = MAX_RECEIVER_WINDOW_BYTES, bt_hashed = [], bt_status = Bulk_Active\<rparr>"
  by (auto simp: transfer_begin_def result_simps)

lemma transfer_inv_begin: "transfer_begin b = Inr s \<Longrightarrow> transfer_inv b s"
  by (auto simp: transfer_begin_iff transfer_inv_def split: option.splits)

text \<open>What an accepted chunk and an accepted completion mean.\<close>

lemma accept_chunk_InrD:
  assumes "accept_chunk s c = Inr s'"
  shows "bt_status s = Bulk_Active" "bc_chunk_index c = bt_next_chunk_index s" "bc_offset c = bt_received s"
    "length (bc_bytes c) \<le> MAX_BULK_CHUNK_PAYLOAD_BYTES" "bc_transfer_id c = bt_transfer_id s"
    "unat (bt_received s') = unat (bt_received s) + length (bc_bytes c)"
    "bt_received s' \<le> bt_max_total_length s" "bt_received s' \<le> MAX_TRANSFER_BYTES"
    "case bt_declared_total s of Some n \<Rightarrow> bt_received s' \<le> n | None \<Rightarrow> True"
    "bt_unacknowledged s' = bt_unacknowledged s + of_nat (length (bc_bytes c))"
    "bt_unacknowledged s' \<le> bt_window_limit s"
    "s' = s\<lparr>bt_hashed := bt_hashed s @ bc_bytes c, bt_received := bt_received s',
             bt_unacknowledged := bt_unacknowledged s', bt_next_chunk_index := bt_next_chunk_index s + 1\<rparr>"
  using assms
  by (auto simp: accept_chunk_def ensure_active_def ensure_same_transfer_def Let_def result_simps arith_simps
      chunk_length_word not_less split: if_splits bulk_status.splits option.splits)

lemma accept_chunk_fields:
  assumes "accept_chunk s c = Inr s'"
  shows "bt_hashed s' = bt_hashed s @ bc_bytes c" "bt_next_chunk_index s' = bt_next_chunk_index s + 1"
    "bt_received s' = bt_received s + of_nat (length (bc_bytes c))" "bt_status s' = Bulk_Active"
    "bt_transfer_id s' = bt_transfer_id s" "bt_max_total_length s' = bt_max_total_length s"
    "bt_declared_total s' = bt_declared_total s" "bt_expected_sha256 s' = bt_expected_sha256 s"
    "bt_window_limit s' = bt_window_limit s"
  using assms
  by (auto simp: accept_chunk_def ensure_active_def ensure_same_transfer_def Let_def result_simps checked_add_def
      split: if_splits bulk_status.splits)

lemma transfer_complete_InrD:
  assumes "transfer_complete sha s c = Inr s'"
  shows "bt_status s = Bulk_Active" "bf_final_length c = bt_received s" "bf_sha256 c = sha (bt_hashed s)"
    "bt_declared_total s = None \<or> bt_declared_total s = Some (bt_received s)"
    "bt_expected_sha256 s = None \<or> bt_expected_sha256 s = Some (sha (bt_hashed s))"
    "s' = s\<lparr>bt_status := Bulk_Completed, bt_unacknowledged := 0\<rparr>"
  using assms
  by (auto simp: transfer_complete_def ensure_active_def ensure_same_transfer_def result_simps
      split: if_splits bulk_status.splits option.splits)

lemma transfer_abort_InrD:
  assumes "transfer_abort s a = Inr s'"
  shows "s' = s \<and> bt_status s = Bulk_Aborted
    \<or> bt_status s = Bulk_Active \<and> s' = s\<lparr>bt_status := Bulk_Aborted, bt_unacknowledged := 0\<rparr>"
  using assms
  by (auto simp: transfer_abort_def ensure_same_transfer_def result_simps split: if_splits bulk_status.splits)

lemma transfer_inv_chunk:
  assumes inv: "transfer_inv b s" and acc: "accept_chunk s c = Inr s'"
  shows "transfer_inv b s'"
proof -
  note d = accept_chunk_InrD [OF acc]
  note len = chunk_length_word [OF d(4)]
  have "unat (bt_unacknowledged s') = unat (bt_unacknowledged s) + length (bc_bytes c)"
    using inv d(4) len by (subst d(10), subst unat_add_no_wrap)
      (simp_all add: transfer_inv_def word_le_nat_alt bulk_consts)
  then have "bt_unacknowledged s' \<le> bt_received s'"
    using inv d(6) by (simp add: transfer_inv_def word_le_nat_alt)
  then show ?thesis
    using inv d(6-9,11) accept_chunk_fields [OF acc] by (simp add: transfer_inv_def)
qed

lemma transfer_inv_apply:
  assumes inv: "transfer_inv b s" and "bulk_apply sha s op = Inr s'"
  shows "transfer_inv b s'"
proof (cases op)
  case (Op_Chunk c)
  then show ?thesis using assms transfer_inv_chunk by simp
next
  case (Op_Complete c)
  then show ?thesis
    using assms by (auto simp: transfer_inv_def dest!: transfer_complete_InrD(6) split: option.splits)
next
  case (Op_Abort a)
  then show ?thesis
    using assms by (auto simp: transfer_inv_def dest!: transfer_abort_InrD split: option.splits)
next
  case (Op_Acknowledge n)
  then have "s' = s\<lparr>bt_unacknowledged := saturating_sub (bt_unacknowledged s) n\<rparr>"
    using assms(2) by (simp add: transfer_acknowledge_def)
  then show ?thesis
    using inv by (auto simp: transfer_inv_def word_le_nat_alt unat_saturating_sub word_unat_eq_iff split: option.splits)
qed

text \<open>The content grows by the bytes of each accepted operation, and the chunks follow one another.\<close>

lemma bulk_apply_hashed:
  assumes "bulk_apply sha s op = Inr s'"
  shows "bt_hashed s' = bt_hashed s @ op_bytes op"
  using assms
  by (cases op) (auto simp: transfer_acknowledge_def accept_chunk_fields
      dest!: transfer_complete_InrD(6) transfer_abort_InrD)

lemma bulk_run_keeps:
  assumes "transfer_inv b s" "bulk_run sha s ops = (t, accepted)"
  shows "transfer_inv b t \<and> bt_hashed t = bt_hashed s @ concat (map op_bytes accepted)"
  using assms
proof (induction ops arbitrary: s accepted)
  case Nil
  then show ?case by auto
next
  case (Cons op ops)
  show ?case
  proof (cases "bulk_apply sha s op")
    case (Inl e)
    then show ?thesis using Cons by simp
  next
    case (Inr s')
    then obtain accepted' where run: "bulk_run sha s' ops = (t, accepted')" "accepted = op # accepted'"
      using Cons.prems(2) by (auto split: prod.splits)
    show ?thesis
      using Cons.IH [OF transfer_inv_apply [OF Cons.prems(1) Inr] run(1)] bulk_apply_hashed [OF Inr] run(2) by simp
  qed
qed

lemma bulk_run_contiguous:
  assumes "bulk_run sha s ops = (t, accepted)"
  shows "contiguous (bt_next_chunk_index s) (bt_received s) (op_chunks accepted)"
  using assms
proof (induction ops arbitrary: s accepted)
  case Nil
  then show ?case by auto
next
  case (Cons op ops)
  show ?case
  proof (cases "bulk_apply sha s op")
    case (Inl e)
    then show ?thesis using Cons by simp
  next
    case (Inr s')
    then obtain rest where run: "bulk_run sha s' ops = (t, rest)" "accepted = op # rest"
      using Cons.prems by (auto split: prod.splits)
    note IH = Cons.IH [OF run(1)]
    show ?thesis
    proof (cases op)
      case (Op_Chunk c)
      then have "accept_chunk s c = Inr s'" using Inr by simp
      then show ?thesis
        using IH Op_Chunk run(2) accept_chunk_fields [of s c s'] accept_chunk_InrD(2,3) [of s c s'] by simp
    qed (use Inr IH run(2) in \<open>auto simp: transfer_acknowledge_def dest!: transfer_complete_InrD(6) transfer_abort_InrD\<close>)
  qed
qed

text \<open>A terminal state refuses everything but repeated aborts and acknowledgements, and does not move.\<close>

lemma terminal_run:
  assumes "bt_status s \<noteq> Bulk_Active" "bt_unacknowledged s = 0" "bulk_run sha s ops = (t, accepted)"
  shows "t = s \<and> op_chunks accepted = [] \<and> (\<forall>c. Op_Complete c \<notin> set accepted)"
  using assms(3)
proof (induction ops arbitrary: accepted)
  case Nil
  then show ?case by auto
next
  case (Cons op ops)
  show ?case
  proof (cases "bulk_apply sha s op")
    case (Inl e)
    then show ?thesis using Cons by simp
  next
    case (Inr s')
    have "s' = s \<and> op_bytes op = [] \<and> (\<forall>c. op \<noteq> Op_Chunk c) \<and> (\<forall>c. op \<noteq> Op_Complete c)"
      using Inr assms(1,2)
      by (cases op) (auto simp: transfer_acknowledge_def saturating_sub_def
          dest: accept_chunk_InrD(1) transfer_complete_InrD(1) transfer_abort_InrD)
    then show ?thesis
      using Cons Inr by (cases op) (auto split: prod.splits)
  qed
qed

lemma bulk_run_completed:
  assumes "transfer_inv b s" "bulk_run sha s ops = (t, accepted)" "bt_status t = Bulk_Completed"
    "bt_status s \<noteq> Bulk_Completed"
  shows "(bt_declared_total t = None \<or> bt_declared_total t = Some (bt_received t))
    \<and> (bt_expected_sha256 t = None \<or> bt_expected_sha256 t = Some (sha (bt_hashed t)))
    \<and> (\<exists>c. Op_Complete c \<in> set accepted \<and> bf_final_length c = bt_received t \<and> bf_sha256 c = sha (bt_hashed t))"
  using assms
proof (induction ops arbitrary: s accepted)
  case Nil
  then show ?case by auto
next
  case (Cons op ops)
  show ?case
  proof (cases "bulk_apply sha s op")
    case (Inl e)
    then show ?thesis using Cons by simp
  next
    case (Inr s')
    then obtain rest where run: "bulk_run sha s' ops = (t, rest)" "accepted = op # rest"
      using Cons.prems(2) by (auto split: prod.splits)
    have inv: "transfer_inv b s'"
      by (rule transfer_inv_apply [OF Cons.prems(1) Inr])
    show ?thesis
    proof (cases "bt_status s' = Bulk_Completed")
      case False
      then show ?thesis using Cons.IH [OF inv run(1) Cons.prems(3)] run(2) by auto
    next
      case True
      then have "t = s'"
        using terminal_run [OF _ _ run(1)] inv by (simp add: transfer_inv_def)
      moreover obtain c where c: "op = Op_Complete c"
        using Inr True Cons.prems(4)
        by (cases op) (auto simp: transfer_acknowledge_def accept_chunk_fields dest!: transfer_abort_InrD)
      ultimately show ?thesis
        using transfer_complete_InrD [of sha s c s'] Inr run(2) by auto
    qed
  qed
qed

text \<open>A contiguous chunk within the limits is accepted, and acknowledging it empties the window again.\<close>

lemma validated_limit:
  assumes "begin_validate b = Inr ()"
  shows "unat (bb_max_total_length b) \<le> 536870912"
proof -
  have "bb_max_total_length b = mime_max_total_length (bb_mime_class b)"
    using assms by (auto simp: begin_validate_def split: if_splits)
  then show ?thesis
    by (auto simp: mime_max_total_length_def word_le_nat_alt word_less_nat_alt)
qed

lemma drained_step:
  assumes s: "drained b k content s" and p: "length p \<le> MAX_BULK_CHUNK_PAYLOAD_BYTES"
    and room: "fits b (length content + length p)"
  defines "c \<equiv> \<lparr>bc_transfer_id = bb_transfer_id b, bc_chunk_index = k, bc_offset = of_nat (length content), bc_bytes = p\<rparr>"
  obtains s' where "accept_chunk s c = Inr s'"
    "drained b (k + 1) (content @ p) (transfer_acknowledge s' (of_nat (length p)))"
proof -
  have inv: "transfer_inv b s" and st: "bt_status s = Bulk_Active" "bt_unacknowledged s = 0"
      "bt_next_chunk_index s = k" "bt_hashed s = content"
    using s by (simp_all add: drained_def)
  have r: "unat (bt_received s) = length content" and id: "bt_transfer_id s = bb_transfer_id b"
    using inv st by (simp_all add: transfer_inv_def)
  have len: "unat (of_nat (length p) :: u64) = length p"
    using chunk_length_word [of c] p by (simp add: c_def)
  have lim: "length content + length p \<le> 536870912"
    using validated_limit [of b] inv room by (simp add: transfer_inv_def fits_def)
  then have sum: "unat (bt_received s + of_nat (length p)) = length content + length p"
    by (subst unat_add_no_wrap) (simp_all add: r len)
  have off: "of_nat (length content) = bt_received s"
    by (simp flip: r)
  let ?s' = "s\<lparr>bt_hashed := content @ p, bt_received := bt_received s + of_nat (length p),
      bt_unacknowledged := of_nat (length p), bt_next_chunk_index := k + 1\<rparr>"
  have acc: "accept_chunk s c = Inr ?s'"
    using inv st id p room lim len r off sum
    by (auto simp: accept_chunk_def ensure_active_def ensure_same_transfer_def c_def checked_add_def Let_def
        transfer_inv_def fits_def word_less_nat_alt bulk_consts split: option.splits)
  have "drained b (k + 1) (content @ p) (transfer_acknowledge ?s' (of_nat (length p)))"
    using transfer_inv_apply [OF transfer_inv_chunk [OF inv acc], of sha "Op_Acknowledge (of_nat (length p))" for sha] st
    by (simp add: drained_def transfer_acknowledge_def saturating_sub_def)
  with acc show thesis by (rule that)
qed

lemma bulk_run_append:
  "bulk_run sha s (xs @ ys) = (case bulk_run sha s xs of (t, a) \<Rightarrow> case bulk_run sha t ys of (u, a') \<Rightarrow> (u, a @ a'))"
  by (induction xs arbitrary: s) (auto split: sum.splits prod.splits)

lemma drained_run:
  assumes "drained b k content s" "list_all (\<lambda>p. length p \<le> MAX_BULK_CHUNK_PAYLOAD_BYTES) ps"
    "fits b (length content + length (concat ps))"
  shows "\<exists>t n. bulk_run sha s (send_ops (bb_transfer_id b) k (of_nat (length content)) ps)
      = (t, send_ops (bb_transfer_id b) k (of_nat (length content)) ps) \<and> drained b n (content @ concat ps) t"
  using assms
proof (induction ps arbitrary: k content s)
  case Nil
  then show ?case by auto
next
  case (Cons p ps)
  have room: "fits b (length content + length p)" and size: "length p \<le> MAX_BULK_CHUNK_PAYLOAD_BYTES"
    using Cons.prems(2,3) by (auto simp: fits_def split: option.splits)
  obtain s' where acc: "accept_chunk s \<lparr>bc_transfer_id = bb_transfer_id b, bc_chunk_index = k,
      bc_offset = of_nat (length content), bc_bytes = p\<rparr> = Inr s'"
    and d: "drained b (k + 1) (content @ p) (transfer_acknowledge s' (of_nat (length p)))"
    using drained_step [OF Cons.prems(1) size room] by blast
  show ?case
    using Cons.IH [OF d] Cons.prems(2,3) acc by (auto simp: add.assoc)
qed

section \<open>Properties\<close>

text \<open>
  C17. A completed transfer delivered exactly what was declared. When a receiver, after any operations,
  stands in \<open>Completed\<close>, the concatenated bytes of the chunks it accepted have the declared length and
  the declared digest where these were declared, the length and digest of the accepted completion, and
  respect the ceiling of the class; the accepted chunks are contiguous in index and in offset from 0.
\<close>

theorem bulk_completed_integrity:
  assumes "transfer_begin b = Inr s" and "bulk_run sha s ops = (t, accepted)" and "bt_status t = Bulk_Completed"
  defines "content \<equiv> concat (map op_bytes accepted)"
  shows "(\<forall>n. bb_total_length b = Some n \<longrightarrow> length content = unat n)
    \<and> (\<forall>d. bb_expected_sha256 b = Some d \<longrightarrow> sha content = d)
    \<and> (\<exists>c. Op_Complete c \<in> set accepted \<and> unat (bf_final_length c) = length content \<and> bf_sha256 c = sha content)
    \<and> length content \<le> unat (mime_max_total_length (bb_mime_class b))
    \<and> contiguous 0 0 (op_chunks accepted)"
proof -
  have inv: "transfer_inv b s"
    by (rule transfer_inv_begin [OF assms(1)])
  have s: "bt_hashed s = []" "bt_status s \<noteq> Bulk_Completed" "bt_next_chunk_index s = 0" "bt_received s = 0"
    using assms(1) by (simp_all add: transfer_begin_iff)
  have t: "transfer_inv b t" "bt_hashed t = content"
    using bulk_run_keeps [OF inv assms(2)] s(1) by (simp_all add: content_def)
  then have "unat (bt_received t) = length content" "bt_received t \<le> mime_max_total_length (bb_mime_class b)"
    by (auto simp: transfer_inv_def begin_validate_def split: if_splits)
  then show ?thesis
    using bulk_run_completed [OF inv assms(2,3) s(2)] t bulk_run_contiguous [OF assms(2)] s(3,4)
    by (auto simp: transfer_inv_def word_le_nat_alt)
qed

text \<open>
  The receiver is bounded and its end is final. After any operations the received bytes stay within
  the class ceiling, the global 512 MiB ceiling and the declared length, at most 4 MiB are
  unacknowledged, and once the transfer is completed or aborted no further operation changes anything
  and no chunk or completion is accepted.
\<close>

theorem bulk_receiver_bounded:
  assumes "transfer_begin b = Inr s" and "bulk_run sha s ops = (t, accepted)"
  shows "unat (bt_received t) \<le> unat (mime_max_total_length (bb_mime_class b))
    \<and> unat (bt_received t) \<le> 512 * 1024 * 1024
    \<and> (\<forall>n. bb_total_length b = Some n \<longrightarrow> bt_received t \<le> n)
    \<and> unat (bt_unacknowledged t) \<le> 4 * 1024 * 1024
    \<and> (bt_status t \<noteq> Bulk_Active \<longrightarrow>
         (\<forall>more. fst (bulk_run sha t more) = t \<and> op_chunks (snd (bulk_run sha t more)) = []
            \<and> (\<forall>c. Op_Complete c \<notin> set (snd (bulk_run sha t more)))))"
proof -
  have t: "transfer_inv b t"
    using bulk_run_keeps [OF transfer_inv_begin [OF assms(1)] assms(2)] by blast
  then have "bt_received t \<le> mime_max_total_length (bb_mime_class b)"
    by (auto simp: transfer_inv_def begin_validate_def split: if_splits)
  moreover have "fst (bulk_run sha t more) = t \<and> op_chunks (snd (bulk_run sha t more)) = []
      \<and> (\<forall>c. Op_Complete c \<notin> set (snd (bulk_run sha t more)))" if "bt_status t \<noteq> Bulk_Active" for more
    using terminal_run [of t sha more] that t by (cases "bulk_run sha t more") (simp add: transfer_inv_def)
  ultimately show ?thesis
    using t by (auto simp: transfer_inv_def word_le_nat_alt)
qed

text \<open>
  C18. Transfers complete. Content of a legal length, cut into any pieces that fit a chunk and sent in
  order with each piece acknowledged, is accepted in full and the transfer completes, whether its length
  and digest were declared or not.
\<close>

theorem bulk_transfer_completes:
  assumes "list_all (\<lambda>p. length p \<le> MAX_BULK_CHUNK_PAYLOAD_BYTES) ps"
    and "length (concat ps) \<le> unat (mime_max_total_length m)"
    and "b = begin_unknown_length i m \<or> b = begin_known_length i m (of_nat (length (concat ps))) (sha (concat ps))"
  defines "ops \<equiv> send_ops i 0 0 ps @ [Op_Complete \<lparr>bf_transfer_id = i,
      bf_final_length = of_nat (length (concat ps)), bf_sha256 = sha (concat ps)\<rparr>]"
  shows "\<exists>s t. transfer_begin b = Inr s \<and> bulk_run sha s ops = (t, ops) \<and> bt_status t = Bulk_Completed"
proof -
  have lim: "unat (mime_max_total_length m) < 2 ^ 64"
    using unsigned_less [of "mime_max_total_length m", where 'a = nat] by simp
  then have len: "unat (of_nat (length (concat ps)) :: u64) = length (concat ps)"
    using assms(2) by (intro unat_of_nat_small) simp
  have valid: "begin_validate b = Inr ()" and room: "fits b (length (concat ps))" and i: "bb_transfer_id b = i"
    using assms(2,3) len
    by (auto simp: begin_validate_def begin_unknown_length_def begin_known_length_def fits_def word_less_nat_alt
        word_le_nat_alt)
  then obtain s where s: "transfer_begin b = Inr s"
    by (auto simp: transfer_begin_iff)
  then have "drained b 0 [] s"
    using transfer_inv_begin [OF s] by (simp add: drained_def transfer_begin_iff)
  from drained_run [OF this assms(1), of sha] room i
  obtain t n where run: "bulk_run sha s (send_ops i 0 0 ps) = (t, send_ops i 0 0 ps)" and d: "drained b n (concat ps) t"
    by auto
  have "bt_received t = of_nat (length (concat ps))"
    using d len by (simp add: drained_def transfer_inv_def word_unat_eq_iff)
  moreover have "bt_declared_total t = bb_total_length b" "bt_expected_sha256 t = bb_expected_sha256 b"
      "bt_transfer_id t = i" "bt_status t = Bulk_Active" "bt_hashed t = concat ps"
    using d i by (simp_all add: drained_def transfer_inv_def)
  ultimately have "transfer_complete sha t \<lparr>bf_transfer_id = i, bf_final_length = of_nat (length (concat ps)),
      bf_sha256 = sha (concat ps)\<rparr> = Inr (t\<lparr>bt_status := Bulk_Completed, bt_unacknowledged := 0\<rparr>)"
    using assms(3)
    by (auto simp: transfer_complete_def ensure_active_def ensure_same_transfer_def begin_unknown_length_def
        begin_known_length_def)
  then show ?thesis
    using s run by (simp add: ops_def bulk_run_append)
qed

text \<open>
  The bulk codec is exact. The decoder accepts exactly the encodings of well-formed messages, every
  well-formed message has one, and it fits the payload of a bulk frame.
\<close>

theorem bulk_codec_exact:
  "(bulk_decode bs = Inr m \<longleftrightarrow> bulk_ok m \<and> bulk_encode m = Inr bs)
   \<and> (bulk_ok m \<longrightarrow> (\<exists>out. bulk_encode m = Inr out \<and> length out \<le> lane_max_payload_bytes Lane_Bulk
        \<and> bulk_decode out = Inr m))"
  using bulk_codec.dec_iff [of bs m] bulk_codec.roundtrip [of m] bulk_encode_length
  unfolding lane_max_payload_bytes.simps by blast

section \<open>Witnesses\<close>

definition sample_pieces :: "bytes list" where "sample_pieces = [[1, 2], [3]]"

definition sample_begin :: bulk_begin where "sample_begin = begin_known_length 5 Mime_Opaque 3 9"

definition sample_ops :: "bulk_op list" where
  "sample_ops = send_ops 5 0 0 sample_pieces
     @ [Op_Complete \<lparr>bf_transfer_id = 5, bf_final_length = 3, bf_sha256 = 9\<rparr>]"

definition sample_transfer :: "nat \<Rightarrow> u64 \<Rightarrow> bytes \<Rightarrow> bulk_status \<Rightarrow> bulk_transfer" where
  "sample_transfer k n hashed st =
     \<lparr>bt_transfer_id = 5, bt_mime_class = Mime_Opaque, bt_declared_total = Some 3, bt_expected_sha256 = Some 9,
      bt_max_total_length = 536870912, bt_next_chunk_index = of_nat k, bt_received = n, bt_unacknowledged = 0,
      bt_window_limit = 4194304, bt_hashed = hashed, bt_status = st\<rparr>"

lemma sample_status [simp]: "bt_status (sample_transfer k n hashed st) = st"
  by (simp add: sample_transfer_def)

lemma sample_begins: "transfer_begin sample_begin = Inr (sample_transfer 0 0 [] Bulk_Active)"
  by code_simp

lemma sample_completes:
  "bulk_run (\<lambda>_. 9) (sample_transfer 0 0 [] Bulk_Active) sample_ops
     = (sample_transfer 2 3 [1, 2, 3] Bulk_Completed, sample_ops)"
  by (simp add: sample_transfer_def sample_ops_def sample_pieces_def accept_chunk_def transfer_complete_def
      transfer_acknowledge_def ensure_active_def ensure_same_transfer_def checked_add_def saturating_sub_def
      bulk_consts MAX_TRANSFER_BYTES_def)

theorem bulk_completed_integrity_witness:
  "bt_status (fst (bulk_run (\<lambda>_. 9) (sample_transfer 0 0 [] Bulk_Active) sample_ops)) = Bulk_Completed
   \<and> length (concat (map op_bytes sample_ops)) = 3 \<and> contiguous 0 0 (op_chunks sample_ops)"
  using bulk_completed_integrity [OF sample_begins sample_completes]
  by (simp add: sample_completes sample_begin_def begin_known_length_def)

theorem bulk_receiver_bounded_witness:
  "bt_status (sample_transfer 2 3 [1, 2, 3] Bulk_Completed) \<noteq> Bulk_Active
   \<and> fst (bulk_run (\<lambda>_. 9) (sample_transfer 2 3 [1, 2, 3] Bulk_Completed) sample_ops)
     = sample_transfer 2 3 [1, 2, 3] Bulk_Completed"
  using bulk_receiver_bounded [OF sample_begins sample_completes] by simp

theorem bulk_transfer_completes_witness:
  "\<exists>s t. transfer_begin (begin_unknown_length 5 Mime_Image) = Inr s
     \<and> bulk_run (\<lambda>_. 9) s sample_ops = (t, sample_ops) \<and> bt_status t = Bulk_Completed"
  using bulk_transfer_completes [of sample_pieces Mime_Image "begin_unknown_length 5 Mime_Image" 5 "\<lambda>_. 9"]
  by (simp add: sample_pieces_def sample_ops_def bulk_consts mime_max_total_length_def PASTE_MAX_SINGLE_IMAGE_BYTES_def
      MAX_TRANSFER_BYTES_def)

theorem bulk_codec_exact_witness:
  "bulk_decode (4 # be128 5 @ [1]) = Inr (Bulk_Abort \<lparr>ba_transfer_id = 5, ba_reason = Abort_Cancelled\<rparr>)"
  using bulk_codec_exact [of "4 # be128 5 @ [1]" "Bulk_Abort \<lparr>ba_transfer_id = 5, ba_reason = Abort_Cancelled\<rparr>"]
  by (simp add: bulk_consts)

end
