(* ===== verification/Wire_Scalar.thy ===== *)
theory Wire_Scalar
  imports Remote_Contracts
begin

text \<open>
  Scalars on text wires: the canonical decimal spelling of a \<open>u64\<close>
  (\<open>crates/cockpit-proto/src/wire_scalar.rs\<close>), the lowercase hex spelling of a digest (module \<open>hex32\<close> of
  \<open>crates/cockpit-proto/src/remote_transport/bulk.rs\<close>), and the integer parsing and printing of the
  Rust standard library that they and the leases rely on.

  A Rust string is the list of its bytes. Shown here: a text parses to a number exactly when it is the
  number's one canonical spelling, and likewise for digests.
\<close>

section \<open>Definitions\<close>

subsection \<open>Integers of the standard library\<close>

definition is_ascii_digit :: "char \<Rightarrow> bool" where
  "is_ascii_digit c \<longleftrightarrow> 48 \<le> (of_char c :: nat) \<and> (of_char c :: nat) \<le> 57"

definition digit_value :: "char \<Rightarrow> nat" where
  "digit_value c = of_char c - 48"

definition digit_char :: "nat \<Rightarrow> char" where
  "digit_char d = char_of (48 + d)"

text \<open>A nonempty run of decimal digits, as a number.\<close>

definition parse_digits :: "string \<Rightarrow> nat option" where
  "parse_digits s =
     (if s = [] \<or> \<not> list_all is_ascii_digit s then None
      else Some (foldl (\<lambda>a c. a * 10 + digit_value c) 0 s))"

text \<open>\<open>str::parse::<u64>\<close>: an optional plus sign, digits, and no overflow.\<close>

definition parse_u64 :: "string \<Rightarrow> u64 option" where
  "parse_u64 s =
     (case parse_digits (if s \<noteq> [] \<and> hd s = CHR ''+'' then tl s else s) of
        Some n \<Rightarrow> if n < 2 ^ 64 then Some (of_nat n) else None
      | None \<Rightarrow> None)"

text \<open>\<open>str::parse::<i64>\<close>: an optional sign, digits, and no overflow, as a two's complement word.\<close>

definition parse_i64 :: "string \<Rightarrow> u64 option" where
  "parse_i64 s =
     (if s \<noteq> [] \<and> hd s = CHR ''-''
      then (case parse_digits (tl s) of
              Some n \<Rightarrow> if n \<le> 2 ^ 63 then Some (- of_nat n) else None
            | None \<Rightarrow> None)
      else (case parse_digits (if s \<noteq> [] \<and> hd s = CHR ''+'' then tl s else s) of
              Some n \<Rightarrow> if n < 2 ^ 63 then Some (of_nat n) else None
            | None \<Rightarrow> None))"

text \<open>\<open>to_string\<close> of an unsigned integer.\<close>

fun show_nat :: "nat \<Rightarrow> string" where
  "show_nat n = (if n < 10 then [digit_char n] else show_nat (n div 10) @ [digit_char (n mod 10)])"

declare show_nat.simps [simp del]

subsection \<open>Canonical decimals\<close>

datatype scalar_error = Spelling_Invalid | Decimal_Overflow | Decimal_Noncanonical | Needs_8_Bytes

definition format_canonical_u64_decimal_string :: "u64 \<Rightarrow> string" where
  "format_canonical_u64_decimal_string v = show_nat (unat v)"

definition parse_canonical_u64_decimal_string :: "string \<Rightarrow> scalar_error + u64" where
  "parse_canonical_u64_decimal_string s =
     (if s = [] \<or> (s \<noteq> ''0'' \<and> hd s = CHR ''0'') then Inl Spelling_Invalid
      else if length s > 20 \<or> \<not> list_all is_ascii_digit s then Inl Spelling_Invalid
      else rbind (ok_or Decimal_Overflow (parse_u64 s)) (\<lambda>v.
        if show_nat (unat v) \<noteq> s then Inl Decimal_Noncanonical else Inr v))"

text \<open>The nominal type \<open>CanonicalU64DecimalStringV1\<close>: the spelling it holds.\<close>

definition canonical_parse :: "string \<Rightarrow> scalar_error + string" where
  "canonical_parse s =
     rbind (parse_canonical_u64_decimal_string s) (\<lambda>v. Inr (format_canonical_u64_decimal_string v))"

definition canonical_from_u64 :: "u64 \<Rightarrow> string" where
  "canonical_from_u64 v = format_canonical_u64_decimal_string v"

text \<open>\<open>None\<close> is the \<open>expect\<close> that fails.\<close>

definition canonical_value :: "string \<Rightarrow> u64 option" where
  "canonical_value s = (case parse_canonical_u64_decimal_string s of Inr v \<Rightarrow> Some v | Inl _ \<Rightarrow> None)"

definition encode_u64_be :: "u64 \<Rightarrow> bytes" where
  "encode_u64_be v = be64 v"

definition decode_u64_be :: "bytes \<Rightarrow> scalar_error + u64" where
  "decode_u64_be bs = (if length bs \<noteq> 8 then Inl Needs_8_Bytes else Inr (rd64 0 bs))"

subsection \<open>Digests in hex\<close>

datatype hex_error = Not_64_Hex | Not_Lowercase | Hex_Invalid

definition hex_char :: "nat \<Rightarrow> char" where
  "hex_char d = char_of (if d < 10 then 48 + d else 87 + d)"

definition is_ascii_hexdigit :: "char \<Rightarrow> bool" where
  "is_ascii_hexdigit c \<longleftrightarrow>
     (let n = of_char c :: nat in (48 \<le> n \<and> n \<le> 57) \<or> (65 \<le> n \<and> n \<le> 70) \<or> (97 \<le> n \<and> n \<le> 102))"

definition is_ascii_uppercase :: "char \<Rightarrow> bool" where
  "is_ascii_uppercase c \<longleftrightarrow> (let n = of_char c :: nat in 65 \<le> n \<and> n \<le> 90)"

text \<open>The value of a hex digit, in either case.\<close>

definition hex_value :: "char \<Rightarrow> nat option" where
  "hex_value c =
     (let n = of_char c :: nat in
      if 48 \<le> n \<and> n \<le> 57 then Some (n - 48)
      else if 97 \<le> n \<and> n \<le> 102 then Some (n - 87)
      else if 65 \<le> n \<and> n \<le> 70 then Some (n - 55) else None)"

text \<open>\<open>format!("{byte:02x}")\<close>, and \<open>u8::from_str_radix\<close> on two characters that are hex digits.\<close>

definition hex_byte :: "u8 \<Rightarrow> string" where
  "hex_byte b = [hex_char (unat b div 16), hex_char (unat b mod 16)]"

definition byte_of_hex :: "char \<Rightarrow> char \<Rightarrow> u8 option" where
  "byte_of_hex a b =
     (case (hex_value a, hex_value b) of (Some x, Some y) \<Rightarrow> Some (of_nat (x * 16 + y)) | _ \<Rightarrow> None)"

definition hex32_serialize :: "digest32 \<Rightarrow> string" where
  "hex32_serialize d = concat (map hex_byte (be256 d))"

fun hex_bytes :: "string \<Rightarrow> u8 list option" where
  "hex_bytes (a # b # s) =
     (case (byte_of_hex a b, hex_bytes s) of (Some x, Some xs) \<Rightarrow> Some (x # xs) | _ \<Rightarrow> None)"
| "hex_bytes s = Some []"

definition hex32_deserialize :: "string \<Rightarrow> hex_error + digest32" where
  "hex32_deserialize s =
     (if length s \<noteq> 64 \<or> \<not> list_all is_ascii_hexdigit s then Inl Not_64_Hex
      else if list_ex is_ascii_uppercase s then Inl Not_Lowercase
      else rbind (ok_or Hex_Invalid (hex_bytes s)) (\<lambda>bs. Inr (rd256 0 bs)))"

section \<open>Decimals\<close>

lemma digit_char_value: "d < 10 \<Longrightarrow> digit_value (digit_char d) = d \<and> is_ascii_digit (digit_char d)"
  by (simp add: digit_value_def digit_char_def is_ascii_digit_def)

lemma char_zero: "CHR ''0'' = char_of (48 :: nat)"
  by code_simp

lemma digit_char_zero: "d < 10 \<Longrightarrow> digit_char d = CHR ''0'' \<longleftrightarrow> d = 0"
  using digit_char_value [of d] digit_char_value [of 0]
  by (auto simp: digit_char_def char_zero)

lemma show_nat_digits: "show_nat n \<noteq> [] \<and> list_all is_ascii_digit (show_nat n)"
proof (induction n rule: show_nat.induct)
  case (1 n)
  then show ?case by (simp add: show_nat.simps [of n] digit_char_value)
qed

lemma foldl_digits: "foldl (\<lambda>a c. a * 10 + digit_value c) 0 (show_nat n) = n"
proof (induction n rule: show_nat.induct)
  case (1 n)
  then show ?case
    by (subst show_nat.simps) (auto simp: digit_char_value)
qed

lemma parse_show_nat: "parse_digits (show_nat n) = Some n"
  using show_nat_digits [of n] foldl_digits [of n] by (simp add: parse_digits_def)

lemma show_nat_length: "n < 10 ^ Suc k \<Longrightarrow> length (show_nat n) \<le> Suc k"
proof (induction k arbitrary: n)
  case 0
  then show ?case by (subst show_nat.simps) simp
next
  case (Suc k)
  have "n div 10 < 10 ^ Suc k" using Suc.prems by (simp add: less_mult_imp_div_less mult.commute)
  then show ?case using Suc.IH [of "n div 10"] by (subst show_nat.simps) simp
qed

lemma show_nat_hd: "n \<noteq> 0 \<Longrightarrow> hd (show_nat n) \<noteq> CHR ''0''"
proof (induction n rule: show_nat.induct)
  case (1 n)
  show ?case
  proof (cases "n < 10")
    case True
    then show ?thesis using "1.prems" by (subst show_nat.simps) (simp add: digit_char_zero)
  next
    case False
    then have "hd (show_nat (n div 10)) \<noteq> CHR ''0''" using "1.IH" by simp
    then show ?thesis using False show_nat_digits [of "n div 10"] by (subst show_nat.simps) simp
  qed
qed

lemma show_nat_zero: "show_nat 0 = ''0''"
  by (subst show_nat.simps) (simp add: digit_char_def char_zero)

lemma parse_u64_show: "parse_u64 (show_nat (unat v)) = Some v"
proof -
  have "hd (show_nat (unat v)) \<noteq> CHR ''+''"
  proof
    assume "hd (show_nat (unat v)) = CHR ''+''"
    moreover have "is_ascii_digit (hd (show_nat (unat v)))"
      using show_nat_digits [of "unat v"] by (cases "show_nat (unat v)") auto
    ultimately show False by (simp add: is_ascii_digit_def)
  qed
  moreover have "unat v < 2 ^ 64" using unsigned_less [of v, where 'a = nat] by simp
  ultimately show ?thesis by (simp add: parse_u64_def parse_show_nat)
qed

lemma canonical_u64_iff: "parse_canonical_u64_decimal_string s = Inr v \<longleftrightarrow> s = format_canonical_u64_decimal_string v"
proof
  assume "parse_canonical_u64_decimal_string s = Inr v"
  then show "s = format_canonical_u64_decimal_string v"
    by (auto simp: parse_canonical_u64_decimal_string_def format_canonical_u64_decimal_string_def result_simps split: if_splits)
next
  assume s: "s = format_canonical_u64_decimal_string v"
  have "unat v < 10 ^ Suc 19" using unsigned_less [of v, where 'a = nat] by simp
  then have "length (show_nat (unat v)) \<le> 20" using show_nat_length by fastforce
  moreover have "show_nat (unat v) \<noteq> ''0'' \<longrightarrow> hd (show_nat (unat v)) \<noteq> CHR ''0''"
    using show_nat_hd [of "unat v"] show_nat_zero by (cases "unat v = 0") auto
  ultimately show "parse_canonical_u64_decimal_string s = Inr v"
    using show_nat_digits [of "unat v"]
    by (auto simp: parse_canonical_u64_decimal_string_def s format_canonical_u64_decimal_string_def parse_u64_show)
qed

interpretation u64_be: wire_codec "\<lambda>v. Inr (encode_u64_be v)" decode_u64_be "\<lambda>_. True"
  by unfold_locales (auto simp: encode_u64_be_def decode_u64_be_def be_simps bslice_all split: if_splits)

section \<open>Hex\<close>

lemma hex_char_facts:
  assumes "d < 16"
  shows "hex_value (hex_char d) = Some d" "is_ascii_hexdigit (hex_char d)" "\<not> is_ascii_uppercase (hex_char d)"
  using assms by (auto simp: hex_value_def hex_char_def is_ascii_hexdigit_def is_ascii_uppercase_def Let_def)

lemma hex_char_of_value:
  assumes "hex_value c = Some d" "\<not> is_ascii_uppercase c"
  shows "hex_char d = c" "d < 16"
  using assms by (auto simp: hex_value_def hex_char_def is_ascii_uppercase_def Let_def split: if_splits)

lemma byte_of_hex_byte:
  "byte_of_hex (hex_char (unat b div 16)) (hex_char (unat b mod 16)) = Some b"
proof -
  have "unat b < 256" using unsigned_less [of b, where 'a = nat] by simp
  then show ?thesis by (simp add: byte_of_hex_def hex_char_facts)
qed

lemma hex_bytes_serialize: "hex_bytes (concat (map hex_byte bs)) = Some bs"
  by (induction bs) (simp_all add: hex_byte_def byte_of_hex_byte)

lemma hex_byte_of:
  assumes "byte_of_hex a b = Some x" "\<not> is_ascii_uppercase a" "\<not> is_ascii_uppercase b"
  shows "hex_byte x = [a, b]"
proof -
  obtain p q where pq: "hex_value a = Some p" "hex_value b = Some q" "x = of_nat (p * 16 + q)"
    using assms(1) by (auto simp: byte_of_hex_def split: option.splits)
  note ch = hex_char_of_value [OF pq(1) assms(2)] hex_char_of_value [OF pq(2) assms(3)]
  then have "unat x = p * 16 + q" unfolding pq(3) by (intro unat_of_nat_small) simp
  then show ?thesis using ch by (simp add: hex_byte_def)
qed

lemma serialize_hex_bytes:
  assumes "hex_bytes s = Some bs" "\<not> list_ex is_ascii_uppercase s" "even (length s)"
  shows "concat (map hex_byte bs) = s \<and> length bs * 2 = length s"
  using assms
proof (induction s arbitrary: bs rule: hex_bytes.induct)
  case (1 a b s)
  then obtain x xs where "byte_of_hex a b = Some x" "hex_bytes s = Some xs" "bs = x # xs"
    by (auto split: option.splits)
  then show ?case using 1 hex_byte_of [of a b x] by auto
qed auto

lemma hex32_iff: "hex32_deserialize s = Inr d \<longleftrightarrow> s = hex32_serialize d"
proof
  assume a: "hex32_deserialize s = Inr d"
  then obtain bs where bs: "hex_bytes s = Some bs" "d = rd256 0 bs" "length s = 64" "\<not> list_ex is_ascii_uppercase s"
    by (auto simp: hex32_deserialize_def result_simps split: if_splits)
  then have "concat (map hex_byte bs) = s" "length bs = 32" using serialize_hex_bytes [of s bs] by auto
  then show "s = hex32_serialize d" by (simp add: hex32_serialize_def bs(2) be_simps)
next
  assume s: "s = hex32_serialize d"
  have "length (concat (map hex_byte bs)) = 2 * length bs \<and> list_all is_ascii_hexdigit (concat (map hex_byte bs))
      \<and> \<not> list_ex is_ascii_uppercase (concat (map hex_byte bs))" for bs :: bytes
  proof (induction bs)
    case (Cons b bs)
    have "unat b < 256" using unsigned_less [of b, where 'a = nat] by simp
    then show ?case using Cons by (simp add: hex_byte_def hex_char_facts)
  qed simp
  from this [of "be256 d"] show "hex32_deserialize s = Inr d"
    by (simp add: hex32_deserialize_def s hex32_serialize_def hex_bytes_serialize be_simps)
qed

section \<open>Properties\<close>

text \<open>
  C23. One spelling per scalar. A text parses as a \<open>u64\<close> exactly when it is that number's decimal
  spelling without sign, leading zero or other noise, and as a digest exactly when it is its 64 lowercase
  hex digits; parsing a canonical text and asking for its value never fails.
\<close>

theorem scalar_spellings_exact:
  "(parse_canonical_u64_decimal_string s = Inr v \<longleftrightarrow> s = format_canonical_u64_decimal_string v)
   \<and> canonical_value (canonical_from_u64 v) = Some v
   \<and> (canonical_parse s = Inr s' \<longleftrightarrow> s' = s \<and> (\<exists>v. s = canonical_from_u64 v))
   \<and> (hex32_deserialize t = Inr d \<longleftrightarrow> t = hex32_serialize d)
   \<and> (decode_u64_be bs = Inr v \<longleftrightarrow> encode_u64_be v = bs)"
proof -
  have "canonical_value (canonical_from_u64 v) = Some v"
    using canonical_u64_iff [of "canonical_from_u64 v" v] by (simp add: canonical_value_def canonical_from_u64_def)
  then show ?thesis
    using u64_be.dec_iff [of bs v]
    by (auto simp: canonical_u64_iff hex32_iff canonical_parse_def canonical_from_u64_def result_simps)
qed

end
