(* ===== verification/Transfer_Reference.thy ===== *)
theory Transfer_Reference
  imports Remote_Bulk Wire_Scalar
begin

text \<open>
  Bulk transfer references (\<open>RemoteBulkTransferRef\<close> of
  \<open>crates/cockpit-proto/src/remote_transport/bulk.rs\<close>): what an application message carries instead of
  the transferred bytes. The total length is a canonical decimal string. Reading its value contains an
  \<open>expect\<close>; the model returns \<open>None\<close> where that would panic.

  Shown here: a reference converted from the wire never panics, and exists exactly when its length is within
  the ceiling of its class.
\<close>

section \<open>Definitions\<close>

record bulk_transfer_ref =
  br_transfer_id :: id16
  br_total_length :: string
  br_sha256 :: digest32
  br_mime_class :: mime_class

record transfer_ref_wire =
  rw_transfer_id :: id16
  rw_total_length :: string
  rw_sha256 :: digest32
  rw_mime_class :: mime_class

definition total_length_value :: "bulk_transfer_ref \<Rightarrow> u64 option" where
  "total_length_value r = canonical_value (br_total_length r)"

definition transfer_ref_validate :: "bulk_transfer_ref \<Rightarrow> (remote_transport_error + unit) option" where
  "transfer_ref_validate r =
     (case canonical_value (br_total_length r) of
        None \<Rightarrow> None
      | Some v \<Rightarrow> Some (if v > mime_max_total_length (br_mime_class r) then Inl (bulk_err BulkClassLimit) else Inr ()))"

definition transfer_ref_new ::
    "id16 \<Rightarrow> u64 \<Rightarrow> digest32 \<Rightarrow> mime_class \<Rightarrow> (remote_transport_error + bulk_transfer_ref) option" where
  "transfer_ref_new i total_length digest c =
     (let reference = \<lparr>br_transfer_id = i, br_total_length = canonical_from_u64 total_length, br_sha256 = digest,
                       br_mime_class = c\<rparr> in
      map_option (\<lambda>checked. rbind checked (\<lambda>_. Inr reference)) (transfer_ref_validate reference))"

definition transfer_ref_try_from :: "transfer_ref_wire \<Rightarrow> (remote_transport_error + bulk_transfer_ref) option" where
  "transfer_ref_try_from w =
     (case canonical_value (rw_total_length w) of
        None \<Rightarrow> None
      | Some v \<Rightarrow> transfer_ref_new (rw_transfer_id w) v (rw_sha256 w) (rw_mime_class w))"

section \<open>Properties\<close>

lemma canonical_value_from: "canonical_value (canonical_from_u64 v) = Some v"
  using canonical_u64_iff [of "canonical_from_u64 v" v] by (simp add: canonical_value_def canonical_from_u64_def)

lemma transfer_ref_new_eq:
  "transfer_ref_new i v d c =
     Some (if v \<le> mime_max_total_length c
       then Inr \<lparr>br_transfer_id = i, br_total_length = canonical_from_u64 v, br_sha256 = d, br_mime_class = c\<rparr>
       else Inl (bulk_err BulkClassLimit))"
  by (simp add: transfer_ref_new_def transfer_ref_validate_def canonical_value_from Let_def not_le)

text \<open>
  C22. A reference off the wire is typed by its class. Once the length text has been parsed, the conversion
  never panics. It refuses a length above the ceiling of the class with the class-limit error. Otherwise it
  gives the reference with exactly the fields of the wire, whose length can be read back and whose
  validation succeeds.
\<close>

theorem transfer_ref_well_typed:
  assumes "canonical_parse s = Inr t"
  shows "\<exists>v. canonical_value t = Some v \<and> s = t
     \<and> (let r = \<lparr>br_transfer_id = i, br_total_length = t, br_sha256 = d, br_mime_class = c\<rparr> in
        transfer_ref_try_from \<lparr>rw_transfer_id = i, rw_total_length = t, rw_sha256 = d, rw_mime_class = c\<rparr>
          = Some (if v \<le> mime_max_total_length c then Inr r else Inl (bulk_err BulkClassLimit))
        \<and> (v \<le> mime_max_total_length c \<longleftrightarrow> transfer_ref_validate r = Some (Inr ())) \<and> total_length_value r = Some v)"
proof -
  obtain v where v: "parse_canonical_u64_decimal_string s = Inr v" "t = format_canonical_u64_decimal_string v"
    using assms by (auto simp: canonical_parse_def result_simps)
  then have st: "s = t" by (simp add: canonical_u64_iff)
  then have val: "canonical_value t = Some v" using v by (simp add: canonical_value_def)
  have "t = canonical_from_u64 v" using v by (simp add: canonical_from_u64_def)
  with val st show ?thesis
    by (intro exI [of _ v])
      (auto simp: transfer_ref_try_from_def transfer_ref_new_eq transfer_ref_validate_def total_length_value_def
        Let_def not_less not_le)
qed

theorem transfer_ref_well_typed_witness:
  "transfer_ref_try_from \<lparr>rw_transfer_id = 5, rw_total_length = ''0'', rw_sha256 = 9, rw_mime_class = Mime_Image\<rparr>
     = Some (Inr \<lparr>br_transfer_id = 5, br_total_length = ''0'', br_sha256 = 9, br_mime_class = Mime_Image\<rparr>)"
proof -
  have z: "parse_canonical_u64_decimal_string ''0'' = Inr 0"
    by (simp add: canonical_u64_iff format_canonical_u64_decimal_string_def show_nat_zero)
  then have "canonical_parse ''0'' = Inr ''0''"
    by (simp add: canonical_parse_def format_canonical_u64_decimal_string_def show_nat_zero)
  from transfer_ref_well_typed [OF this, of 5 9 Mime_Image] z show ?thesis
    by (simp add: canonical_value_def Let_def)
qed

end
