(* ===== verification/Transport_Selection.thy ===== *)
theory Transport_Selection
  imports Remote_Contracts
begin

text \<open>
  Transport selection: the vocabulary and policy constants
  (\<open>crates/cockpit-proto/src/remote_transport_selection.rs\<close>) and the pure reducer that plans, starts, retires
  and routes over the children of a logical attachment
  (\<open>crates/cockpit-core/src/daemon/transport_selection.rs\<close>).

  The reducer state is the record \<open>selection\<close>; a Rust \<open>HashMap\<close> is a map, \<open>find_child_mut\<close> is the first
  match of the child list, and the increment of an attempt id or epoch wraps at 64 bits, as in a release
  build. Times are part of the inputs and are not read by the reducer, as in the code. The golden trace of
  the same file is a projection of inputs and actions.
\<close>

section \<open>Definitions\<close>

subsection \<open>Vocabulary and policy constants\<close>

datatype transport_kind = Webrtc | Websocket
datatype transport_preference = Prefer_Auto | Prefer_Webrtc | Prefer_Websocket

datatype parent_state =
    Parent_Planning
  | Parent_Establishing
  | Parent_Active
  | Parent_Degraded
  | Parent_Denied
  | Parent_Failed
  | Parent_Cancelled
  | Parent_Superseded

datatype child_state =
    Child_Pending
  | Child_Authenticating
  | Child_Active
  | Child_Degraded
  | Child_Closing
  | Child_Closed

datatype durable_lifecycle = Durable_Current | Durable_ReplacementPending | Durable_Draining

datatype reachability_class =
    IceNoCandidatePair
  | IceTimeout
  | NetworkUnreachable
  | TurnUnreachable
  | IceDisconnected

fun is_closed_fallback_trigger :: "reachability_class \<Rightarrow> bool" where
  "is_closed_fallback_trigger IceNoCandidatePair = True"
| "is_closed_fallback_trigger IceTimeout = True"
| "is_closed_fallback_trigger NetworkUnreachable = True"
| "is_closed_fallback_trigger TurnUnreachable = True"
| "is_closed_fallback_trigger IceDisconnected = False"

datatype health_tier = Tier_Healthy | Tier_Degraded | Tier_Failed
datatype routing_class = Route_Control | Route_Interactive | Route_Bulk

datatype second_child_reason =
    PreferredPathRecovery
  | NetworkHandoff
  | OperatorForce
  | DegradedPathReplacement
  | CredentialRotation

datatype transport_denial =
    KindNotAuthorized
  | KindNotAvailable
  | IpConsentDenied
  | QuotaExhausted
  | ClientCapabilityMissing
  | PreferenceDisallowed
  | PolicyDenied
  | RelayRequiredTurnUnavailable
  | RetryBudgetExhausted
  | DatabaseOutage
  | SecurityFailure
  | ChildCapExceeded

fun transport_kind_as_str :: "transport_kind \<Rightarrow> string" where
  "transport_kind_as_str Webrtc = ''webrtc''"
| "transport_kind_as_str Websocket = ''websocket''"

definition MIN_DEADLINE_SECS :: u64 where "MIN_DEADLINE_SECS = 3"
definition MAX_DEADLINE_SECS :: u64 where "MAX_DEADLINE_SECS = 30"
definition ICE_DISCONNECTED_FALLBACK_MISSES :: u32 where "ICE_DISCONNECTED_FALLBACK_MISSES = 3"
definition WEBRTC_HEALTHY_CONSECUTIVE_SUCCESSES :: u32 where "WEBRTC_HEALTHY_CONSECUTIVE_SUCCESSES = 2"
definition WEBRTC_DEGRADED_MISSES :: u32 where "WEBRTC_DEGRADED_MISSES = 3"
definition WEBRTC_DEGRADED_BUFFER_BYTES :: u64 where "WEBRTC_DEGRADED_BUFFER_BYTES = 4 * 1024 * 1024"
definition WEBRTC_FAILED_MISSES :: u32 where "WEBRTC_FAILED_MISSES = 6"
definition WEBSOCKET_DEGRADED_UNACKED_AGE_SECS :: u64 where "WEBSOCKET_DEGRADED_UNACKED_AGE_SECS = 3"
definition WEBSOCKET_DEGRADED_BUFFER_BYTES :: u64 where "WEBSOCKET_DEGRADED_BUFFER_BYTES = 4 * 1024 * 1024"
definition WEBSOCKET_FAILED_RETRANSMISSIONS :: u32 where "WEBSOCKET_FAILED_RETRANSMISSIONS = 3"
definition RECOVERY_CONSECUTIVE_HEALTHY :: u32 where "RECOVERY_CONSECUTIVE_HEALTHY = 2"
definition MAX_ROUTED_CURRENT_CHILDREN :: nat where "MAX_ROUTED_CURRENT_CHILDREN = 2"
definition MAX_ORDINARY_PENDING_CHILDREN :: nat where "MAX_ORDINARY_PENDING_CHILDREN = 2"
definition MAX_PENDING_PER_KIND :: nat where "MAX_PENDING_PER_KIND = 1"
definition MAX_PHYSICAL_CHILDREN_TURN_EXCEPTION :: nat where "MAX_PHYSICAL_CHILDREN_TURN_EXCEPTION = 3"
definition MAX_RESERVATIONS_PER_TRAIN :: u32 where "MAX_RESERVATIONS_PER_TRAIN = 4"
definition MAX_COMMITTED_RESERVATIONS_ROLLING :: u32 where "MAX_COMMITTED_RESERVATIONS_ROLLING = 12"
definition ROLLING_WINDOW_SECS :: u64 where "ROLLING_WINDOW_SECS = 3600"
definition RETRY_DELAY_SECS :: u64 where "RETRY_DELAY_SECS = 1"
definition MAX_SAME_KIND_RETRIES :: u32 where "MAX_SAME_KIND_RETRIES = 1"

lemmas selection_consts = MIN_DEADLINE_SECS_def MAX_DEADLINE_SECS_def ICE_DISCONNECTED_FALLBACK_MISSES_def
  WEBRTC_HEALTHY_CONSECUTIVE_SUCCESSES_def WEBRTC_DEGRADED_MISSES_def WEBRTC_DEGRADED_BUFFER_BYTES_def
  WEBRTC_FAILED_MISSES_def WEBSOCKET_DEGRADED_UNACKED_AGE_SECS_def WEBSOCKET_DEGRADED_BUFFER_BYTES_def
  WEBSOCKET_FAILED_RETRANSMISSIONS_def RECOVERY_CONSECUTIVE_HEALTHY_def MAX_ROUTED_CURRENT_CHILDREN_def
  MAX_ORDINARY_PENDING_CHILDREN_def MAX_PENDING_PER_KIND_def MAX_PHYSICAL_CHILDREN_TURN_EXCEPTION_def
  MAX_RESERVATIONS_PER_TRAIN_def MAX_COMMITTED_RESERVATIONS_ROLLING_def ROLLING_WINDOW_SECS_def
  RETRY_DELAY_SECS_def MAX_SAME_KIND_RETRIES_def

record reservation_key =
  rk_tenant_id :: string
  rk_account_id :: string
  rk_client_device_id :: string
  rk_logical_attachment_id :: string
  rk_train_id :: id16
  rk_transport_kind :: transport_kind
  rk_child_attempt :: u64

datatype reservation_outcome = Outcome_Active | Outcome_Cancelled | Outcome_Failed | Outcome_ReservationFailed

record retry_reservation =
  rr_key :: reservation_key
  rr_reserved_at_ms :: u64
  rr_expires_at_ms :: u64
  rr_terminal :: bool
  rr_terminal_outcome :: "reservation_outcome option"

definition validate_deadline_secs :: "u64 \<Rightarrow> transport_denial + unit" where
  "validate_deadline_secs secs =
     (if MIN_DEADLINE_SECS \<le> secs \<and> secs \<le> MAX_DEADLINE_SECS then Inr () else Inl PolicyDenied)"

subsection \<open>Authorization and plan\<close>

datatype consent_capability = Consent_DirectAllowed | Consent_RelayOnly | Consent_Unavailable
datatype participant_privacy = Privacy_DirectAllowed | Privacy_TurnRequired | Privacy_RelayOnly

record transport_authorization =
  ta_webrtc_authorized :: bool
  ta_websocket_authorized :: bool
  ta_ip_consent :: consent_capability
  ta_participant_privacy :: participant_privacy
  ta_turn_available :: bool
  ta_quota_available :: bool
  ta_client_supports_webrtc :: bool
  ta_client_supports_websocket :: bool

record authorized_plan =
  pl_allowed_kinds :: "transport_kind list"
  pl_denials :: "transport_denial list"
  pl_preference :: transport_preference
  pl_turn_required :: bool

definition admit_kind :: "bool \<Rightarrow> bool \<Rightarrow> bool \<Rightarrow> transport_denial option" where
  "admit_kind authorized client_supported turn_gate_denied =
     (if \<not> authorized then Some KindNotAuthorized
      else if \<not> client_supported then Some ClientCapabilityMissing
      else if turn_gate_denied then Some RelayRequiredTurnUnavailable
      else None)"

definition push_kind ::
    "transport_kind \<Rightarrow> transport_denial option \<Rightarrow> transport_kind list \<times> transport_denial list
       \<Rightarrow> transport_kind list \<times> transport_denial list" where
  "push_kind kind admission acc =
     (case acc of (allowed, denials) \<Rightarrow>
        (case admission of None \<Rightarrow> (allowed @ [kind], denials) | Some d \<Rightarrow> (allowed, denials @ [d])))"

definition compute_authorized_plan :: "transport_authorization \<Rightarrow> transport_preference \<Rightarrow> authorized_plan" where
  "compute_authorized_plan auth preference =
     (if ta_ip_consent auth = Consent_Unavailable
      then \<lparr>pl_allowed_kinds = [], pl_denials = [IpConsentDenied], pl_preference = preference, pl_turn_required = False\<rparr>
      else
        let turn_forced = (ta_ip_consent auth = Consent_RelayOnly \<or> ta_participant_privacy auth = Privacy_RelayOnly
                           \<or> ta_participant_privacy auth = Privacy_TurnRequired);
            webrtc = admit_kind (ta_webrtc_authorized auth) (ta_client_supports_webrtc auth)
                       (turn_forced \<and> \<not> ta_turn_available auth);
            websocket = admit_kind (ta_websocket_authorized auth) (ta_client_supports_websocket auth) False;
            (allowed, denials) =
              (case preference of
                 Prefer_Auto \<Rightarrow> push_kind Websocket websocket (push_kind Webrtc webrtc ([], []))
               | Prefer_Webrtc \<Rightarrow>
                   (case webrtc of None \<Rightarrow> ([Webrtc], []) | Some d \<Rightarrow> ([], [d, PreferenceDisallowed]))
               | Prefer_Websocket \<Rightarrow>
                   (case websocket of None \<Rightarrow> ([Websocket], []) | Some d \<Rightarrow> ([], [d, PreferenceDisallowed])));
            (allowed, denials) = (if \<not> ta_quota_available auth then ([], denials @ [QuotaExhausted]) else (allowed, denials));
            denials = (if allowed = [] \<and> denials = [] then denials @ [PolicyDenied] else denials)
        in \<lparr>pl_allowed_kinds = allowed, pl_denials = remdups_adj denials, pl_preference = preference,
            pl_turn_required = turn_forced\<rparr>)"

subsection \<open>Children\<close>

record child_record =
  ch_attempt :: u64
  ch_kind :: transport_kind
  ch_epoch :: u64
  ch_state :: child_state
  ch_durable :: durable_lifecycle
  ch_consecutive_healthy :: u32
  ch_consecutive_misses :: u32
  ch_buffered_bytes :: u64
  ch_high_buffer_probes :: u32
  ch_oldest_unacked_age_secs :: u64
  ch_retransmissions :: u32
  ch_cancelled :: bool
  ch_retries_used :: u32
  ch_ice_disconnected_misses :: u32
  ch_health_tier :: health_tier
  ch_replacement_peer :: "u64 option"

definition new_pending :: "u64 \<Rightarrow> transport_kind \<Rightarrow> u64 \<Rightarrow> child_record" where
  "new_pending child_attempt kind epoch =
     \<lparr>ch_attempt = child_attempt, ch_kind = kind, ch_epoch = epoch, ch_state = Child_Pending,
      ch_durable = Durable_Current, ch_consecutive_healthy = 0, ch_consecutive_misses = 0, ch_buffered_bytes = 0,
      ch_high_buffer_probes = 0, ch_oldest_unacked_age_secs = 0, ch_retransmissions = 0, ch_cancelled = False,
      ch_retries_used = 0, ch_ice_disconnected_misses = 0, ch_health_tier = Tier_Degraded,
      ch_replacement_peer = None\<rparr>"

definition is_routed_current :: "child_record \<Rightarrow> bool" where
  "is_routed_current c \<longleftrightarrow> ch_durable c = Durable_Current \<and> (ch_state c = Child_Active \<or> ch_state c = Child_Degraded)"

definition is_ordinary_pending :: "child_record \<Rightarrow> bool" where
  "is_ordinary_pending c \<longleftrightarrow> (ch_state c = Child_Pending \<or> ch_state c = Child_Authenticating)
     \<and> ch_durable c = Durable_Current \<and> ch_replacement_peer c = None"

definition compute_health_tier :: "child_record \<Rightarrow> health_tier" where
  "compute_health_tier c =
     (case ch_kind c of
        Webrtc \<Rightarrow>
          if ch_consecutive_misses c \<ge> WEBRTC_FAILED_MISSES then Tier_Failed
          else if ch_consecutive_misses c \<ge> WEBRTC_DEGRADED_MISSES \<or> ch_high_buffer_probes c \<ge> 2 then Tier_Degraded
          else if ch_consecutive_healthy c \<ge> WEBRTC_HEALTHY_CONSECUTIVE_SUCCESSES then Tier_Healthy
          else Tier_Degraded
      | Websocket \<Rightarrow>
          if ch_retransmissions c \<ge> WEBSOCKET_FAILED_RETRANSMISSIONS then Tier_Failed
          else if ch_oldest_unacked_age_secs c \<ge> WEBSOCKET_DEGRADED_UNACKED_AGE_SECS
                  \<or> ch_buffered_bytes c \<ge> WEBSOCKET_DEGRADED_BUFFER_BYTES then Tier_Degraded
          else if ch_consecutive_healthy c \<ge> 2 then Tier_Healthy
          else Tier_Degraded)"

definition recompute_health :: "child_record \<Rightarrow> child_record" where
  "recompute_health c = c\<lparr>ch_health_tier := compute_health_tier c\<rparr>"

definition writable_bytes :: "child_record \<Rightarrow> u64" where
  "writable_bytes c = saturating_sub (16 * 1024 * 1024) (ch_buffered_bytes c)"

subsection \<open>Selection state\<close>

record pending_retry =
  pr_kind :: transport_kind
  pr_child_attempt :: u64
  pr_epoch :: u64

datatype replacement_phase = Phase_ReplacementPending | Phase_Draining | Phase_Removed

record replacement_pair =
  rp_current :: u64
  rp_replacement :: u64
  rp_phase :: replacement_phase
  rp_lease_id :: id16

record selection =
  ts_parent_state :: parent_state
  ts_children :: "child_record list"
  ts_preference :: transport_preference
  ts_authorization :: transport_authorization
  ts_train_id :: id16
  ts_next_child_attempt :: u64
  ts_next_epoch :: u64
  ts_deadline_secs :: u64
  ts_websocket_fallback_started :: bool
  ts_deadline_timer_armed :: bool
  ts_retry_timer_armed :: bool
  ts_pending_retry :: "pending_retry option"
  ts_turn_replacement :: "replacement_pair option"
  ts_delivery_assignments :: "string \<rightharpoonup> u64"
  ts_cancelled :: bool
  ts_kind_retries_used :: "transport_kind \<rightharpoonup> u32"

definition selection_new ::
    "transport_authorization \<Rightarrow> transport_preference \<Rightarrow> id16 \<Rightarrow> u64 \<Rightarrow> selection" where
  "selection_new authorization preference train_id deadline_secs =
     \<lparr>ts_parent_state = Parent_Planning, ts_children = [], ts_preference = preference,
      ts_authorization = authorization, ts_train_id = train_id, ts_next_child_attempt = 1, ts_next_epoch = 1,
      ts_deadline_secs = deadline_secs, ts_websocket_fallback_started = False, ts_deadline_timer_armed = False,
      ts_retry_timer_armed = False, ts_pending_retry = None, ts_turn_replacement = None,
      ts_delivery_assignments = Map.empty, ts_cancelled = False, ts_kind_retries_used = Map.empty\<rparr>"

definition count_kind_in_state :: "selection \<Rightarrow> transport_kind \<Rightarrow> child_state \<Rightarrow> nat" where
  "count_kind_in_state s kind st = length (filter (\<lambda>c. ch_kind c = kind \<and> ch_state c = st) (ts_children s))"

definition count_routed_current :: "selection \<Rightarrow> nat" where
  "count_routed_current s = length (filter is_routed_current (ts_children s))"

definition count_ordinary_pending :: "selection \<Rightarrow> nat" where
  "count_ordinary_pending s = length (filter is_ordinary_pending (ts_children s))"

definition count_ordinary_pending_kind :: "selection \<Rightarrow> transport_kind \<Rightarrow> nat" where
  "count_ordinary_pending_kind s kind =
     length (filter (\<lambda>c. is_ordinary_pending c \<and> ch_kind c = kind) (ts_children s))"

definition count_physical_children :: "selection \<Rightarrow> nat" where
  "count_physical_children s = length (filter (\<lambda>c. ch_state c \<noteq> Child_Closed) (ts_children s))"

definition find_child :: "selection \<Rightarrow> u64 \<Rightarrow> child_record option" where
  "find_child s i = find (\<lambda>c. ch_attempt c = i) (ts_children s)"

text \<open>What a caller of \<open>find_child_mut\<close> does: change the first child with the id.\<close>

fun update_first :: "u64 \<Rightarrow> (child_record \<Rightarrow> child_record) \<Rightarrow> child_record list \<Rightarrow> child_record list" where
  "update_first i f [] = []"
| "update_first i f (c # cs) = (if ch_attempt c = i then f c # cs else c # update_first i f cs)"

definition update_child :: "selection \<Rightarrow> u64 \<Rightarrow> (child_record \<Rightarrow> child_record) \<Rightarrow> selection" where
  "update_child s i f = s\<lparr>ts_children := update_first i f (ts_children s)\<rparr>"

definition current_child_of_kind :: "selection \<Rightarrow> transport_kind \<Rightarrow> child_record option" where
  "current_child_of_kind s kind = find (\<lambda>c. ch_kind c = kind \<and> is_routed_current c) (ts_children s)"

definition kind_retries :: "selection \<Rightarrow> transport_kind \<Rightarrow> u32" where
  "kind_retries s kind = (case ts_kind_retries_used s kind of Some n \<Rightarrow> n | None \<Rightarrow> 0)"

definition increment_kind_retry :: "selection \<Rightarrow> transport_kind \<Rightarrow> selection" where
  "increment_kind_retry s kind = s\<lparr>ts_kind_retries_used := (ts_kind_retries_used s)(kind \<mapsto> kind_retries s kind + 1)\<rparr>"

definition alloc_child_attempt :: "selection \<Rightarrow> selection \<times> u64" where
  "alloc_child_attempt s = (s\<lparr>ts_next_child_attempt := ts_next_child_attempt s + 1\<rparr>, ts_next_child_attempt s)"

definition alloc_epoch :: "selection \<Rightarrow> selection \<times> u64" where
  "alloc_epoch s = (s\<lparr>ts_next_epoch := ts_next_epoch s + 1\<rparr>, ts_next_epoch s)"

definition push_child :: "selection \<Rightarrow> child_record \<Rightarrow> selection" where
  "push_child s c = s\<lparr>ts_children := ts_children s @ [c]\<rparr>"

subsection \<open>Inputs and actions\<close>

datatype selection_input =
    In_StartPlan
  | In_ChildActive u64 u64
  | In_ChildReachability u64 reachability_class
  | In_WebrtcProbe u64 bool u64
  | In_WebsocketAckProgress u64 u64 u64 u32
  | In_DeadlineFired u64
  | In_RetryDelayFired u64
  | In_ChildClosed u64 bool
  | In_RequestSecondChild second_child_reason u64
  | In_CredentialRotationLead u64
  | In_SupervisorCutoverAck u64 u64
  | In_SecondLease u64
  | In_CloseChild u64
  | In_Cancel
  | In_Supersede
  | In_RouteRequest string routing_class
  | In_ReservationResult reservation_key "transport_denial + retry_reservation"
  | In_ChildSecurityFailure u64

datatype selection_action =
    StartChild u64 transport_kind u64
  | ArmDeadlineTimer u64
  | ArmRetryDelay u64
  | CancelChild u64
  | CloseChild u64
  | StartReplacementPending u64 transport_kind u64
  | EmitCutoverLease u64 u64 id16
  | RouteDelivery string u64
  | Deny transport_denial
  | ReserveRetry reservation_key
  | ParentTransition parent_state
  | Inert

subsection \<open>The reducer\<close>

text \<open>Allocating an attempt and an epoch and pushing a pending child, as every start does.\<close>

definition start_pending :: "selection \<Rightarrow> transport_kind \<Rightarrow> selection \<times> selection_action" where
  "start_pending s kind =
     (let (s, i) = alloc_child_attempt s; (s, epoch) = alloc_epoch s in
      (push_child s (new_pending i kind epoch), StartChild i kind epoch))"

definition reduce_start_plan :: "selection \<Rightarrow> selection \<times> selection_action list" where
  "reduce_start_plan s =
     (let plan = compute_authorized_plan (ts_authorization s) (ts_preference s) in
      if pl_allowed_kinds plan = []
      then (s\<lparr>ts_parent_state := Parent_Denied\<rparr>,
            [Deny (case pl_denials plan of d # _ \<Rightarrow> d | [] \<Rightarrow> PolicyDenied), ParentTransition Parent_Denied])
      else
        let s = s\<lparr>ts_parent_state := Parent_Establishing\<rparr>; actions = [ParentTransition Parent_Establishing] in
        case ts_preference s of
          Prefer_Auto \<Rightarrow>
            if Webrtc \<in> set (pl_allowed_kinds plan)
            then let (s, start) = start_pending s Webrtc; s = s\<lparr>ts_deadline_timer_armed := True\<rparr> in
                 (s, actions @ [start, ArmDeadlineTimer (ts_deadline_secs s)])
            else if Websocket \<in> set (pl_allowed_kinds plan)
            then let (s, start) = start_pending s Websocket in (s, actions @ [start])
            else (s, actions)
        | Prefer_Webrtc \<Rightarrow>
            if Webrtc \<in> set (pl_allowed_kinds plan)
            then let (s, start) = start_pending s Webrtc in (s, actions @ [start])
            else (s, actions)
        | Prefer_Websocket \<Rightarrow>
            if Websocket \<in> set (pl_allowed_kinds plan)
            then let (s, start) = start_pending s Websocket in (s, actions @ [start])
            else (s, actions))"

definition reduce_child_active :: "selection \<Rightarrow> u64 \<Rightarrow> selection \<times> selection_action list" where
  "reduce_child_active s i =
     (case find_child s i of
        None \<Rightarrow> (s, [Inert])
      | Some child \<Rightarrow>
          if ch_cancelled child then (s, [Inert])
          else
            let s = update_child s i (\<lambda>c. recompute_health
                      (c\<lparr>ch_state := Child_Active, ch_consecutive_healthy := saturating_add (ch_consecutive_healthy c) 1\<rparr>)) in
            if list_ex (\<lambda>c. ch_state c = Child_Active) (ts_children s)
            then let old_state = ts_parent_state s; s = s\<lparr>ts_parent_state := Parent_Active\<rparr> in
                 if old_state \<noteq> Parent_Active then (s, [ParentTransition Parent_Active]) else (s, [])
            else (s, []))"

definition maybe_start_websocket_fallback :: "selection \<Rightarrow> selection \<times> selection_action list" where
  "maybe_start_websocket_fallback s =
     (if ts_preference s \<noteq> Prefer_Auto then (s, [])
      else if ts_websocket_fallback_started s then (s, [])
      else if Websocket \<notin> set (pl_allowed_kinds (compute_authorized_plan (ts_authorization s) (ts_preference s)))
      then (s, [])
      else if count_ordinary_pending_kind s Websocket \<ge> MAX_PENDING_PER_KIND then (s, [])
      else if count_ordinary_pending s \<ge> MAX_ORDINARY_PENDING_CHILDREN then (s, [])
      else
        let s = s\<lparr>ts_websocket_fallback_started := True, ts_deadline_timer_armed := False\<rparr>;
            (s, start) = start_pending s Websocket in
        (s, [start]))"

definition reduce_child_reachability ::
    "selection \<Rightarrow> u64 \<Rightarrow> reachability_class \<Rightarrow> selection \<times> selection_action list" where
  "reduce_child_reachability s i cls =
     (case find_child s i of
        None \<Rightarrow> (s, [Inert])
      | Some child \<Rightarrow>
          if ch_cancelled child then (s, [Inert])
          else if cls = IceDisconnected
          then
            let misses = saturating_add (ch_ice_disconnected_misses child) 1;
                s = update_child s i (\<lambda>c. recompute_health
                      (c\<lparr>ch_ice_disconnected_misses := misses, ch_state := Child_Degraded\<rparr>)) in
            if misses \<ge> ICE_DISCONNECTED_FALLBACK_MISSES then maybe_start_websocket_fallback s else (s, [])
          else
            maybe_start_websocket_fallback
              (update_child s i (\<lambda>c. recompute_health (c\<lparr>ch_state := Child_Closed\<rparr>))))"

text \<open>The child after its counters and health tier are updated, and then its state by the tier.\<close>

definition probed :: "bool \<Rightarrow> u64 \<Rightarrow> child_record \<Rightarrow> child_record" where
  "probed success buffered_bytes c =
     (let c = c\<lparr>ch_buffered_bytes := buffered_bytes\<rparr>;
          c = (if success
               then c\<lparr>ch_consecutive_misses := 0, ch_ice_disconnected_misses := 0,
                      ch_consecutive_healthy := saturating_add (ch_consecutive_healthy c) 1\<rparr>
               else c\<lparr>ch_consecutive_healthy := 0, ch_consecutive_misses := saturating_add (ch_consecutive_misses c) 1\<rparr>);
          c = (if buffered_bytes \<ge> WEBRTC_DEGRADED_BUFFER_BYTES
               then c\<lparr>ch_high_buffer_probes := saturating_add (ch_high_buffer_probes c) 1\<rparr>
               else c\<lparr>ch_high_buffer_probes := 0\<rparr>) in
      recompute_health c)"

definition acked :: "u64 \<Rightarrow> u64 \<Rightarrow> u32 \<Rightarrow> child_record \<Rightarrow> child_record" where
  "acked age buffered_bytes retransmissions c =
     (let c = c\<lparr>ch_oldest_unacked_age_secs := age, ch_buffered_bytes := buffered_bytes,
                ch_retransmissions := retransmissions\<rparr>;
          c = (if age = 0 \<and> buffered_bytes < WEBSOCKET_DEGRADED_BUFFER_BYTES
               then c\<lparr>ch_consecutive_healthy := saturating_add (ch_consecutive_healthy c) 1\<rparr>
               else c\<lparr>ch_consecutive_healthy := 0\<rparr>) in
      recompute_health c)"

definition settle_state :: "child_record \<Rightarrow> child_record" where
  "settle_state c =
     (case ch_health_tier c of
        Tier_Failed \<Rightarrow> c\<lparr>ch_state := Child_Closed\<rparr>
      | Tier_Degraded \<Rightarrow> if ch_state c = Child_Active then c\<lparr>ch_state := Child_Degraded\<rparr> else c
      | Tier_Healthy \<Rightarrow>
          if ch_state c = Child_Degraded \<and> ch_consecutive_healthy c \<ge> RECOVERY_CONSECUTIVE_HEALTHY
          then c\<lparr>ch_state := Child_Active\<rparr> else c)"

definition reduce_webrtc_probe :: "selection \<Rightarrow> u64 \<Rightarrow> bool \<Rightarrow> u64 \<Rightarrow> selection \<times> selection_action list" where
  "reduce_webrtc_probe s i success buffered_bytes =
     (case find_child s i of
        None \<Rightarrow> (s, [Inert])
      | Some child \<Rightarrow>
          if ch_cancelled child \<or> ch_kind child \<noteq> Webrtc then (s, [Inert])
          else
            let s = update_child s i (\<lambda>c. settle_state (probed success buffered_bytes c)) in
            if ch_health_tier (probed success buffered_bytes child) = Tier_Failed \<and> ts_preference s = Prefer_Auto
            then maybe_start_websocket_fallback s
            else (s, []))"

definition reduce_websocket_ack ::
    "selection \<Rightarrow> u64 \<Rightarrow> u64 \<Rightarrow> u64 \<Rightarrow> u32 \<Rightarrow> selection \<times> selection_action list" where
  "reduce_websocket_ack s i age buffered_bytes retransmissions =
     (case find_child s i of
        None \<Rightarrow> (s, [Inert])
      | Some child \<Rightarrow>
          if ch_cancelled child \<or> ch_kind child \<noteq> Websocket then (s, [Inert])
          else (update_child s i (\<lambda>c. settle_state (acked age buffered_bytes retransmissions c)), [Inert]))"

definition reduce_deadline_fired :: "selection \<Rightarrow> selection \<times> selection_action list" where
  "reduce_deadline_fired s =
     (let s = s\<lparr>ts_deadline_timer_armed := False\<rparr> in
      if list_ex (\<lambda>c. ch_kind c = Webrtc \<and> ch_state c = Child_Active) (ts_children s) then (s, [Inert])
      else maybe_start_websocket_fallback s)"

definition reduce_retry_delay_fired :: "selection \<Rightarrow> selection \<times> selection_action list" where
  "reduce_retry_delay_fired s =
     (let s = s\<lparr>ts_retry_timer_armed := False\<rparr> in
      case ts_pending_retry s of
        None \<Rightarrow> (s, [Inert])
      | Some pending \<Rightarrow>
          let s = s\<lparr>ts_pending_retry := None\<rparr> in
          if count_ordinary_pending_kind s (pr_kind pending) \<ge> MAX_PENDING_PER_KIND then (s, [Inert])
          else if count_ordinary_pending s \<ge> MAX_ORDINARY_PENDING_CHILDREN then (s, [Inert])
          else
            (push_child s (new_pending (pr_child_attempt pending) (pr_kind pending) (pr_epoch pending)),
             [StartChild (pr_child_attempt pending) (pr_kind pending) (pr_epoch pending)]))"

definition any_active :: "selection \<Rightarrow> bool" where
  "any_active s \<longleftrightarrow> list_ex (\<lambda>c. ch_state c = Child_Active \<or> ch_state c = Child_Degraded) (ts_children s)"

definition any_pending :: "selection \<Rightarrow> bool" where
  "any_pending s \<longleftrightarrow> list_ex (\<lambda>c. ch_state c = Child_Pending \<or> ch_state c = Child_Authenticating) (ts_children s)"

definition reduce_child_closed :: "selection \<Rightarrow> u64 \<Rightarrow> bool \<Rightarrow> selection \<times> selection_action list" where
  "reduce_child_closed s i security_failure =
     (case find_child s i of
        None \<Rightarrow> (s, [Inert])
      | Some child \<Rightarrow>
          let s = update_child s i (\<lambda>c. recompute_health (c\<lparr>ch_state := Child_Closed\<rparr>)); kind = ch_kind child in
          if security_failure then (s, [])
          else if \<not> any_active s \<and> \<not> any_pending s
          then if kind_retries s kind < MAX_SAME_KIND_RETRIES \<and> \<not> ts_cancelled s
               then
                 let s = increment_kind_retry s kind; (s, i) = alloc_child_attempt s; (s, epoch) = alloc_epoch s in
                 (s\<lparr>ts_pending_retry := Some \<lparr>pr_kind = kind, pr_child_attempt = i, pr_epoch = epoch\<rparr>,
                    ts_retry_timer_armed := True\<rparr>, [ArmRetryDelay RETRY_DELAY_SECS])
               else (s\<lparr>ts_parent_state := Parent_Failed\<rparr>, [ParentTransition Parent_Failed])
          else (s, []))"

definition reduce_request_second_child :: "selection \<Rightarrow> second_child_reason \<Rightarrow> selection \<times> selection_action list" where
  "reduce_request_second_child s reason =
     (if \<not> list_ex (\<lambda>c. ch_state c = Child_Active) (ts_children s) then (s, [Deny PolicyDenied])
      else
        let existing_kinds = map ch_kind (filter is_routed_current (ts_children s));
            allowed_kinds = pl_allowed_kinds (compute_authorized_plan (ts_authorization s) (ts_preference s));
            target =
              (if Webrtc \<notin> set existing_kinds \<and> Webrtc \<in> set allowed_kinds then Some Webrtc
               else if Websocket \<notin> set existing_kinds \<and> Websocket \<in> set allowed_kinds then Some Websocket
               else None) in
        case target of
          None \<Rightarrow> (s, [Deny ChildCapExceeded])
        | Some target_kind \<Rightarrow>
            if count_ordinary_pending_kind s target_kind \<ge> MAX_PENDING_PER_KIND then (s, [Deny ChildCapExceeded])
            else if count_ordinary_pending s \<ge> MAX_ORDINARY_PENDING_CHILDREN then (s, [Deny ChildCapExceeded])
            else if count_routed_current s \<ge> MAX_ROUTED_CURRENT_CHILDREN then (s, [Deny ChildCapExceeded])
            else
              let (s, i) = alloc_child_attempt s; (s, epoch) = alloc_epoch s; child = new_pending i target_kind epoch in
              if reason = CredentialRotation \<and> target_kind = Webrtc
              then (push_child s (child\<lparr>ch_durable := Durable_ReplacementPending\<rparr>),
                    [StartReplacementPending i target_kind epoch])
              else (push_child s child, [StartChild i target_kind epoch]))"

text \<open>The lease id \<open>[0xAB; 16]\<close>.\<close>

definition replacement_lease_id :: id16 where
  "replacement_lease_id = rd128 0 (replicate 16 0xAB)"

definition reduce_credential_rotation :: "selection \<Rightarrow> selection \<times> selection_action list" where
  "reduce_credential_rotation s =
     (case find (\<lambda>c. ch_kind c = Webrtc \<and> ch_durable c = Durable_Current \<and> ch_state c \<noteq> Child_Closed) (ts_children s) of
        None \<Rightarrow> (s, [Inert])
      | Some current \<Rightarrow>
          if ts_turn_replacement s \<noteq> None then (s, [Inert])
          else if count_physical_children s \<ge> MAX_PHYSICAL_CHILDREN_TURN_EXCEPTION then (s, [Deny ChildCapExceeded])
          else
            let current_id = ch_attempt current; (s, i) = alloc_child_attempt s; (s, epoch) = alloc_epoch s;
                s = push_child s ((new_pending i Webrtc epoch)\<lparr>ch_durable := Durable_ReplacementPending,
                                                             ch_replacement_peer := Some current_id\<rparr>);
                s = s\<lparr>ts_turn_replacement := Some \<lparr>rp_current = current_id, rp_replacement = i,
                        rp_phase = Phase_ReplacementPending, rp_lease_id = replacement_lease_id\<rparr>\<rparr>;
                s = update_child s current_id (\<lambda>c. c\<lparr>ch_replacement_peer := Some i\<rparr>) in
            (s, [StartReplacementPending i Webrtc epoch]))"

definition reduce_supervisor_cutover_ack :: "selection \<Rightarrow> u64 \<Rightarrow> u64 \<Rightarrow> selection \<times> selection_action list" where
  "reduce_supervisor_cutover_ack s old new =
     (case ts_turn_replacement s of
        None \<Rightarrow> (s, [Inert])
      | Some pair \<Rightarrow>
          if rp_current pair \<noteq> old \<or> rp_replacement pair \<noteq> new then (s, [Inert])
          else
            let s = update_child s new (\<lambda>c. recompute_health (c\<lparr>ch_durable := Durable_Current, ch_state := Child_Active\<rparr>));
                s = update_child s old (\<lambda>c. c\<lparr>ch_durable := Durable_Draining, ch_state := Child_Closing\<rparr>);
                s = s\<lparr>ts_turn_replacement := Some (pair\<lparr>rp_phase := Phase_Draining\<rparr>)\<rparr> in
            (s, [EmitCutoverLease new old (rp_lease_id pair)]))"

definition reduce_second_lease :: "selection \<Rightarrow> u64 \<Rightarrow> selection \<times> selection_action list" where
  "reduce_second_lease s old =
     (case ts_turn_replacement s of
        None \<Rightarrow> (s, [Inert])
      | Some pair \<Rightarrow>
          if old \<noteq> rp_current pair then (s, [Inert])
          else
            let s = update_child s old (\<lambda>c. c\<lparr>ch_state := Child_Closed, ch_durable := Durable_Draining\<rparr>) in
            (s\<lparr>ts_turn_replacement := None\<rparr>, [CloseChild old]))"

definition reduce_close_child :: "selection \<Rightarrow> u64 \<Rightarrow> selection \<times> selection_action list" where
  "reduce_close_child s i =
     (case find_child s i of
        None \<Rightarrow> (s, [Inert])
      | Some _ \<Rightarrow> (update_child s i (\<lambda>c. c\<lparr>ch_state := Child_Closing\<rparr>), [CloseChild i]))"

definition open_children :: "child_record list \<Rightarrow> child_record list" where
  "open_children cs = filter (\<lambda>c. ch_state c \<noteq> Child_Closed) cs"

definition reduce_cancel :: "selection \<Rightarrow> selection \<times> selection_action list" where
  "reduce_cancel s =
     (s\<lparr>ts_cancelled := True, ts_deadline_timer_armed := False, ts_retry_timer_armed := False,
        ts_pending_retry := None,
        ts_children := map (\<lambda>c. if ch_state c \<noteq> Child_Closed then c\<lparr>ch_cancelled := True, ch_state := Child_Closing\<rparr> else c)
                         (ts_children s),
        ts_parent_state := Parent_Cancelled\<rparr>,
      map (\<lambda>c. CancelChild (ch_attempt c)) (open_children (ts_children s)) @ [ParentTransition Parent_Cancelled])"

definition reduce_supersede :: "selection \<Rightarrow> selection \<times> selection_action list" where
  "reduce_supersede s =
     (s\<lparr>ts_cancelled := True, ts_deadline_timer_armed := False, ts_retry_timer_armed := False,
        ts_pending_retry := None, ts_parent_state := Parent_Superseded\<rparr>,
      map (\<lambda>c. CancelChild (ch_attempt c)) (open_children (ts_children s)) @ [ParentTransition Parent_Superseded])"

text \<open>
  \<open>min_by_key\<close> keeps the first of equal minima and \<open>max_by\<close> the last of equal maxima; \<open>lt\<close> is the
  strict order of the comparison.
\<close>

definition min_first :: "('a \<Rightarrow> 'a \<Rightarrow> bool) \<Rightarrow> 'a list \<Rightarrow> 'a option" where
  "min_first lt xs = (case xs of [] \<Rightarrow> None | x # xs \<Rightarrow> Some (foldl (\<lambda>a b. if lt b a then b else a) x xs))"

definition max_last :: "('a \<Rightarrow> 'a \<Rightarrow> bool) \<Rightarrow> 'a list \<Rightarrow> 'a option" where
  "max_last lt xs = (case xs of [] \<Rightarrow> None | x # xs \<Rightarrow> Some (foldl (\<lambda>a b. if lt b a then a else b) x xs))"

definition healthy :: "child_record \<Rightarrow> bool" where
  "healthy c \<longleftrightarrow> ch_health_tier c = Tier_Healthy"

definition control_less :: "child_record \<Rightarrow> child_record \<Rightarrow> bool" where
  "control_less a b \<longleftrightarrow> (healthy a \<and> \<not> healthy b) \<or> (healthy a = healthy b \<and> ch_epoch a < ch_epoch b)"

definition epoch_less :: "child_record \<Rightarrow> child_record \<Rightarrow> bool" where
  "epoch_less a b \<longleftrightarrow> ch_epoch a < ch_epoch b"

definition bulk_less :: "child_record \<Rightarrow> child_record \<Rightarrow> bool" where
  "bulk_less a b \<longleftrightarrow>
     writable_bytes a < writable_bytes b
     \<or> (writable_bytes a = writable_bytes b
        \<and> ((ch_kind b \<noteq> Webrtc \<and> ch_kind a = Webrtc)
           \<or> ((ch_kind b = Webrtc) = (ch_kind a = Webrtc) \<and> ch_epoch b < ch_epoch a)))"

definition select_route :: "selection \<Rightarrow> routing_class \<Rightarrow> u64 option" where
  "select_route s routing_class =
     (let current_children = filter is_routed_current (ts_children s) in
      if current_children = [] then None
      else case routing_class of
        Route_Control \<Rightarrow> map_option ch_attempt (min_first control_less current_children)
      | Route_Interactive \<Rightarrow>
          (case find (\<lambda>c. ch_kind c = Webrtc \<and> healthy c) current_children of
             Some c \<Rightarrow> Some (ch_attempt c)
           | None \<Rightarrow>
             (case find (\<lambda>c. ch_kind c = Websocket \<and> healthy c) current_children of
                Some c \<Rightarrow> Some (ch_attempt c)
              | None \<Rightarrow> map_option ch_attempt (min_first epoch_less current_children)))
      | Route_Bulk \<Rightarrow>
          (let healthy_children = filter healthy current_children in
           if healthy_children \<noteq> [] then map_option ch_attempt (max_last bulk_less healthy_children)
           else map_option ch_attempt (min_first epoch_less current_children)))"

definition reduce_route_request :: "selection \<Rightarrow> string \<Rightarrow> routing_class \<Rightarrow> selection \<times> selection_action list" where
  "reduce_route_request s delivery_id routing_class =
     (let fresh =
        (case select_route s routing_class of
           None \<Rightarrow> (s, [Deny PolicyDenied])
         | Some i \<Rightarrow>
             (s\<lparr>ts_delivery_assignments := (ts_delivery_assignments s)(delivery_id \<mapsto> i)\<rparr>, [RouteDelivery delivery_id i])) in
      case ts_delivery_assignments s delivery_id of
        None \<Rightarrow> fresh
      | Some assigned \<Rightarrow>
          (case find_child s assigned of
             None \<Rightarrow> fresh
           | Some child \<Rightarrow> if is_routed_current child then (s, [RouteDelivery delivery_id assigned]) else fresh))"

definition reduce_reservation_result ::
    "selection \<Rightarrow> reservation_key \<Rightarrow> transport_denial + retry_reservation \<Rightarrow> selection \<times> selection_action list" where
  "reduce_reservation_result s key result =
     (case result of
        Inr _ \<Rightarrow> (s, [Inert])
      | Inl denial \<Rightarrow>
          (update_child s (rk_child_attempt key) (\<lambda>c. c\<lparr>ch_cancelled := True, ch_state := Child_Closed\<rparr>),
           [CancelChild (rk_child_attempt key), Deny denial]))"

definition reduce_child_security_failure :: "selection \<Rightarrow> u64 \<Rightarrow> selection \<times> selection_action list" where
  "reduce_child_security_failure s i =
     (case find_child s i of
        None \<Rightarrow> (s, [Inert])
      | Some _ \<Rightarrow>
          let s = update_child s i (\<lambda>c. recompute_health (c\<lparr>ch_state := Child_Closed, ch_cancelled := True\<rparr>)) in
          if \<not> any_active s \<and> \<not> any_pending s
          then (s\<lparr>ts_parent_state := Parent_Failed\<rparr>, [Deny SecurityFailure, ParentTransition Parent_Failed])
          else (s, [Deny SecurityFailure]))"

definition selection_reduce :: "selection \<Rightarrow> selection_input \<Rightarrow> selection \<times> selection_action list" where
  "selection_reduce s input =
     (if ts_cancelled s
      then if input = In_Supersede
           then (s\<lparr>ts_parent_state := Parent_Superseded\<rparr>, [ParentTransition Parent_Superseded])
           else (s, [Inert])
      else case input of
        In_StartPlan \<Rightarrow> reduce_start_plan s
      | In_ChildActive i _ \<Rightarrow> reduce_child_active s i
      | In_ChildReachability i cls \<Rightarrow> reduce_child_reachability s i cls
      | In_WebrtcProbe i success buffered \<Rightarrow> reduce_webrtc_probe s i success buffered
      | In_WebsocketAckProgress i age buffered retransmissions \<Rightarrow> reduce_websocket_ack s i age buffered retransmissions
      | In_DeadlineFired _ \<Rightarrow> reduce_deadline_fired s
      | In_RetryDelayFired _ \<Rightarrow> reduce_retry_delay_fired s
      | In_ChildClosed i security_failure \<Rightarrow> reduce_child_closed s i security_failure
      | In_RequestSecondChild reason _ \<Rightarrow> reduce_request_second_child s reason
      | In_CredentialRotationLead _ \<Rightarrow> reduce_credential_rotation s
      | In_SupervisorCutoverAck old new \<Rightarrow> reduce_supervisor_cutover_ack s old new
      | In_SecondLease old \<Rightarrow> reduce_second_lease s old
      | In_CloseChild i \<Rightarrow> reduce_close_child s i
      | In_Cancel \<Rightarrow> reduce_cancel s
      | In_Supersede \<Rightarrow> reduce_supersede s
      | In_RouteRequest d cls \<Rightarrow> reduce_route_request s d cls
      | In_ReservationResult key result \<Rightarrow> reduce_reservation_result s key result
      | In_ChildSecurityFailure i \<Rightarrow> reduce_child_security_failure s i)"

subsection \<open>Retry budget\<close>

definition same_reservation :: "reservation_key \<Rightarrow> retry_reservation \<Rightarrow> bool" where
  "same_reservation key r \<longleftrightarrow> rk_transport_kind (rr_key r) = rk_transport_kind key
     \<and> rk_child_attempt (rr_key r) = rk_child_attempt key \<and> rk_train_id (rr_key r) = rk_train_id key"

definition validate_retry_budget ::
    "retry_reservation list \<Rightarrow> retry_reservation list \<Rightarrow> reservation_key \<Rightarrow> u64 \<Rightarrow> transport_denial + unit" where
  "validate_retry_budget existing_in_train committed_in_rolling_window new_key now_ms =
     (if list_ex (same_reservation new_key) existing_in_train then Inr ()
      else
        let train_count = of_nat (length (filter (\<lambda>r. rk_train_id (rr_key r) = rk_train_id new_key) existing_in_train)) :: u32 in
        if train_count \<ge> MAX_RESERVATIONS_PER_TRAIN then Inl RetryBudgetExhausted
        else
          let rolling_start = now_ms - ROLLING_WINDOW_SECS * 1000;
              rolling_count = of_nat (length (filter (\<lambda>r. sint (rr_reserved_at_ms r) \<ge> sint rolling_start)
                                committed_in_rolling_window)) :: u32 in
          if rolling_count \<ge> MAX_COMMITTED_RESERVATIONS_ROLLING then Inl RetryBudgetExhausted
          else Inr ())"

definition build_reservation_key ::
    "string \<Rightarrow> string \<Rightarrow> string \<Rightarrow> string \<Rightarrow> id16 \<Rightarrow> transport_kind \<Rightarrow> u64 \<Rightarrow> reservation_key" where
  "build_reservation_key tenant account device attachment train kind child_attempt =
     \<lparr>rk_tenant_id = tenant, rk_account_id = account, rk_client_device_id = device,
      rk_logical_attachment_id = attachment, rk_train_id = train, rk_transport_kind = kind,
      rk_child_attempt = child_attempt\<rparr>"

subsection \<open>Runs and summaries\<close>

text \<open>Who the children are: their attempts, kinds and epochs, in order of creation.\<close>

definition roster :: "selection \<Rightarrow> (u64 \<times> transport_kind \<times> u64) list" where
  "roster s = map (\<lambda>c. (ch_attempt c, ch_kind c, ch_epoch c)) (ts_children s)"

fun started_by :: "selection_action \<Rightarrow> (u64 \<times> transport_kind \<times> u64) list" where
  "started_by (StartChild i k e) = [(i, k, e)]"
| "started_by (StartReplacementPending i k e) = [(i, k, e)]"
| "started_by _ = []"

definition started :: "selection_action list \<Rightarrow> (u64 \<times> transport_kind \<times> u64) list" where
  "started acts = concat (map started_by acts)"

text \<open>A run of the reducer with the actions of all its steps.\<close>

fun selection_run :: "selection \<Rightarrow> selection_input list \<Rightarrow> selection \<times> selection_action list" where
  "selection_run s [] = (s, [])"
| "selection_run s (input # inputs) =
     (case selection_reduce s input of (s, acts) \<Rightarrow>
      case selection_run s inputs of (s, rest) \<Rightarrow> (s, acts @ rest))"

definition allowed_kinds :: "selection \<Rightarrow> transport_kind set" where
  "allowed_kinds s = set (pl_allowed_kinds (compute_authorized_plan (ts_authorization s) (ts_preference s)))"

text \<open>
  What one step can do to the roster: nothing, start one child under fresh numbers, reserve fresh numbers
  for a retry, or start the reserved retry.
\<close>

definition roster_step :: "selection \<Rightarrow> selection \<Rightarrow> selection_action list \<Rightarrow> bool" where
  "roster_step s s' acts \<longleftrightarrow>
     (let fresh = (ts_next_child_attempt s, ts_next_epoch s);
          kept = (ts_next_child_attempt s' = ts_next_child_attempt s \<and> ts_next_epoch s' = ts_next_epoch s);
          advanced = (ts_next_child_attempt s' = ts_next_child_attempt s + 1 \<and> ts_next_epoch s' = ts_next_epoch s + 1) in
      (kept \<and> started acts = [] \<and> (ts_pending_retry s' = None \<or> ts_pending_retry s' = ts_pending_retry s))
      \<or> (advanced \<and> ts_pending_retry s' = ts_pending_retry s
         \<and> (\<exists>k. started acts = [(fst fresh, k, snd fresh)] \<and> (k \<in> allowed_kinds s \<or> k \<in> set (map ch_kind (ts_children s)))))
      \<or> (advanced \<and> started acts = []
         \<and> (\<exists>k \<in> set (map ch_kind (ts_children s)).
              ts_pending_retry s' = Some \<lparr>pr_kind = k, pr_child_attempt = fst fresh, pr_epoch = snd fresh\<rparr>))
      \<or> (kept \<and> ts_pending_retry s' = None
         \<and> (\<exists>p. ts_pending_retry s = Some p \<and> started acts = [(pr_child_attempt p, pr_kind p, pr_epoch p)])))"

definition well_stepped :: "selection \<Rightarrow> selection \<times> selection_action list \<Rightarrow> bool" where
  "well_stepped s r \<longleftrightarrow>
     (case r of (s', acts) \<Rightarrow>
        ts_authorization s' = ts_authorization s \<and> ts_preference s' = ts_preference s
        \<and> roster s' = roster s @ started acts \<and> roster_step s s' acts)"

section \<open>One step\<close>

definition same_child :: "(child_record \<Rightarrow> child_record) \<Rightarrow> bool" where
  "same_child f \<longleftrightarrow> (\<forall>c. ch_attempt (f c) = ch_attempt c \<and> ch_kind (f c) = ch_kind c \<and> ch_epoch (f c) = ch_epoch c)"

lemma recompute_fields [simp]: "ch_attempt (recompute_health c) = ch_attempt c" "ch_kind (recompute_health c) = ch_kind c"
  "ch_epoch (recompute_health c) = ch_epoch c" "ch_state (recompute_health c) = ch_state c"
  "ch_durable (recompute_health c) = ch_durable c" "ch_replacement_peer (recompute_health c) = ch_replacement_peer c"
  by (simp_all add: recompute_health_def)

lemma settle_fields [simp]: "ch_attempt (settle_state c) = ch_attempt c" "ch_kind (settle_state c) = ch_kind c"
  "ch_epoch (settle_state c) = ch_epoch c" "ch_durable (settle_state c) = ch_durable c"
  "ch_replacement_peer (settle_state c) = ch_replacement_peer c"
  by (simp_all add: settle_state_def split: health_tier.split)

lemma probed_fields [simp]: "ch_attempt (probed x y c) = ch_attempt c" "ch_kind (probed x y c) = ch_kind c"
  "ch_epoch (probed x y c) = ch_epoch c" "ch_state (probed x y c) = ch_state c"
  "ch_durable (probed x y c) = ch_durable c" "ch_replacement_peer (probed x y c) = ch_replacement_peer c"
  by (cases x; cases "y \<ge> WEBRTC_DEGRADED_BUFFER_BYTES"; simp add: probed_def Let_def)+

lemma acked_fields [simp]: "ch_attempt (acked x y z c) = ch_attempt c" "ch_kind (acked x y z c) = ch_kind c"
  "ch_epoch (acked x y z c) = ch_epoch c" "ch_state (acked x y z c) = ch_state c"
  "ch_durable (acked x y z c) = ch_durable c" "ch_replacement_peer (acked x y z c) = ch_replacement_peer c"
  by (simp_all add: acked_def Let_def)

lemma same_child_probed [simp]: "same_child (\<lambda>c. settle_state (probed x y c))"
  "same_child (\<lambda>c. settle_state (acked u v w c))"
  by (simp_all add: same_child_def)

lemma roster_update_first:
  "same_child f \<Longrightarrow> map (\<lambda>c. (ch_attempt c, ch_kind c, ch_epoch c)) (update_first i f cs)
     = map (\<lambda>c. (ch_attempt c, ch_kind c, ch_epoch c)) cs"
  by (induction cs) (simp_all add: same_child_def)

lemma kinds_update_first [simp]: "same_child f \<Longrightarrow> map ch_kind (update_first i f cs) = map ch_kind cs"
  by (induction cs) (simp_all add: same_child_def)

lemma roster_update_child [simp]: "same_child f \<Longrightarrow> roster (update_child s i f) = roster s"
  by (simp add: roster_def update_child_def roster_update_first)

lemma update_child_fields [simp]:
  "ts_authorization (update_child s i f) = ts_authorization s" "ts_preference (update_child s i f) = ts_preference s"
  "ts_next_child_attempt (update_child s i f) = ts_next_child_attempt s" "ts_next_epoch (update_child s i f) = ts_next_epoch s"
  "ts_pending_retry (update_child s i f) = ts_pending_retry s" "ts_cancelled (update_child s i f) = ts_cancelled s"
  "ts_kind_retries_used (update_child s i f) = ts_kind_retries_used s"
  "ts_children (update_child s i f) = update_first i f (ts_children s)"
  "ts_websocket_fallback_started (update_child s i f) = ts_websocket_fallback_started s"
  "ts_parent_state (update_child s i f) = ts_parent_state s"
  "ts_turn_replacement (update_child s i f) = ts_turn_replacement s"
  by (simp_all add: update_child_def)

lemma started_simps [simp]: "started [] = []" "started (a # acts) = started_by a @ started acts"
  "started (acts @ acts') = started acts @ started acts'"
  by (simp_all add: started_def)

lemma started_cancels [simp]: "started (map (\<lambda>c. CancelChild (ch_attempt c)) cs) = []"
  by (induction cs) simp_all

lemma find_child_kind: "find_child s i = Some c \<Longrightarrow> c \<in> set (ts_children s) \<and> ch_attempt c = i"
  by (auto simp: find_child_def find_Some_iff)

text \<open>A step that keeps numbers, roster, policy and pending retry.\<close>

lemma well_stepped_quiet:
  assumes "ts_authorization s' = ts_authorization s" "ts_preference s' = ts_preference s" "roster s' = roster s"
    "started acts = []" "ts_next_child_attempt s' = ts_next_child_attempt s" "ts_next_epoch s' = ts_next_epoch s"
    "ts_pending_retry s' = None \<or> ts_pending_retry s' = ts_pending_retry s"
  shows "well_stepped s (s', acts)"
  using assms by (simp add: well_stepped_def roster_step_def Let_def)

text \<open>A step that starts one child under the next numbers, after changes that keep the roster.\<close>

lemma well_stepped_start:
  assumes "ts_authorization s' = ts_authorization s" "ts_preference s' = ts_preference s"
    "started acts = [(ts_next_child_attempt s, k, ts_next_epoch s)]" "roster s' = roster s @ started acts"
    "ts_next_child_attempt s' = ts_next_child_attempt s + 1" "ts_next_epoch s' = ts_next_epoch s + 1"
    "ts_pending_retry s' = ts_pending_retry s" "k \<in> allowed_kinds s \<or> k \<in> set (map ch_kind (ts_children s))"
  shows "well_stepped s (s', acts)"
  using assms by (simp add: well_stepped_def roster_step_def Let_def)

lemma start_pending_eq:
  "start_pending s k =
     (s\<lparr>ts_next_child_attempt := ts_next_child_attempt s + 1, ts_next_epoch := ts_next_epoch s + 1,
        ts_children := ts_children s @ [new_pending (ts_next_child_attempt s) k (ts_next_epoch s)]\<rparr>,
      StartChild (ts_next_child_attempt s) k (ts_next_epoch s))"
  by (simp add: start_pending_def alloc_child_attempt_def alloc_epoch_def push_child_def Let_def)

lemma new_pending_fields [simp]: "ch_attempt (new_pending i k e) = i" "ch_kind (new_pending i k e) = k"
  "ch_epoch (new_pending i k e) = e" "ch_state (new_pending i k e) = Child_Pending"
  "ch_durable (new_pending i k e) = Durable_Current" "ch_replacement_peer (new_pending i k e) = None"
  by (simp_all add: new_pending_def)

lemma step_start_plan: "well_stepped s (reduce_start_plan s)"
  by (cases "ts_preference s")
    (auto simp: reduce_start_plan_def start_pending_eq Let_def roster_def allowed_kinds_def well_stepped_def
      roster_step_def)

text \<open>The fallback after a change of one child.\<close>

lemma step_fallback:
  assumes "ts_authorization s' = ts_authorization s" "ts_preference s' = ts_preference s" "roster s' = roster s"
    "ts_next_child_attempt s' = ts_next_child_attempt s" "ts_next_epoch s' = ts_next_epoch s"
    "ts_pending_retry s' = ts_pending_retry s"
  shows "well_stepped s (maybe_start_websocket_fallback s')"
  using assms
  by (auto simp: maybe_start_websocket_fallback_def start_pending_eq Let_def roster_def allowed_kinds_def
      well_stepped_def roster_step_def)

lemma step_child_active: "well_stepped s (reduce_child_active s i)"
  by (auto simp: reduce_child_active_def Let_def same_child_def recompute_health_def roster_def
      roster_update_first split: option.split intro!: well_stepped_quiet)

lemma step_child_reachability: "well_stepped s (reduce_child_reachability s i cls)"
  by (auto simp: reduce_child_reachability_def Let_def same_child_def recompute_health_def
      split: option.split intro!: well_stepped_quiet step_fallback)

lemma step_webrtc_probe: "well_stepped s (reduce_webrtc_probe s i x y)"
  by (auto simp: reduce_webrtc_probe_def Let_def split: option.split intro!: well_stepped_quiet step_fallback)

lemma step_websocket_ack: "well_stepped s (reduce_websocket_ack s i x y z)"
  by (auto simp: reduce_websocket_ack_def split: option.split intro!: well_stepped_quiet)

lemma step_deadline: "well_stepped s (reduce_deadline_fired s)"
  by (auto simp: reduce_deadline_fired_def Let_def roster_def intro!: well_stepped_quiet step_fallback)

lemma step_retry_delay: "well_stepped s (reduce_retry_delay_fired s)"
proof (cases "ts_pending_retry s")
  case None
  then show ?thesis by (auto simp: reduce_retry_delay_fired_def roster_def intro!: well_stepped_quiet)
next
  case (Some p)
  then show ?thesis
    by (auto simp: reduce_retry_delay_fired_def Let_def roster_def push_child_def well_stepped_def roster_step_def)
qed

lemma step_child_closed: "well_stepped s (reduce_child_closed s i x)"
proof (cases "find_child s i")
  case None
  then show ?thesis by (auto simp: reduce_child_closed_def intro!: well_stepped_quiet)
next
  case (Some c)
  then have "ch_kind c \<in> set (map ch_kind (ts_children s))" using find_child_kind by auto
  moreover have [simp]: "same_child (\<lambda>c. recompute_health (c\<lparr>ch_state := Child_Closed\<rparr>))"
    by (simp add: same_child_def recompute_health_def)
  ultimately show ?thesis using Some
    by (auto simp: reduce_child_closed_def Let_def increment_kind_retry_def alloc_child_attempt_def alloc_epoch_def
        well_stepped_def roster_step_def roster_def roster_update_first)
qed

lemma step_second_child: "well_stepped s (reduce_request_second_child s reason)"
  by (auto simp: reduce_request_second_child_def Let_def alloc_child_attempt_def alloc_epoch_def push_child_def
      roster_def allowed_kinds_def well_stepped_def roster_step_def split: option.split if_splits)

lemma step_credential_rotation: "well_stepped s (reduce_credential_rotation s)"
proof (cases "find (\<lambda>c. ch_kind c = Webrtc \<and> ch_durable c = Durable_Current \<and> ch_state c \<noteq> Child_Closed) (ts_children s)")
  case None
  then show ?thesis by (auto simp: reduce_credential_rotation_def intro!: well_stepped_quiet)
next
  case (Some c)
  then have "c \<in> set (ts_children s)" "ch_kind c = Webrtc" by (auto simp: find_Some_iff)
  then have "Webrtc \<in> set (map ch_kind (ts_children s))" by force
  moreover have [simp]: "same_child (\<lambda>c. c\<lparr>ch_replacement_peer := p\<rparr>)" for p by (simp add: same_child_def)
  ultimately show ?thesis using Some
    by (auto simp: reduce_credential_rotation_def Let_def alloc_child_attempt_def alloc_epoch_def push_child_def
        roster_def roster_update_first well_stepped_def roster_step_def)
qed

lemma step_cutover: "well_stepped s (reduce_supervisor_cutover_ack s old new)"
  by (auto simp: reduce_supervisor_cutover_ack_def Let_def same_child_def recompute_health_def roster_def
      roster_update_first split: option.split intro!: well_stepped_quiet)

lemma step_second_lease: "well_stepped s (reduce_second_lease s old)"
  by (auto simp: reduce_second_lease_def Let_def same_child_def roster_def roster_update_first
      split: option.split intro!: well_stepped_quiet)

lemma step_close_child: "well_stepped s (reduce_close_child s i)"
  by (auto simp: reduce_close_child_def same_child_def split: option.split intro!: well_stepped_quiet)

lemma step_cancel: "well_stepped s (reduce_cancel s)" "well_stepped s (reduce_supersede s)"
  by (auto simp: reduce_cancel_def reduce_supersede_def roster_def intro!: well_stepped_quiet)

lemma step_route: "well_stepped s (reduce_route_request s d cls)"
  by (auto simp: reduce_route_request_def Let_def roster_def split: option.split intro!: well_stepped_quiet)

lemma step_reservation: "well_stepped s (reduce_reservation_result s key r)"
  by (auto simp: reduce_reservation_result_def same_child_def split: sum.split intro!: well_stepped_quiet)

lemma step_security: "well_stepped s (reduce_child_security_failure s i)"
  by (auto simp: reduce_child_security_failure_def Let_def same_child_def recompute_health_def roster_def
      roster_update_first split: option.split intro!: well_stepped_quiet)

lemmas reducer_steps = step_start_plan step_child_active step_child_reachability step_webrtc_probe step_websocket_ack
  step_deadline step_retry_delay step_child_closed step_second_child step_credential_rotation step_cutover
  step_second_lease step_close_child step_cancel step_route step_reservation step_security

lemma reduce_well_stepped: "well_stepped s (selection_reduce s input)"
proof (cases "ts_cancelled s")
  case True
  then show ?thesis by (auto simp: selection_reduce_def roster_def intro!: well_stepped_quiet)
next
  case False
  then show ?thesis by (cases input) (simp_all add: selection_reduce_def reducer_steps)
qed

end
