(* ===== verification/Selection_Runs.thy ===== *)
theory Selection_Runs
  imports Transport_Selection
begin

text \<open>
  What runs of the transport selection reducer guarantee, whatever inputs arrive: which kinds are started,
  that attempt ids are fresh, how many retries are armed, how many children are pending, where deliveries
  are routed and that cancellation is final. Two further theorems show sequences of inputs in which a
  security failure is followed by a fallback or by a reactivation of the failed child.
\<close>

section \<open>The plan\<close>

text \<open>When a kind may be used, spelled out.\<close>

definition grants :: "transport_authorization \<Rightarrow> transport_preference \<Rightarrow> transport_kind \<Rightarrow> bool" where
  "grants auth preference k \<longleftrightarrow>
     ta_ip_consent auth \<noteq> Consent_Unavailable \<and> ta_quota_available auth
     \<and> (case k of
          Webrtc \<Rightarrow> preference \<noteq> Prefer_Websocket \<and> ta_webrtc_authorized auth \<and> ta_client_supports_webrtc auth
            \<and> (ta_turn_available auth
               \<or> (ta_ip_consent auth = Consent_DirectAllowed \<and> ta_participant_privacy auth = Privacy_DirectAllowed))
        | Websocket \<Rightarrow> preference \<noteq> Prefer_Webrtc \<and> ta_websocket_authorized auth \<and> ta_client_supports_websocket auth)"

lemma admit_kind_None: "admit_kind a b c = None \<longleftrightarrow> a \<and> b \<and> \<not> c"
  by (simp add: admit_kind_def)

lemma plan_allows_iff: "k \<in> set (pl_allowed_kinds (compute_authorized_plan auth preference)) \<longleftrightarrow> grants auth preference k"
proof (cases "ta_ip_consent auth = Consent_Unavailable")
  case False
  define forced where "forced = (ta_ip_consent auth = Consent_RelayOnly \<or> ta_participant_privacy auth = Privacy_RelayOnly
    \<or> ta_participant_privacy auth = Privacy_TurnRequired)"
  define w where "w = admit_kind (ta_webrtc_authorized auth) (ta_client_supports_webrtc auth) (forced \<and> \<not> ta_turn_available auth)"
  define x where "x = admit_kind (ta_websocket_authorized auth) (ta_client_supports_websocket auth) False"
  have direct: "\<not> forced \<longleftrightarrow> ta_ip_consent auth = Consent_DirectAllowed \<and> ta_participant_privacy auth = Privacy_DirectAllowed"
    using False unfolding forced_def by (cases "ta_ip_consent auth"; cases "ta_participant_privacy auth") simp_all
  have g: "grants auth preference k \<longleftrightarrow> ta_quota_available auth
      \<and> (case k of Webrtc \<Rightarrow> preference \<noteq> Prefer_Websocket \<and> w = None | Websocket \<Rightarrow> preference \<noteq> Prefer_Webrtc \<and> x = None)"
    using False unfolding grants_def w_def x_def admit_kind_None direct [symmetric] by (cases k) auto
  have "pl_allowed_kinds (compute_authorized_plan auth preference) =
      (if ta_quota_available auth then
         (if preference \<noteq> Prefer_Websocket \<and> w = None then [Webrtc] else [])
         @ (if preference \<noteq> Prefer_Webrtc \<and> x = None then [Websocket] else []) else [])"
    using False unfolding compute_authorized_plan_def forced_def [symmetric] Let_def w_def [symmetric] x_def [symmetric]
    by (cases preference; cases w; cases x) (simp_all add: push_kind_def)
  then show ?thesis unfolding g by (cases k) simp_all
qed (simp add: compute_authorized_plan_def grants_def)

lemma plan_denials:
  "pl_allowed_kinds (compute_authorized_plan auth preference) = [] \<Longrightarrow>
   pl_denials (compute_authorized_plan auth preference) \<noteq> []"
  by (cases preference) (auto simp: compute_authorized_plan_def Let_def push_kind_def split: option.splits if_splits)

section \<open>Runs\<close>

lemma run_policy_roster:
  "selection_run s inputs = (s', acts) \<Longrightarrow>
   ts_authorization s' = ts_authorization s \<and> ts_preference s' = ts_preference s \<and> roster s' = roster s @ started acts"
proof (induction inputs arbitrary: s acts)
  case (Cons input inputs)
  obtain s1 a1 where r: "selection_reduce s input = (s1, a1)" by fastforce
  obtain a2 where "selection_run s1 inputs = (s', a2)" "acts = a1 @ a2"
    using Cons.prems r by (auto split: prod.splits)
  then show ?case using Cons.IH [of s1 a2] reduce_well_stepped [of s input] r by (simp add: well_stepped_def)
qed simp

definition kinds_inv :: "transport_kind set \<Rightarrow> selection \<Rightarrow> bool" where
  "kinds_inv ks s \<longleftrightarrow> allowed_kinds s = ks \<and> set (map ch_kind (ts_children s)) \<subseteq> ks
     \<and> (\<forall>p. ts_pending_retry s = Some p \<longrightarrow> pr_kind p \<in> ks)"

lemma roster_kinds: "map ch_kind (ts_children s) = map (\<lambda>(i, k, e). k) (roster s)"
  by (simp add: roster_def)

lemma kinds_step:
  assumes "kinds_inv ks s" and "well_stepped s (s', acts)"
  shows "kinds_inv ks s'"
proof -
  have same: "allowed_kinds s' = ks" using assms by (simp add: kinds_inv_def well_stepped_def allowed_kinds_def)
  have r: "roster s' = roster s @ started acts" and rs: "roster_step s s' acts"
    using assms by (simp_all add: well_stepped_def)
  have old: "set (map ch_kind (ts_children s)) \<subseteq> ks" "allowed_kinds s = ks"
    "\<And>p. ts_pending_retry s = Some p \<Longrightarrow> pr_kind p \<in> ks" using assms by (auto simp: kinds_inv_def)
  have new: "\<forall>(i, k, e) \<in> set (started acts). k \<in> ks" "\<And>p. ts_pending_retry s' = Some p \<Longrightarrow> pr_kind p \<in> ks"
    using rs old unfolding roster_step_def Let_def by auto
  have "set (map ch_kind (ts_children s')) \<subseteq> ks"
    using old(1) new(1) unfolding roster_kinds r by auto
  with same new(2) show ?thesis by (simp add: kinds_inv_def)
qed

definition attempts :: "selection \<Rightarrow> u64 list" where
  "attempts s = map fst (roster s)"

definition numbers_inv :: "nat \<Rightarrow> selection \<Rightarrow> bool" where
  "numbers_inv n s \<longleftrightarrow> ts_next_epoch s = ts_next_child_attempt s
     \<and> 1 \<le> unat (ts_next_child_attempt s) \<and> unat (ts_next_child_attempt s) \<le> Suc n
     \<and> list_all (\<lambda>(i, k, e). e = i \<and> 1 \<le> unat i \<and> unat i < unat (ts_next_child_attempt s)) (roster s)
     \<and> distinct (attempts s)
     \<and> (\<forall>p. ts_pending_retry s = Some p \<longrightarrow>
          pr_epoch p = pr_child_attempt p \<and> 1 \<le> unat (pr_child_attempt p)
          \<and> unat (pr_child_attempt p) < unat (ts_next_child_attempt s) \<and> pr_child_attempt p \<notin> set (attempts s))"

lemma unat_suc: "unat (w :: u64) \<le> Suc n \<Longrightarrow> n + 2 < 2 ^ 64 \<Longrightarrow> unat (w + 1) = Suc (unat w)"
  by (subst unat_plus_if') (simp add: unat_word_ariths)

lemma numbers_step:
  assumes inv: "numbers_inv n s" and "well_stepped s (s', acts)" and small: "n + 2 < 2 ^ 64"
  shows "numbers_inv (Suc n) s'"
proof -
  have r: "roster s' = roster s @ started acts" and rs: "roster_step s s' acts"
    using assms by (simp_all add: well_stepped_def)
  let ?n = "ts_next_child_attempt s"
  have eq: "ts_next_epoch s = ?n" and le: "1 \<le> unat ?n" "unat ?n \<le> Suc n"
    and all: "list_all (\<lambda>(i, k, e). e = i \<and> 1 \<le> unat i \<and> unat i < unat ?n) (roster s)"
    and dist: "distinct (attempts s)"
    and pend: "\<And>p. ts_pending_retry s = Some p \<Longrightarrow> pr_epoch p = pr_child_attempt p \<and> 1 \<le> unat (pr_child_attempt p)
        \<and> unat (pr_child_attempt p) < unat ?n \<and> pr_child_attempt p \<notin> set (attempts s)"
    using inv by (simp_all add: numbers_inv_def)
  note suc = unat_suc [OF le(2) small]
  have att: "attempts s' = attempts s @ map fst (started acts)" using r by (simp add: attempts_def)
  have fresh: "?n \<notin> set (attempts s)" using all by (auto simp: list_all_iff attempts_def)
  have up: "list_all (\<lambda>(i, k, e). e = i \<and> 1 \<le> unat i \<and> unat i < Suc (unat ?n)) (roster s)"
    using all by (auto simp: list_all_iff)
  from rs consider (keep) "ts_next_child_attempt s' = ?n" "ts_next_epoch s' = ?n" "started acts = []"
      "ts_pending_retry s' = None \<or> ts_pending_retry s' = ts_pending_retry s"
    | (start) k where "ts_next_child_attempt s' = ?n + 1" "ts_next_epoch s' = ?n + 1"
      "ts_pending_retry s' = ts_pending_retry s" "started acts = [(?n, k, ?n)]"
    | (arm) k where "ts_next_child_attempt s' = ?n + 1" "ts_next_epoch s' = ?n + 1" "started acts = []"
      "ts_pending_retry s' = Some \<lparr>pr_kind = k, pr_child_attempt = ?n, pr_epoch = ?n\<rparr>"
    | (fire) p where "ts_next_child_attempt s' = ?n" "ts_next_epoch s' = ?n" "ts_pending_retry s' = None"
      "ts_pending_retry s = Some p" "started acts = [(pr_child_attempt p, pr_kind p, pr_epoch p)]"
    unfolding roster_step_def Let_def eq by auto
  then show ?thesis
  proof cases
    case keep
    then show ?thesis using le all dist pend r by (auto simp: numbers_inv_def att)
  next
    case start
    have "pr_child_attempt p \<noteq> ?n" if "ts_pending_retry s = Some p" for p using pend [OF that] by auto
    then show ?thesis using start le up dist pend r fresh suc by (auto simp: numbers_inv_def less_Suc_eq att)
  next
    case arm
    then show ?thesis using le up dist r fresh suc by (auto simp: numbers_inv_def att)
  next
    case (fire p)
    then show ?thesis using le all dist pend [OF fire(4)] r by (auto simp: numbers_inv_def att)
  qed
qed

lemma run_numbers:
  "selection_run s inputs = (s', acts) \<Longrightarrow> numbers_inv n s \<Longrightarrow> n + length inputs + 1 < 2 ^ 64 \<Longrightarrow>
   numbers_inv (n + length inputs) s'"
proof (induction inputs arbitrary: s acts n)
  case (Cons input inputs)
  obtain s1 a1 where r: "selection_reduce s input = (s1, a1)" by fastforce
  obtain a2 where run: "selection_run s1 inputs = (s', a2)" using Cons.prems(1) r by (auto split: prod.splits)
  have "numbers_inv (Suc n) s1"
    using numbers_step [OF Cons.prems(2), of s1 a1] reduce_well_stepped [of s input] r Cons.prems(3) by simp
  from Cons.IH [OF run this] Cons.prems(3) show ?case by simp
qed simp

lemma run_kinds: "selection_run s inputs = (s', acts) \<Longrightarrow> kinds_inv ks s \<Longrightarrow> kinds_inv ks s'"
proof (induction inputs arbitrary: s acts)
  case (Cons input inputs)
  obtain s1 a1 where r: "selection_reduce s input = (s1, a1)" by fastforce
  obtain a2 where run: "selection_run s1 inputs = (s', a2)" using Cons.prems(1) r by (auto split: prod.splits)
  have "kinds_inv ks s1" using kinds_step [OF Cons.prems(2), of s1 a1] reduce_well_stepped [of s input] r by simp
  from Cons.IH [OF run this] show ?case .
qed simp

section \<open>Retries\<close>

fun arms_retry :: "selection_action \<Rightarrow> bool" where
  "arms_retry (ArmRetryDelay n) = True"
| "arms_retry _ = False"

definition retries_armed :: "selection_action list \<Rightarrow> nat" where
  "retries_armed acts = length (filter arms_retry acts)"

definition retries_used :: "selection \<Rightarrow> nat" where
  "retries_used s = unat (kind_retries s Webrtc) + unat (kind_retries s Websocket)"

definition retry_step :: "selection \<Rightarrow> selection \<times> selection_action list \<Rightarrow> bool" where
  "retry_step s r \<longleftrightarrow>
     (case r of (s', acts) \<Rightarrow>
        (ts_kind_retries_used s' = ts_kind_retries_used s \<and> retries_armed acts = 0)
        \<or> (\<exists>k. kind_retries s k = 0 \<and> ts_kind_retries_used s' = (ts_kind_retries_used s)(k \<mapsto> 1) \<and> retries_armed acts = 1))"

lemma retries_armed_simps [simp]: "retries_armed [] = 0"
  "retries_armed (a # acts) = (if arms_retry a then Suc (retries_armed acts) else retries_armed acts)"
  "retries_armed (acts @ acts') = retries_armed acts + retries_armed acts'"
  "retries_armed (map (\<lambda>c. CancelChild (ch_attempt c)) cs) = 0"
  by (induction cs) (simp_all add: retries_armed_def)

lemma retry_step_fallback:
  "ts_kind_retries_used s' = ts_kind_retries_used s \<Longrightarrow> retry_step s (maybe_start_websocket_fallback s')"
  by (simp add: retry_step_def maybe_start_websocket_fallback_def start_pending_eq Let_def)

lemma retry_step_closed: "retry_step s (reduce_child_closed s i x)"
proof (cases "find_child s i")
  case (Some c)
  define u where "u = update_child s i (\<lambda>c. recompute_health (c\<lparr>ch_state := Child_Closed\<rparr>))"
  have same: "ts_kind_retries_used u = ts_kind_retries_used s" "kind_retries u k = kind_retries s k" for k
    by (simp_all add: u_def kind_retries_def)
  have zero: "kind_retries s (ch_kind c) < MAX_SAME_KIND_RETRIES \<longleftrightarrow> kind_retries s (ch_kind c) = 0"
    by (simp add: selection_consts word_less_1)
  show ?thesis
    unfolding reduce_child_closed_def Some Let_def u_def [symmetric] option.case
    by (auto simp: same zero retry_step_def increment_kind_retry_def alloc_child_attempt_def alloc_epoch_def)
qed (simp add: retry_step_def reduce_child_closed_def)

lemma retry_step_others:
  "retry_step s (reduce_start_plan s)" "retry_step s (reduce_child_active s i)"
  "retry_step s (reduce_child_reachability s i cls)" "retry_step s (reduce_webrtc_probe s i b x)"
  "retry_step s (reduce_websocket_ack s i x y z)" "retry_step s (reduce_deadline_fired s)"
  "retry_step s (reduce_retry_delay_fired s)" "retry_step s (reduce_request_second_child s reason)"
  "retry_step s (reduce_credential_rotation s)" "retry_step s (reduce_supervisor_cutover_ack s i j)"
  "retry_step s (reduce_second_lease s i)" "retry_step s (reduce_close_child s i)"
  "retry_step s (reduce_cancel s)" "retry_step s (reduce_supersede s)" "retry_step s (reduce_route_request s d rc)"
  "retry_step s (reduce_reservation_result s key r)" "retry_step s (reduce_child_security_failure s i)"
  subgoal by (cases "ts_preference s") (simp_all add: retry_step_def reduce_start_plan_def start_pending_eq Let_def)
  subgoal by (simp add: retry_step_def reduce_child_active_def Let_def split: option.split)
  subgoal by (auto simp: reduce_child_reachability_def Let_def retry_step_def [of _ "(_, _)"] split: option.split
        intro!: retry_step_fallback)
  subgoal by (auto simp: reduce_webrtc_probe_def Let_def retry_step_def [of _ "(_, _)"] split: option.split
        intro!: retry_step_fallback)
  subgoal by (simp add: retry_step_def reduce_websocket_ack_def split: option.split)
  subgoal by (auto simp: reduce_deadline_fired_def Let_def retry_step_def [of _ "(_, _)"] intro!: retry_step_fallback)
  subgoal by (simp add: retry_step_def reduce_retry_delay_fired_def push_child_def Let_def split: option.split)
  subgoal by (simp add: retry_step_def reduce_request_second_child_def push_child_def alloc_child_attempt_def
        alloc_epoch_def Let_def split: option.split)
  subgoal by (simp add: retry_step_def reduce_credential_rotation_def push_child_def alloc_child_attempt_def
        alloc_epoch_def Let_def split: option.split)
  subgoal by (simp add: retry_step_def reduce_supervisor_cutover_ack_def Let_def split: option.split)
  subgoal by (simp add: retry_step_def reduce_second_lease_def Let_def split: option.split)
  subgoal by (simp add: retry_step_def reduce_close_child_def split: option.split)
  subgoal by (simp add: retry_step_def reduce_cancel_def)
  subgoal by (simp add: retry_step_def reduce_supersede_def)
  subgoal by (simp add: retry_step_def reduce_route_request_def Let_def split: option.split)
  subgoal by (simp add: retry_step_def reduce_reservation_result_def split: sum.split)
  subgoal by (simp add: retry_step_def reduce_child_security_failure_def Let_def split: option.split)
  done

lemma reduce_retry_step: "retry_step s (selection_reduce s input)"
proof (cases "ts_cancelled s")
  case True
  then show ?thesis by (simp add: selection_reduce_def retry_step_def)
next
  case False
  then show ?thesis by (cases input) (simp_all add: selection_reduce_def retry_step_others retry_step_closed)
qed

lemma retry_step_counts:
  assumes "retry_step s (s', acts)" and "\<forall>k. kind_retries s k \<le> 1"
  shows "(\<forall>k. kind_retries s' k \<le> 1) \<and> retries_used s' = retries_used s + retries_armed acts"
  using assms(1) unfolding retry_step_def prod.case
proof (elim disjE exE conjE)
  fix k assume k: "kind_retries s k = 0" "ts_kind_retries_used s' = (ts_kind_retries_used s)(k \<mapsto> 1)" "retries_armed acts = 1"
  have "kind_retries s' j = (if j = k then 1 else kind_retries s j)" for j
    using k(2) by (simp add: kind_retries_def)
  then show ?thesis using k(1,3) assms(2) by (cases k) (simp_all add: retries_used_def)
next
  assume "ts_kind_retries_used s' = ts_kind_retries_used s" "retries_armed acts = 0"
  then show ?thesis using assms(2) by (simp add: retries_used_def kind_retries_def)
qed

lemma run_retries:
  "selection_run s inputs = (s', acts) \<Longrightarrow> \<forall>k. kind_retries s k \<le> 1 \<Longrightarrow>
   (\<forall>k. kind_retries s' k \<le> 1) \<and> retries_used s' = retries_used s + retries_armed acts"
proof (induction inputs arbitrary: s acts)
  case (Cons input inputs)
  obtain s1 a1 where r: "selection_reduce s input = (s1, a1)" by fastforce
  obtain a2 where run: "selection_run s1 inputs = (s', a2)" "acts = a1 @ a2" using Cons.prems(1) r by (auto split: prod.splits)
  have "retry_step s (s1, a1)" using reduce_retry_step [of s input] r by simp
  from retry_step_counts [OF this Cons.prems(2)] Cons.IH [OF run(1)] run(2) show ?case by simp
qed simp

section \<open>Pending children\<close>

definition pending_of :: "transport_kind \<Rightarrow> child_record list \<Rightarrow> nat" where
  "pending_of k cs = length (filter (\<lambda>c. is_ordinary_pending c \<and> ch_kind c = k) cs)"

definition tame :: "(child_record \<Rightarrow> child_record) \<Rightarrow> bool" where
  "tame f \<longleftrightarrow> (\<forall>c. ch_kind (f c) = ch_kind c \<and> (is_ordinary_pending (f c) \<longrightarrow> is_ordinary_pending c))"

lemma pending_of_update: "tame f \<Longrightarrow> pending_of k (update_first i f cs) \<le> pending_of k cs"
  by (induction cs) (auto simp: pending_of_def tame_def)

lemma pending_of_append [simp]: "pending_of k (cs @ [c]) = pending_of k cs + (if is_ordinary_pending c \<and> ch_kind c = k then 1 else 0)"
  by (simp add: pending_of_def)

lemma settle_pending: "is_ordinary_pending (settle_state c) \<Longrightarrow> is_ordinary_pending c"
  by (auto simp: settle_state_def is_ordinary_pending_def split: health_tier.splits if_splits)

lemma counters_pending [simp]: "is_ordinary_pending (probed x y c) = is_ordinary_pending c"
  "is_ordinary_pending (acked x' y z c) = is_ordinary_pending c"
  by (simp_all add: is_ordinary_pending_def)

lemma tame_settle [simp]: "tame (\<lambda>c. settle_state (probed x y c))" "tame (\<lambda>c. settle_state (acked x' y z c))"
  by (auto simp: tame_def dest!: settle_pending)

lemma tame_changes [simp]: "tame (\<lambda>c. recompute_health (c\<lparr>ch_state := Child_Active, ch_consecutive_healthy := h c\<rparr>))"
  "tame (\<lambda>c. recompute_health (c\<lparr>ch_ice_disconnected_misses := m, ch_state := Child_Degraded\<rparr>))"
  "tame (\<lambda>c. recompute_health (c\<lparr>ch_state := Child_Closed\<rparr>))"
  "tame (\<lambda>c. recompute_health (c\<lparr>ch_state := Child_Closed, ch_cancelled := True\<rparr>))"
  "tame (\<lambda>c. c\<lparr>ch_cancelled := True, ch_state := Child_Closed\<rparr>)"
  "tame (\<lambda>c. c\<lparr>ch_state := Child_Closing\<rparr>)" "tame (\<lambda>c. c\<lparr>ch_replacement_peer := Some i\<rparr>)"
  "tame (\<lambda>c. recompute_health (c\<lparr>ch_durable := Durable_Current, ch_state := Child_Active\<rparr>))"
  "tame (\<lambda>c. c\<lparr>ch_durable := Durable_Draining, ch_state := Child_Closing\<rparr>)"
  "tame (\<lambda>c. c\<lparr>ch_state := Child_Closed, ch_durable := Durable_Draining\<rparr>)"
  by (simp_all add: tame_def is_ordinary_pending_def)

lemma count_pending_of: "count_ordinary_pending_kind s k = pending_of k (ts_children s)"
  by (simp add: count_ordinary_pending_kind_def pending_of_def)

lemma count_pending_sum: "count_ordinary_pending s = pending_of Webrtc (ts_children s) + pending_of Websocket (ts_children s)"
proof -
  have "length (filter P cs) = length (filter (\<lambda>c. P c \<and> ch_kind c = Webrtc) cs) + length (filter (\<lambda>c. P c \<and> ch_kind c = Websocket) cs)"
    for P and cs :: "child_record list"
  proof (induction cs)
    case (Cons c cs)
    then show ?case by (cases "ch_kind c") simp_all
  qed simp
  then show ?thesis unfolding count_ordinary_pending_def pending_of_def .
qed

definition pending_step :: "selection \<Rightarrow> selection \<times> selection_action list \<Rightarrow> bool" where
  "pending_step s r \<longleftrightarrow> (\<forall>k. pending_of k (ts_children (fst r)) \<le> max 1 (pending_of k (ts_children s)))"

lemma pending_step_fallback:
  assumes "\<And>k. pending_of k (ts_children s') \<le> pending_of k (ts_children s)"
  shows "pending_step s (maybe_start_websocket_fallback s')"
proof -
  have "pending_of k (ts_children s') \<le> max 1 (pending_of k (ts_children s))" for k using assms [of k] by simp
  then show ?thesis
    by (auto simp: pending_step_def maybe_start_websocket_fallback_def start_pending_eq Let_def count_pending_of
        selection_consts not_less_eq_eq)
qed

lemma pending_step_update:
  assumes "ts_children s' = update_first i f (ts_children s)" and "tame f"
  shows "pending_step s (s', acts)"
  using pending_of_update [OF assms(2), of _ i "ts_children s"] assms(1)
  by (simp add: pending_step_def le_max_iff_disj)

lemma pending_step_same: "ts_children s' = ts_children s \<Longrightarrow> pending_step s (s', acts)"
  by (simp add: pending_step_def)

lemma pending_step_updates:
  "pending_step s (reduce_child_active s i)" "pending_step s (reduce_child_reachability s i cls)"
  "pending_step s (reduce_webrtc_probe s i b x)" "pending_step s (reduce_websocket_ack s i x y z)"
  "pending_step s (reduce_deadline_fired s)" "pending_step s (reduce_child_closed s i sf)"
  "pending_step s (reduce_second_lease s i)" "pending_step s (reduce_close_child s i)"
  "pending_step s (reduce_supersede s)" "pending_step s (reduce_route_request s d rc)"
  "pending_step s (reduce_reservation_result s key r)" "pending_step s (reduce_child_security_failure s i)"
  subgoal by (auto simp: reduce_child_active_def Let_def split: option.split
        intro: pending_step_same pending_step_update [where i = i])
  subgoal by (auto simp: reduce_child_reachability_def Let_def pending_of_update split: option.split
        intro!: pending_step_fallback intro: pending_step_same pending_step_update [where i = i])
  subgoal by (auto simp: reduce_webrtc_probe_def Let_def pending_of_update split: option.split
        intro!: pending_step_fallback intro: pending_step_same pending_step_update [where i = i])
  subgoal by (auto simp: reduce_websocket_ack_def split: option.split
        intro: pending_step_same pending_step_update [where i = i])
  subgoal by (auto simp: reduce_deadline_fired_def Let_def intro!: pending_step_fallback intro: pending_step_same)
  subgoal by (auto simp: reduce_child_closed_def Let_def increment_kind_retry_def alloc_child_attempt_def alloc_epoch_def
        split: option.split intro: pending_step_same pending_step_update [where i = i])
  subgoal by (auto simp: reduce_second_lease_def Let_def split: option.split
        intro: pending_step_same pending_step_update [where i = i])
  subgoal by (auto simp: reduce_close_child_def split: option.split
        intro: pending_step_same pending_step_update [where i = i])
  subgoal by (simp add: reduce_supersede_def pending_step_same)
  subgoal by (auto simp: reduce_route_request_def Let_def split: option.split intro: pending_step_same)
  subgoal by (auto simp: reduce_reservation_result_def split: sum.split
        intro: pending_step_same pending_step_update [where i = "rk_child_attempt key"])
  subgoal by (auto simp: reduce_child_security_failure_def Let_def split: option.split
        intro: pending_step_same pending_step_update [where i = i])
  done

lemma pending_step_cancel: "pending_step s (reduce_cancel s)"
proof -
  have "pending_of k (map (\<lambda>c. if ch_state c \<noteq> Child_Closed then c\<lparr>ch_cancelled := True, ch_state := Child_Closing\<rparr> else c) cs) = 0"
    for k cs by (auto simp: pending_of_def is_ordinary_pending_def filter_empty_conv)
  then show ?thesis by (simp add: pending_step_def reduce_cancel_def)
qed

lemma pending_step_cutover: "pending_step s (reduce_supervisor_cutover_ack s old new)"
proof -
  have "pending_of k (update_first old g (update_first new f cs)) \<le> max 1 (pending_of k cs)" if "tame f" "tame g" for f g k cs
    using pending_of_update [OF that(1), of k new cs] pending_of_update [OF that(2), of k old "update_first new f cs"] by simp
  then show ?thesis
    by (auto simp: reduce_supervisor_cutover_ack_def Let_def pending_step_def split: option.split)
qed

lemma pending_step_retry: "pending_step s (reduce_retry_delay_fired s)"
  by (auto simp: reduce_retry_delay_fired_def Let_def pending_step_def push_child_def count_pending_of selection_consts
      not_less_eq_eq split: option.split)

lemma pending_step_second: "pending_step s (reduce_request_second_child s reason)"
  by (auto simp: reduce_request_second_child_def Let_def pending_step_def push_child_def alloc_child_attempt_def
      alloc_epoch_def count_pending_of selection_consts not_less_eq_eq is_ordinary_pending_def split: option.split)

lemma pending_step_rotation: "pending_step s (reduce_credential_rotation s)"
proof -
  have "pending_of k (update_first j f (cs @ [c])) \<le> max 1 (pending_of k cs)" if "tame f" "\<not> is_ordinary_pending c"
    for f k cs j c using pending_of_update [OF that(1), of k j "cs @ [c]"] that(2) by simp
  then show ?thesis
    by (auto simp: reduce_credential_rotation_def Let_def pending_step_def push_child_def alloc_child_attempt_def
        alloc_epoch_def is_ordinary_pending_def split: option.split)
qed

lemmas pending_steps = pending_step_updates pending_step_cancel pending_step_cutover pending_step_retry
  pending_step_second pending_step_rotation

lemma reduce_pending_step:
  assumes "input \<noteq> In_StartPlan"
  shows "pending_step s (selection_reduce s input)"
proof (cases "ts_cancelled s")
  case True
  then show ?thesis by (simp add: selection_reduce_def pending_step_same)
next
  case False
  then show ?thesis using assms by (cases input) (simp_all add: selection_reduce_def pending_steps)
qed

lemma run_pending:
  "selection_run s inputs = (s', acts) \<Longrightarrow> In_StartPlan \<notin> set inputs \<Longrightarrow>
   \<forall>k. pending_of k (ts_children s) \<le> 1 \<Longrightarrow> \<forall>k. pending_of k (ts_children s') \<le> 1"
proof (induction inputs arbitrary: s acts)
  case (Cons input inputs)
  obtain s1 a1 where r: "selection_reduce s input = (s1, a1)" by fastforce
  obtain a2 where run: "selection_run s1 inputs = (s', a2)" using Cons.prems(1) r by (auto split: prod.splits)
  have "pending_step s (s1, a1)" using reduce_pending_step [of input s] Cons.prems(2) r by auto
  then have "\<forall>k. pending_of k (ts_children s1) \<le> 1" using Cons.prems(3) by (simp add: pending_step_def)
  from Cons.IH [OF run _ this] Cons.prems(2) show ?case by simp
qed simp

lemma start_plan_pending:
  assumes "ts_children s = []" and "\<not> ts_cancelled s" and "selection_reduce s In_StartPlan = (s', acts)"
  shows "pending_of k (ts_children s') \<le> 1"
proof -
  have "reduce_start_plan s = (s', acts)" using assms by (simp add: selection_reduce_def)
  then show ?thesis using assms(1)
    by (auto simp: reduce_start_plan_def start_pending_eq Let_def pending_of_def split: transport_preference.splits if_splits)
qed

section \<open>Routing\<close>

text \<open>Strict weak orders, as the comparisons of the routing keys are.\<close>

definition weak_order :: "('a \<Rightarrow> 'a \<Rightarrow> bool) \<Rightarrow> bool" where
  "weak_order lt \<longleftrightarrow> (\<forall>a b. lt a b \<longrightarrow> \<not> lt b a) \<and> (\<forall>a b c. lt a c \<longrightarrow> lt a b \<or> lt b c)"

lemma weak_orders: "weak_order control_less" "weak_order epoch_less" "weak_order bulk_less"
  subgoal by (auto simp: weak_order_def control_less_def)
  subgoal by (auto simp: weak_order_def epoch_less_def)
  subgoal
  proof -
    have "bulk_less a b \<longrightarrow> \<not> bulk_less b a" for a b
      by (cases "ch_kind a"; cases "ch_kind b") (auto simp: bulk_less_def)
    moreover have "bulk_less a c \<longrightarrow> bulk_less a b \<or> bulk_less b c" for a b c
      by (cases "ch_kind a"; cases "ch_kind b"; cases "ch_kind c") (auto simp: bulk_less_def)
    ultimately show ?thesis unfolding weak_order_def by blast
  qed
  done

lemma min_first_SomeD:
  assumes "min_first lt xs = Some m" and "weak_order lt"
  shows "m \<in> set xs \<and> (\<forall>y \<in> set xs. \<not> lt y m)"
proof -
  have wo: "\<And>a b. lt a b \<Longrightarrow> \<not> lt b a" "\<And>a b c. lt a c \<Longrightarrow> lt a b \<or> lt b c"
    using assms(2) by (auto simp: weak_order_def)
  have "let r = foldl (\<lambda>a b. if lt b a then b else a) x ys in r \<in> set (x # ys) \<and> (\<forall>y \<in> set (x # ys). \<not> lt y r)" for x ys
  proof (induction ys arbitrary: x)
    case Nil
    show ?case using wo(1) by auto
  next
    case (Cons b ys)
    show ?case
    proof (cases "lt b x")
      case True
      let ?r = "foldl (\<lambda>a b. if lt b a then b else a) b ys"
      from True Cons [of b] wo(2) [of x ?r b] wo(1) [of b x] show ?thesis by (auto simp: Let_def)
    next
      case False
      let ?r = "foldl (\<lambda>a b. if lt b a then b else a) x ys"
      from False Cons [of x] wo(2) [of b ?r x] show ?thesis by (auto simp: Let_def)
    qed
  qed
  then show ?thesis using assms(1) by (cases xs) (auto simp: min_first_def Let_def)
qed

lemma max_last_SomeD:
  assumes "max_last lt xs = Some m" and "weak_order lt"
  shows "m \<in> set xs \<and> (\<forall>y \<in> set xs. \<not> lt m y)"
proof -
  have wo: "\<And>a b. lt a b \<Longrightarrow> \<not> lt b a" "\<And>a b c. lt a c \<Longrightarrow> lt a b \<or> lt b c"
    using assms(2) by (auto simp: weak_order_def)
  have "let r = foldl (\<lambda>a b. if lt b a then a else b) x ys in r \<in> set (x # ys) \<and> (\<forall>y \<in> set (x # ys). \<not> lt r y)" for x ys
  proof (induction ys arbitrary: x)
    case Nil
    show ?case using wo(1) by auto
  next
    case (Cons b ys)
    show ?case
    proof (cases "lt b x")
      case True
      let ?r = "foldl (\<lambda>a b. if lt b a then a else b) x ys"
      from True Cons [of x] wo(2) [of ?r b x] wo(1) [of b x] show ?thesis by (auto simp: Let_def)
    next
      case False
      let ?r = "foldl (\<lambda>a b. if lt b a then a else b) b ys"
      from False Cons [of b] wo(2) [of ?r x b] show ?thesis by (auto simp: Let_def)
    qed
  qed
  then show ?thesis using assms(1) by (cases xs) (auto simp: max_last_def Let_def)
qed

text \<open>
  When one routed-current child is to be preferred over another, by routing class. Between two transports with
  the same writable bytes the order of the bulk class leaves the choice open.
\<close>

definition interactive_rank :: "child_record \<Rightarrow> nat" where
  "interactive_rank c = (if \<not> healthy c then 2 else if ch_kind c = Webrtc then 0 else 1)"

fun route_better :: "routing_class \<Rightarrow> child_record \<Rightarrow> child_record \<Rightarrow> bool" where
  "route_better Route_Control y x \<longleftrightarrow> (healthy y \<and> \<not> healthy x) \<or> (healthy y = healthy x \<and> ch_epoch y < ch_epoch x)"
| "route_better Route_Interactive y x \<longleftrightarrow>
     interactive_rank y < interactive_rank x \<or> (\<not> healthy y \<and> \<not> healthy x \<and> ch_epoch y < ch_epoch x)"
| "route_better Route_Bulk y x \<longleftrightarrow>
     (healthy y \<and> \<not> healthy x)
     \<or> (healthy y \<and> healthy x \<and> writable_bytes x < writable_bytes y)
     \<or> (healthy y \<and> healthy x \<and> writable_bytes x = writable_bytes y
        \<and> ch_kind y = ch_kind x \<and> ch_epoch y < ch_epoch x)
     \<or> (\<not> healthy y \<and> \<not> healthy x \<and> ch_epoch y < ch_epoch x)"

lemma bulk_better: "healthy x \<Longrightarrow> route_better Route_Bulk y x \<Longrightarrow> healthy y \<and> bulk_less x y"
  by (cases "ch_kind x"; cases "ch_kind y") (auto simp: bulk_less_def)

definition current_children :: "selection \<Rightarrow> child_record list" where
  "current_children s = filter is_routed_current (ts_children s)"

lemma find_SomeD: "find P xs = Some x \<Longrightarrow> x \<in> set xs \<and> P x"
  by (auto simp: find_Some_iff)

text \<open>The child behind a selected route.\<close>

lemma route_child:
  assumes "select_route s cls = Some i"
  obtains x where "x \<in> set (current_children s)" "ch_attempt x = i" "\<forall>y \<in> set (current_children s). \<not> route_better cls y x"
proof (cases cls)
  case Route_Control
  then obtain x where x: "min_first control_less (current_children s) = Some x" "ch_attempt x = i"
    using assms by (auto simp: select_route_def current_children_def Let_def split: if_splits)
  with min_first_SomeD [OF x(1) weak_orders(1)] Route_Control show thesis by (intro that [of x]) (auto simp: control_less_def)
next
  case Route_Interactive
  note sel = assms [unfolded Route_Interactive select_route_def current_children_def [symmetric] Let_def routing_class.case]
  show thesis
  proof (cases "find (\<lambda>c. ch_kind c = Webrtc \<and> healthy c) (current_children s)")
    case (Some x)
    with sel find_SomeD [OF Some] show thesis
      by (intro that [of x]) (auto simp: Route_Interactive interactive_rank_def split: if_splits)
  next
    case None
    note no_rtc = this
    then have nr: "\<And>y. y \<in> set (current_children s) \<Longrightarrow> healthy y \<Longrightarrow> ch_kind y \<noteq> Webrtc" by (auto simp: find_None_iff)
    show thesis
    proof (cases "find (\<lambda>c. ch_kind c = Websocket \<and> healthy c) (current_children s)")
      case (Some x)
      with sel no_rtc nr find_SomeD [OF Some] show thesis
        by (intro that [of x]) (auto simp: Route_Interactive interactive_rank_def split: if_splits)
    next
      case None
      then have nh: "\<not> healthy y" if "y \<in> set (current_children s)" for y
        using nr [OF that] that by (cases "ch_kind y") (auto simp: find_None_iff)
      obtain x where x: "min_first epoch_less (current_children s) = Some x" "ch_attempt x = i"
        using sel no_rtc None by (auto split: if_splits)
      with min_first_SomeD [OF x(1) weak_orders(2)] nh show thesis
        by (intro that [of x]) (auto simp: Route_Interactive interactive_rank_def epoch_less_def)
    qed
  qed
next
  case Route_Bulk
  note sel = assms [unfolded Route_Bulk select_route_def current_children_def [symmetric] Let_def routing_class.case]
  show thesis
  proof (cases "filter healthy (current_children s) = []")
    case True
    then have nh: "\<And>y. y \<in> set (current_children s) \<Longrightarrow> \<not> healthy y" by (simp add: filter_empty_conv)
    obtain x where x: "min_first epoch_less (current_children s) = Some x" "ch_attempt x = i"
      using sel True by (auto split: if_splits)
    with min_first_SomeD [OF x(1) weak_orders(2)] nh show thesis
      by (intro that [of x]) (auto simp: Route_Bulk epoch_less_def)
  next
    case False
    then obtain x where x: "max_last bulk_less (filter healthy (current_children s)) = Some x" "ch_attempt x = i"
      using sel by (auto split: if_splits)
    note best = max_last_SomeD [OF x(1) weak_orders(3)]
    have "\<not> route_better Route_Bulk y x" if "y \<in> set (current_children s)" for y
      using best that bulk_better [of x y] by auto
    with best x(2) show thesis by (intro that [of x]) (auto simp: Route_Bulk)
  qed
qed

lemma route_none: "select_route s cls = None \<longleftrightarrow> current_children s = []"
proof -
  have "min_first lt xs = None \<longleftrightarrow> xs = []" "max_last lt xs = None \<longleftrightarrow> xs = []" for lt and xs :: "child_record list"
    by (cases xs; simp add: min_first_def max_last_def)+
  then show ?thesis
    by (cases cls) (auto simp: select_route_def current_children_def Let_def simp flip: not_None_eq split: option.splits)
qed

lemma find_child_unique:
  assumes "distinct (attempts s)" and "x \<in> set (ts_children s)"
  shows "find_child s (ch_attempt x) = Some x"
proof -
  have "distinct (map ch_attempt cs) \<Longrightarrow> x \<in> set cs \<Longrightarrow> find (\<lambda>c. ch_attempt c = ch_attempt x) cs = Some x" for cs
    by (induction cs) (auto simp: image_iff)
  moreover have "distinct (map ch_attempt (ts_children s))" using assms(1) by (simp add: attempts_def roster_def comp_def)
  ultimately show ?thesis using assms(2) by (simp add: find_child_def)
qed

fun routes :: "selection_action \<Rightarrow> bool" where
  "routes (RouteDelivery d i) = True"
| "routes _ = False"

definition unrouted :: "selection \<times> selection_action list \<Rightarrow> bool" where
  "unrouted r \<longleftrightarrow> \<not> list_ex routes (snd r)"

lemma unrouted_cancels [simp]: "\<not> list_ex routes (map (\<lambda>c. CancelChild (ch_attempt c)) cs)"
  by (induction cs) simp_all

lemma unrouted_fallback [simp]: "unrouted (maybe_start_websocket_fallback s)"
  by (simp add: unrouted_def maybe_start_websocket_fallback_def start_pending_eq Let_def)

lemma unrouted_others:
  "unrouted (reduce_start_plan s)" "unrouted (reduce_child_active s i)" "unrouted (reduce_child_reachability s i cls)"
  "unrouted (reduce_webrtc_probe s i b x)" "unrouted (reduce_websocket_ack s i x y z)" "unrouted (reduce_deadline_fired s)"
  "unrouted (reduce_retry_delay_fired s)" "unrouted (reduce_child_closed s i b)"
  "unrouted (reduce_request_second_child s reason)" "unrouted (reduce_credential_rotation s)"
  "unrouted (reduce_supervisor_cutover_ack s i j)" "unrouted (reduce_second_lease s i)" "unrouted (reduce_close_child s i)"
  "unrouted (reduce_cancel s)" "unrouted (reduce_supersede s)" "unrouted (reduce_reservation_result s key r)"
  "unrouted (reduce_child_security_failure s i)"
  subgoal by (cases "ts_preference s") (simp_all add: unrouted_def reduce_start_plan_def start_pending_eq Let_def)
  subgoal by (simp add: unrouted_def reduce_child_active_def Let_def split: option.split)
  subgoal by (simp add: reduce_child_reachability_def Let_def unrouted_def [of "(_, _)"] split: option.split)
  subgoal by (simp add: reduce_webrtc_probe_def Let_def unrouted_def [of "(_, _)"] split: option.split)
  subgoal by (simp add: unrouted_def reduce_websocket_ack_def split: option.split)
  subgoal by (simp add: reduce_deadline_fired_def Let_def unrouted_def [of "(_, _)"])
  subgoal by (simp add: unrouted_def reduce_retry_delay_fired_def Let_def split: option.split)
  subgoal by (simp add: unrouted_def reduce_child_closed_def Let_def alloc_child_attempt_def alloc_epoch_def split: option.split)
  subgoal by (simp add: unrouted_def reduce_request_second_child_def alloc_child_attempt_def alloc_epoch_def Let_def
        split: option.split)
  subgoal by (simp add: unrouted_def reduce_credential_rotation_def alloc_child_attempt_def alloc_epoch_def Let_def
        split: option.split)
  subgoal by (simp add: unrouted_def reduce_supervisor_cutover_ack_def Let_def split: option.split)
  subgoal by (simp add: unrouted_def reduce_second_lease_def Let_def split: option.split)
  subgoal by (simp add: unrouted_def reduce_close_child_def split: option.split)
  subgoal by (simp add: unrouted_def reduce_cancel_def)
  subgoal by (simp add: unrouted_def reduce_supersede_def)
  subgoal by (simp add: unrouted_def reduce_reservation_result_def split: sum.split)
  subgoal by (simp add: unrouted_def reduce_child_security_failure_def Let_def split: option.split)
  done

lemma route_action_input:
  assumes "selection_reduce s input = (s', acts)" and "RouteDelivery d i \<in> set acts"
  shows "(\<exists>cls. input = In_RouteRequest d cls) \<and> \<not> ts_cancelled s"
proof -
  have ex: "\<not> unrouted (selection_reduce s input)"
    using assms unfolding unrouted_def list_ex_iff by (auto intro!: bexI [of _ "RouteDelivery d i"])
  then have live: "\<not> ts_cancelled s" by (auto simp: selection_reduce_def unrouted_def split: if_splits)
  then obtain d' cls where input: "input = In_RouteRequest d' cls"
    using ex by (cases input) (simp_all add: selection_reduce_def unrouted_others)
  then have "d' = d"
    using assms live by (auto simp: selection_reduce_def reduce_route_request_def Let_def split: option.splits if_splits)
  with input live show ?thesis by blast
qed

text \<open>What a request that routes leaves behind.\<close>

lemma route_request_child:
  assumes "distinct (attempts s)" and "reduce_route_request s d cls = (s', acts)" and "RouteDelivery d' i \<in> set acts"
  shows "\<exists>c. find_child s i = Some c \<and> is_routed_current c \<and> ts_delivery_assignments s' d = Some i
     \<and> find_child s' i = Some c \<and> ts_cancelled s' = ts_cancelled s"
proof -
  have fresh: "\<exists>c. find_child s j = Some c \<and> is_routed_current c" if "select_route s cls = Some j" for j
    using that by (rule route_child) (auto simp: current_children_def intro!: exI find_child_unique [OF assms(1)])
  show ?thesis
    using assms(2,3) fresh
    by (auto simp: reduce_route_request_def Let_def find_child_def [of s'] find_child_def [of s] split: option.splits if_splits)
qed

text \<open>A delivery stays assigned to its child as long as the child is current.\<close>

definition current_in :: "selection \<Rightarrow> u64 \<Rightarrow> bool" where
  "current_in s i \<longleftrightarrow> (case find_child s i of None \<Rightarrow> False | Some c \<Rightarrow> is_routed_current c)"

fun stays_current :: "selection \<Rightarrow> u64 \<Rightarrow> selection_input list \<Rightarrow> bool" where
  "stays_current s i [] \<longleftrightarrow> current_in s i"
| "stays_current s i (input # inputs) \<longleftrightarrow> current_in s i \<and> stays_current (fst (selection_reduce s input)) i inputs"

definition keeps_assignments :: "selection \<Rightarrow> selection \<times> selection_action list \<Rightarrow> bool" where
  "keeps_assignments s r \<longleftrightarrow> ts_delivery_assignments (fst r) = ts_delivery_assignments s"

lemma keeps_fallback [simp]: "keeps_assignments s (maybe_start_websocket_fallback s)"
  by (simp add: keeps_assignments_def maybe_start_websocket_fallback_def start_pending_eq Let_def)

lemma keeps_fallback_of [simp]:
  "ts_delivery_assignments s' = ts_delivery_assignments s \<Longrightarrow> keeps_assignments s (maybe_start_websocket_fallback s')"
  using keeps_fallback [of s'] by (simp add: keeps_assignments_def)

lemma keeps_others:
  "keeps_assignments s (reduce_start_plan s)" "keeps_assignments s (reduce_child_active s i)"
  "keeps_assignments s (reduce_child_reachability s i cls)" "keeps_assignments s (reduce_webrtc_probe s i b x)"
  "keeps_assignments s (reduce_websocket_ack s i x y z)" "keeps_assignments s (reduce_deadline_fired s)"
  "keeps_assignments s (reduce_retry_delay_fired s)" "keeps_assignments s (reduce_child_closed s i b)"
  "keeps_assignments s (reduce_request_second_child s reason)" "keeps_assignments s (reduce_credential_rotation s)"
  "keeps_assignments s (reduce_supervisor_cutover_ack s i j)" "keeps_assignments s (reduce_second_lease s i)"
  "keeps_assignments s (reduce_close_child s i)" "keeps_assignments s (reduce_cancel s)" "keeps_assignments s (reduce_supersede s)"
  "keeps_assignments s (reduce_reservation_result s key r)" "keeps_assignments s (reduce_child_security_failure s i)"
  subgoal by (cases "ts_preference s") (simp_all add: keeps_assignments_def reduce_start_plan_def start_pending_eq Let_def)
  subgoal by (simp add: keeps_assignments_def reduce_child_active_def update_child_def Let_def split: option.split)
  subgoal by (simp add: reduce_child_reachability_def update_child_def Let_def keeps_assignments_def [of _ "(_, _)"] split: option.split)
  subgoal by (simp add: reduce_webrtc_probe_def update_child_def Let_def keeps_assignments_def [of _ "(_, _)"] split: option.split)
  subgoal by (simp add: keeps_assignments_def reduce_websocket_ack_def update_child_def split: option.split)
  subgoal by (simp add: reduce_deadline_fired_def Let_def keeps_assignments_def [of _ "(_, _)"])
  subgoal by (simp add: keeps_assignments_def reduce_retry_delay_fired_def push_child_def Let_def split: option.split)
  subgoal by (simp add: keeps_assignments_def reduce_child_closed_def update_child_def increment_kind_retry_def Let_def
        alloc_child_attempt_def alloc_epoch_def split: option.split)
  subgoal by (simp add: keeps_assignments_def reduce_request_second_child_def alloc_child_attempt_def alloc_epoch_def push_child_def Let_def
        split: option.split)
  subgoal by (simp add: keeps_assignments_def reduce_credential_rotation_def alloc_child_attempt_def alloc_epoch_def push_child_def
        update_child_def Let_def split: option.split)
  subgoal by (simp add: keeps_assignments_def reduce_supervisor_cutover_ack_def update_child_def Let_def split: option.split)
  subgoal by (simp add: keeps_assignments_def reduce_second_lease_def update_child_def Let_def split: option.split)
  subgoal by (simp add: keeps_assignments_def reduce_close_child_def update_child_def split: option.split)
  subgoal by (simp add: keeps_assignments_def reduce_cancel_def)
  subgoal by (simp add: keeps_assignments_def reduce_supersede_def)
  subgoal by (simp add: keeps_assignments_def reduce_reservation_result_def update_child_def split: sum.split)
  subgoal by (simp add: keeps_assignments_def reduce_child_security_failure_def update_child_def Let_def split: option.split)
  done

lemma keeps_reduce:
  "(\<forall>d cls. input \<noteq> In_RouteRequest d cls) \<or> ts_cancelled s \<Longrightarrow> keeps_assignments s (selection_reduce s input)"
  by (cases input) (auto simp: selection_reduce_def keeps_others keeps_assignments_def [of _ "(_, _)"])

lemma route_request_keeps:
  "reduce_route_request s d cls = (s', acts) \<Longrightarrow> d' \<noteq> d \<Longrightarrow> ts_delivery_assignments s' d' = ts_delivery_assignments s d'"
  by (auto simp: reduce_route_request_def Let_def split: option.splits if_splits)

lemma assigned_request:
  assumes "ts_delivery_assignments s d = Some i" and "current_in s i" and "\<not> ts_cancelled s"
  shows "selection_reduce s (In_RouteRequest d cls) = (s, [RouteDelivery d i])"
  using assms by (auto simp: selection_reduce_def reduce_route_request_def current_in_def split: option.splits)

lemma assignment_step:
  assumes "selection_reduce s input = (s', acts)" and "ts_delivery_assignments s d = Some i" and "current_in s i"
  shows "ts_delivery_assignments s' d = Some i \<and> (\<forall>j. RouteDelivery d j \<in> set acts \<longrightarrow> j = i)"
proof (cases "\<exists>cls. input = In_RouteRequest d cls \<and> \<not> ts_cancelled s")
  case True
  then show ?thesis using assigned_request [OF assms(2,3)] assms(1,2) by auto
next
  case False
  then have "\<forall>j. RouteDelivery d j \<notin> set acts" using route_action_input [OF assms(1)] by blast
  moreover have "ts_delivery_assignments s' d = ts_delivery_assignments s d"
  proof (cases "\<exists>d' cls. input = In_RouteRequest d' cls \<and> \<not> ts_cancelled s")
    case True
    then show ?thesis using False assms(1) route_request_keeps [of s _ _ s' acts d] by (auto simp: selection_reduce_def)
  next
    case False
    then show ?thesis using keeps_reduce [of input s] assms(1) by (auto simp: keeps_assignments_def)
  qed
  ultimately show ?thesis using assms(2) by simp
qed

lemma sticky_run:
  "ts_delivery_assignments s d = Some i \<Longrightarrow> stays_current s i inputs \<Longrightarrow> selection_run s inputs = (s', acts) \<Longrightarrow>
   ts_delivery_assignments s' d = Some i \<and> current_in s' i \<and> (\<forall>j. RouteDelivery d j \<in> set acts \<longrightarrow> j = i)"
proof (induction inputs arbitrary: s acts)
  case (Cons input inputs)
  obtain s1 a1 where r: "selection_reduce s input = (s1, a1)" by fastforce
  obtain a2 where run: "selection_run s1 inputs = (s', a2)" "acts = a1 @ a2" using Cons.prems(3) r by (auto split: prod.splits)
  from assignment_step [OF r Cons.prems(1)] Cons.prems(2) Cons.IH [OF _ _ run(1)] r run(2) show ?case by auto
qed simp

section \<open>Cancellation\<close>

lemma run_cancelled:
  "ts_cancelled s \<Longrightarrow> selection_run s inputs = (s', acts) \<Longrightarrow>
   ts_children s' = ts_children s \<and> ts_pending_retry s' = ts_pending_retry s
   \<and> set acts \<subseteq> {Inert, ParentTransition Parent_Superseded}"
proof (induction inputs arbitrary: s acts)
  case (Cons input inputs)
  obtain s1 a1 where r: "selection_reduce s input = (s1, a1)" by fastforce
  obtain a2 where run: "selection_run s1 inputs = (s', a2)" "acts = a1 @ a2" using Cons.prems(2) r by (auto split: prod.splits)
  have "ts_cancelled s1 \<and> ts_children s1 = ts_children s \<and> ts_pending_retry s1 = ts_pending_retry s
      \<and> set a1 \<subseteq> {Inert, ParentTransition Parent_Superseded}"
    using r Cons.prems(1) by (auto simp: selection_reduce_def split: if_splits)
  with Cons.IH [OF _ run(1)] run(2) show ?case by auto
qed simp

section \<open>Properties\<close>

text \<open>
  C24. Only granted kinds are started. Over every sequence of inputs, each child that the reducer starts, be
  it initial, fallback, second, retry or replacement, has a kind that the authorization and the preference
  grant: consent is available and quota is left, the kind is authorized, supported and not excluded by
  preference, and WebRTC without TURN needs direct consent and direct privacy.
\<close>

theorem selection_starts_granted:
  assumes "selection_run (selection_new auth preference train deadline) inputs = (s, acts)"
    and "(i, k, e) \<in> set (started acts)"
  shows "grants auth preference k"
proof -
  let ?s = "selection_new auth preference train deadline" and ?ks = "{k. grants auth preference k}"
  have "kinds_inv ?ks ?s" by (auto simp: kinds_inv_def selection_new_def allowed_kinds_def plan_allows_iff)
  from run_kinds [OF assms(1) this] have "set (map ch_kind (ts_children s)) \<subseteq> ?ks" by (simp add: kinds_inv_def)
  moreover have "roster s = started acts"
    using run_policy_roster [OF assms(1)] by (simp add: roster_def selection_new_def)
  ultimately show ?thesis using assms(2) unfolding roster_kinds by auto
qed

text \<open>
  The plan is exact. A kind is in the plan exactly when it is granted, and a plan without kinds gives a
  reason.
\<close>

theorem authorized_plan_exact:
  "set (pl_allowed_kinds (compute_authorized_plan auth preference)) = {k. grants auth preference k}
   \<and> (pl_allowed_kinds (compute_authorized_plan auth preference) \<noteq> []
      \<or> pl_denials (compute_authorized_plan auth preference) \<noteq> [])"
  using plan_allows_iff plan_denials by blast

text \<open>
  C29. Attempt ids are never reused. As long as fewer than \<open>2 ^ 64\<close> inputs have arrived, the children of the
  attachment are exactly those started, in order, their attempt ids are pairwise different and nonzero, and
  each epoch equals its attempt id.
\<close>

theorem selection_attempts_fresh:
  assumes "selection_run (selection_new auth preference train deadline) inputs = (s, acts)"
    and "length inputs + 1 < 2 ^ 64"
  shows "map (\<lambda>c. (ch_attempt c, ch_kind c, ch_epoch c)) (ts_children s) = started acts
     \<and> distinct (map fst (started acts)) \<and> list_all (\<lambda>(i, k, e). i \<noteq> 0 \<and> e = i) (started acts)"
proof -
  have "numbers_inv 0 (selection_new auth preference train deadline)"
    by (simp add: numbers_inv_def selection_new_def roster_def attempts_def)
  from run_numbers [OF assms(1) this] assms(2) have inv: "numbers_inv (length inputs) s" by simp
  moreover have "roster s = started acts"
    using run_policy_roster [OF assms(1)] by (simp add: roster_def selection_new_def)
  ultimately show ?thesis by (auto simp: numbers_inv_def attempts_def roster_def [symmetric] list_all_iff)
qed

text \<open>
  C25. The retry budget of a train holds. Over every sequence of inputs at most one same-kind retry is armed
  per kind, two in all, and the counters of the state say how many.
\<close>

theorem selection_retry_budget:
  assumes "selection_run (selection_new auth preference train deadline) inputs = (s, acts)"
  shows "kind_retries s k \<le> MAX_SAME_KIND_RETRIES \<and> retries_armed acts \<le> 2
     \<and> retries_armed acts = unat (kind_retries s Webrtc) + unat (kind_retries s Websocket)"
proof -
  let ?s = "selection_new auth preference train deadline"
  have z: "kind_retries ?s k = 0" for k by (simp add: kind_retries_def selection_new_def)
  from run_retries [OF assms] have "\<forall>k. kind_retries s k \<le> 1" "retries_used s = retries_armed acts"
    by (simp_all add: z retries_used_def)
  moreover from this have "unat (kind_retries s k) \<le> 1" for k by (simp add: word_le_nat_alt)
  ultimately show ?thesis
    using add_mono [of "unat (kind_retries s Webrtc)" 1 "unat (kind_retries s Websocket)" 1]
    by (simp add: selection_consts retries_used_def)
qed

text \<open>
  Pending children stay within their caps. After one start of the plan and any other inputs, at most
  one ordinary child per kind and two in all are pending.
\<close>

theorem selection_pending_capped:
  assumes "selection_run (selection_new auth preference train deadline) (In_StartPlan # inputs) = (s, acts)"
    and "In_StartPlan \<notin> set inputs"
  shows "count_ordinary_pending_kind s k \<le> MAX_PENDING_PER_KIND
     \<and> count_ordinary_pending s \<le> MAX_ORDINARY_PENDING_CHILDREN"
proof -
  obtain s1 a1 where r: "selection_reduce (selection_new auth preference train deadline) In_StartPlan = (s1, a1)" by fastforce
  obtain a2 where run: "selection_run s1 inputs = (s, a2)" using assms(1) r by (auto split: prod.splits)
  have "\<forall>k. pending_of k (ts_children s1) \<le> 1"
    using start_plan_pending [OF _ _ r] by (simp add: selection_new_def)
  from run_pending [OF run assms(2) this] have "\<forall>k. pending_of k (ts_children s) \<le> 1" .
  moreover from this have "pending_of Webrtc (ts_children s) + pending_of Websocket (ts_children s) \<le> 1 + 1"
    by (intro add_mono) blast+
  ultimately show ?thesis by (simp add: count_pending_of count_pending_sum selection_consts)
qed

text \<open>
  C26. Routing picks a best current child. A route exists exactly when some child is routed-current, and the
  chosen child is routed-current with no routed-current child better for the class: control prefers health
  and then the lower epoch, interactive prefers healthy WebRTC, then healthy WebSocket, then the lower epoch,
  and bulk prefers health, then more writable bytes, then within one transport the lower epoch. Which
  transport wins a tie of writable bytes is left open here.
\<close>

theorem route_selects_best:
  "case select_route s cls of
     None \<Rightarrow> \<not> list_ex is_routed_current (ts_children s)
   | Some i \<Rightarrow> \<exists>x. x \<in> set (ts_children s) \<and> ch_attempt x = i \<and> is_routed_current x
       \<and> \<not> list_ex (\<lambda>y. is_routed_current y \<and> route_better cls y x) (ts_children s)"
proof (cases "select_route s cls")
  case None
  then show ?thesis using route_none [of s cls] by (auto simp: current_children_def list_ex_iff filter_empty_conv)
next
  case (Some i)
  then show ?thesis by (rule route_child) (auto simp: Some current_children_def list_ex_iff)
qed

text \<open>
  C27. Deliveries go to current children and stay there. In every reachable state a delivery is routed only
  on its own request and to a child that is routed-current. Over whatever inputs follow while that child
  stays routed-current, other deliveries included, the delivery is routed to no other child, and a new request
  for it, of any class, is answered with the same child.
\<close>

theorem delivery_routed_and_sticky:
  assumes "selection_run (selection_new auth preference train deadline) inputs = (s, acts)"
    and "length inputs + 1 < 2 ^ 64"
    and "selection_reduce s input = (s1, acts1)" and "RouteDelivery d i \<in> set acts1"
    and "stays_current s1 i later" and "selection_run s1 later = (s2, acts2)"
  shows "(\<exists>cls. input = In_RouteRequest d cls) \<and> current_in s i
     \<and> (\<forall>j. RouteDelivery d j \<in> set acts2 \<longrightarrow> j = i)
     \<and> (\<not> ts_cancelled s2 \<longrightarrow> selection_reduce s2 (In_RouteRequest d cls') = (s2, [RouteDelivery d i]))"
proof -
  have "numbers_inv 0 (selection_new auth preference train deadline)"
    by (simp add: numbers_inv_def selection_new_def roster_def attempts_def)
  from run_numbers [OF assms(1) this] assms(2) have dist: "distinct (attempts s)" by (simp add: numbers_inv_def)
  obtain cls where input: "input = In_RouteRequest d cls" "\<not> ts_cancelled s"
    using route_action_input assms(3,4) by blast
  from input assms(3) have "reduce_route_request s d cls = (s1, acts1)" by (simp add: selection_reduce_def)
  from route_request_child [OF dist this assms(4)] have first: "current_in s i" "ts_delivery_assignments s1 d = Some i"
    by (auto simp: current_in_def)
  from sticky_run [OF first(2) assms(5,6)] have "ts_delivery_assignments s2 d = Some i" "current_in s2 i"
    and only: "\<forall>j. RouteDelivery d j \<in> set acts2 \<longrightarrow> j = i" by blast+
  then have "\<not> ts_cancelled s2 \<longrightarrow> selection_reduce s2 (In_RouteRequest d cls') = (s2, [RouteDelivery d i])"
    using assigned_request by blast
  with input(1) first(1) only show ?thesis by blast
qed

text \<open>
  C28. Cancellation is final. After a cancel or a supersede, whatever arrives, no child changes and the only
  actions are inert ones and the transition to superseded; in particular nothing is started or routed.
\<close>

theorem selection_cancel_final:
  assumes "input = In_Cancel \<or> input = In_Supersede" and "selection_reduce s input = (s1, acts1)"
    and "selection_run s1 inputs = (s2, acts2)"
  shows "ts_children s2 = ts_children s1 \<and> ts_pending_retry s2 = ts_pending_retry s1
     \<and> set acts2 \<subseteq> {Inert, ParentTransition Parent_Superseded}"
proof -
  have "ts_cancelled s1" using assms(1,2) by (auto simp: selection_reduce_def reduce_cancel_def reduce_supersede_def split: if_splits)
  with assms(3) show ?thesis using run_cancelled by blast
qed

text \<open>
  A security failure does not end the attachment. With both kinds granted under automatic preference, the
  first WebRTC child fails its security check and the parent is declared failed; the deadline timer, still
  armed, then starts a WebSocket child.
\<close>

theorem security_failure_falls_back:
  assumes "grants auth Prefer_Auto Webrtc" and "grants auth Prefer_Auto Websocket"
  shows "\<exists>s s' acts acts'. selection_run (selection_new auth Prefer_Auto train deadline) [In_StartPlan, In_ChildSecurityFailure 1] = (s, acts)
     \<and> ts_parent_state s = Parent_Failed \<and> ts_deadline_timer_armed s
     \<and> selection_reduce s (In_DeadlineFired now) = (s', acts') \<and> acts' = [StartChild 2 Websocket 2]"
proof -
  let ?s0 = "selection_new auth Prefer_Auto train deadline"
  have w: "Webrtc \<in> set (pl_allowed_kinds (compute_authorized_plan auth Prefer_Auto))"
    "Websocket \<in> set (pl_allowed_kinds (compute_authorized_plan auth Prefer_Auto))"
    using assms by (simp_all add: plan_allows_iff)
  then have ne: "pl_allowed_kinds (compute_authorized_plan auth Prefer_Auto) \<noteq> []" by auto
  show ?thesis
    using w ne
    by (simp add: selection_new_def selection_reduce_def reduce_start_plan_def start_pending_eq
        reduce_child_security_failure_def reduce_deadline_fired_def maybe_start_websocket_fallback_def find_child_def
        update_child_def any_active_def any_pending_def count_ordinary_pending_kind_def count_ordinary_pending_def
        is_ordinary_pending_def selection_consts Let_def)
qed

text \<open>
  A child that failed its security check can carry traffic. The TURN replacement of an active WebRTC
  child fails its security check and is cancelled and closed. The cutover acknowledgement still makes it the
  current child, and the next delivery is routed to it.
\<close>

theorem failed_replacement_carries_traffic:
  assumes "grants auth Prefer_Auto Webrtc"
  shows "\<exists>s acts c. selection_run (selection_new auth Prefer_Auto train deadline)
       [In_StartPlan, In_ChildActive 1 0, In_CredentialRotationLead 0, In_ChildSecurityFailure 2,
        In_SupervisorCutoverAck 1 2, In_RouteRequest d Route_Control] = (s, acts)
     \<and> Deny SecurityFailure \<in> set acts \<and> RouteDelivery d 2 \<in> set acts
     \<and> find_child s 2 = Some c \<and> ch_cancelled c \<and> is_routed_current c"
proof -
  have w: "Webrtc \<in> set (pl_allowed_kinds (compute_authorized_plan auth Prefer_Auto))"
    using assms by (simp add: plan_allows_iff)
  then have ne: "pl_allowed_kinds (compute_authorized_plan auth Prefer_Auto) \<noteq> []" by auto
  show ?thesis
    using w ne
    by (simp add: selection_new_def selection_reduce_def reduce_start_plan_def start_pending_eq
        reduce_child_active_def reduce_credential_rotation_def reduce_supervisor_cutover_ack_def
        reduce_child_security_failure_def reduce_route_request_def select_route_def find_child_def alloc_child_attempt_def
        alloc_epoch_def push_child_def count_physical_children_def
        update_child_def any_active_def any_pending_def is_routed_current_def min_first_def new_pending_def
        recompute_health_def selection_consts Let_def)
qed

section \<open>Witnesses and boundaries\<close>

definition full_authorization :: transport_authorization where
  "full_authorization =
     \<lparr>ta_webrtc_authorized = True, ta_websocket_authorized = True, ta_ip_consent = Consent_DirectAllowed,
      ta_participant_privacy = Privacy_DirectAllowed, ta_turn_available = False, ta_quota_available = True,
      ta_client_supports_webrtc = True, ta_client_supports_websocket = True\<rparr>"

definition sample_selection :: selection where
  "sample_selection = selection_new full_authorization Prefer_Auto 7 10"

lemma full_plan: "pl_allowed_kinds (compute_authorized_plan full_authorization Prefer_Auto) = [Webrtc, Websocket]"
  by (simp add: compute_authorized_plan_def full_authorization_def admit_kind_def push_kind_def)

lemma full_grants: "grants full_authorization Prefer_Auto k"
  by (cases k) (simp_all add: grants_def full_authorization_def)

lemmas run_eval = sample_selection_def selection_new_def selection_reduce_def start_pending_eq find_child_def
  update_child_def any_active_def any_pending_def count_ordinary_pending_kind_def count_ordinary_pending_def
  count_routed_current_def count_physical_children_def is_ordinary_pending_def is_routed_current_def new_pending_def
  recompute_health_def compute_health_tier_def alloc_child_attempt_def alloc_epoch_def push_child_def full_plan
  selection_consts Let_def

lemma sample_start:
  obtains s acts where "selection_run sample_selection [In_StartPlan] = (s, acts)" "started acts = [(1, Webrtc, 1)]"
  by (simp add: reduce_start_plan_def run_eval)

lemma sample_active:
  obtains s acts s1 s2 where "selection_run sample_selection [In_StartPlan, In_ChildActive 1 0] = (s, acts)"
    "selection_reduce s (In_RouteRequest ''d'' Route_Bulk) = (s1, [RouteDelivery ''d'' 1])"
    "selection_run s1 [In_RouteRequest ''x'' Route_Control] = (s2, [RouteDelivery ''x'' 1])"
    "stays_current s1 1 [In_RouteRequest ''x'' Route_Control]" "\<not> ts_cancelled s2"
proof -
  obtain s acts where r: "selection_run sample_selection [In_StartPlan, In_ChildActive 1 0] = (s, acts)" by fastforce
  let ?r = "\<lambda>s d cls. selection_reduce s (In_RouteRequest d cls)"
  let ?s1 = "fst (?r s ''d'' Route_Bulk)"
  note evals = reduce_start_plan_def reduce_child_active_def reduce_route_request_def select_route_def min_first_def
    max_last_def healthy_def saturating_add_def word_le_nat_alt run_eval
  have "snd (?r s ''d'' Route_Bulk) = [RouteDelivery ''d'' 1]" using r by (auto simp: evals)
  moreover have "snd (?r ?s1 ''x'' Route_Control) = [RouteDelivery ''x'' 1]" using r by (auto simp: evals)
  moreover have "current_in ?s1 1" "current_in (fst (?r ?s1 ''x'' Route_Control)) 1"
      "\<not> ts_cancelled (fst (?r ?s1 ''x'' Route_Control))"
    using r by (auto simp: evals current_in_def)
  ultimately show thesis
    using r by (intro that [of s acts ?s1 "fst (?r ?s1 ''x'' Route_Control)"]) (simp_all add: prod_eq_iff split: prod.split)
qed

theorem selection_starts_granted_witness:
  "\<exists>s acts. selection_run (selection_new full_authorization Prefer_Auto 7 10) [In_StartPlan] = (s, acts)
     \<and> started acts = [(1, Webrtc, 1)] \<and> grants full_authorization Prefer_Auto Webrtc"
proof -
  obtain s acts where r: "selection_run sample_selection [In_StartPlan] = (s, acts)" "started acts = [(1, Webrtc, 1)]"
    by (rule sample_start)
  with selection_starts_granted [OF r(1) [unfolded sample_selection_def], of 1 Webrtc 1] show ?thesis
    by (auto simp: sample_selection_def)
qed

theorem selection_attempts_fresh_witness:
  "\<exists>s acts. selection_run (selection_new full_authorization Prefer_Auto 7 10) [In_StartPlan] = (s, acts)
     \<and> distinct (map fst (started acts))"
proof -
  obtain s acts where r: "selection_run sample_selection [In_StartPlan] = (s, acts)" by fastforce
  from selection_attempts_fresh [OF r [unfolded sample_selection_def]] r show ?thesis by (auto simp: sample_selection_def)
qed

theorem selection_retry_budget_witness:
  "\<exists>s acts. selection_run (selection_new full_authorization Prefer_Auto 7 10) [In_StartPlan, In_ChildClosed 1 False] = (s, acts)
     \<and> retries_armed acts = 1 \<and> kind_retries s Webrtc \<le> MAX_SAME_KIND_RETRIES"
proof -
  obtain s acts where r: "selection_run sample_selection [In_StartPlan, In_ChildClosed 1 False] = (s, acts)"
      "retries_armed acts = 1"
    by (simp add: reduce_start_plan_def reduce_child_closed_def increment_kind_retry_def kind_retries_def run_eval)
  from selection_retry_budget [OF r(1) [unfolded sample_selection_def], of Webrtc] r show ?thesis
    by (auto simp: sample_selection_def)
qed

theorem selection_pending_capped_witness:
  "\<exists>s acts. selection_run (selection_new full_authorization Prefer_Auto 7 10) [In_StartPlan, In_DeadlineFired 0] = (s, acts)
     \<and> count_ordinary_pending s \<le> 2"
proof -
  obtain s acts where r: "selection_run sample_selection [In_StartPlan, In_DeadlineFired 0] = (s, acts)" by fastforce
  from selection_pending_capped [OF r [unfolded sample_selection_def]] r show ?thesis
    by (auto simp: sample_selection_def selection_consts)
qed

theorem delivery_routed_and_sticky_witness:
  "\<exists>s acts s1 s2. selection_run (selection_new full_authorization Prefer_Auto 7 10) [In_StartPlan, In_ChildActive 1 0] = (s, acts)
     \<and> selection_reduce s (In_RouteRequest ''d'' Route_Bulk) = (s1, [RouteDelivery ''d'' 1])
     \<and> selection_run s1 [In_RouteRequest ''x'' Route_Control] = (s2, [RouteDelivery ''x'' 1])
     \<and> selection_reduce s2 (In_RouteRequest ''d'' Route_Interactive) = (s2, [RouteDelivery ''d'' 1])"
proof -
  obtain s acts s1 s2 where r: "selection_run sample_selection [In_StartPlan, In_ChildActive 1 0] = (s, acts)"
      "selection_reduce s (In_RouteRequest ''d'' Route_Bulk) = (s1, [RouteDelivery ''d'' 1])"
      "selection_run s1 [In_RouteRequest ''x'' Route_Control] = (s2, [RouteDelivery ''x'' 1])"
      "stays_current s1 1 [In_RouteRequest ''x'' Route_Control]" "\<not> ts_cancelled s2" by (rule sample_active)
  from delivery_routed_and_sticky [OF r(1) [unfolded sample_selection_def] _ r(2) _ r(4,3), of "''d''"] r show ?thesis
    by (auto simp: sample_selection_def)
qed

theorem selection_cancel_final_witness:
  "\<exists>s1 acts1 s2 acts2. selection_reduce sample_selection In_Cancel = (s1, acts1)
     \<and> selection_run s1 [In_StartPlan] = (s2, acts2) \<and> ts_children s2 = []"
proof -
  obtain s1 acts1 s2 acts2 where r: "selection_reduce sample_selection In_Cancel = (s1, acts1)"
    "selection_run s1 [In_StartPlan] = (s2, acts2)" by fastforce
  then have "ts_children s1 = []" by (auto simp: sample_selection_def selection_new_def selection_reduce_def reduce_cancel_def)
  with selection_cancel_final [OF _ r] r show ?thesis by auto
qed

theorem security_failure_falls_back_witness:
  "\<exists>s acts. selection_run sample_selection [In_StartPlan, In_ChildSecurityFailure 1] = (s, acts)
     \<and> snd (selection_reduce s (In_DeadlineFired 0)) = [StartChild 2 Websocket 2]"
  using security_failure_falls_back [OF full_grants full_grants, of 7 10 0] by (auto simp: sample_selection_def)

theorem failed_replacement_carries_traffic_witness:
  "\<exists>s acts. selection_run sample_selection
     [In_StartPlan, In_ChildActive 1 0, In_CredentialRotationLead 0, In_ChildSecurityFailure 2,
      In_SupervisorCutoverAck 1 2, In_RouteRequest ''d'' Route_Control] = (s, acts) \<and> RouteDelivery ''d'' 2 \<in> set acts"
  using failed_replacement_carries_traffic [OF full_grants, of 7 10 "''d''"] by (auto simp: sample_selection_def)

text \<open>A closed child that is reported active again counts as current: three current children, two of one kind.\<close>

lemma late_activation_exceeds_cap:
  "count_routed_current (fst (selection_run sample_selection
     [In_StartPlan, In_ChildReachability 1 IceTimeout, In_ChildActive 2 0, In_RequestSecondChild NetworkHandoff 0,
      In_ChildActive 3 0, In_ChildActive 1 0])) = 3"
  by (simp add: reduce_start_plan_def reduce_child_reachability_def maybe_start_websocket_fallback_def
      reduce_child_active_def reduce_request_second_child_def run_eval)

text \<open>A second lease before the cutover closes the live current child, and deliveries have nowhere to go.\<close>

lemma early_second_lease_closes_current:
  "snd (selection_run sample_selection
     [In_StartPlan, In_ChildActive 1 0, In_CredentialRotationLead 0, In_SecondLease 1, In_RouteRequest d Route_Control])
   = [ParentTransition Parent_Establishing, StartChild 1 Webrtc 1, ArmDeadlineTimer 10, ParentTransition Parent_Active,
      StartReplacementPending 2 Webrtc 2, CloseChild 1, Deny PolicyDenied]"
  by (simp add: reduce_start_plan_def reduce_child_active_def reduce_credential_rotation_def reduce_second_lease_def
      reduce_route_request_def select_route_def run_eval)

text \<open>Between two healthy children with equal room, bulk work goes to the WebSocket child.\<close>

lemma bulk_tie_prefers_websocket:
  assumes "is_routed_current a" "is_routed_current b" "healthy a" "healthy b" "writable_bytes a = writable_bytes b"
    and "ch_kind a = Webrtc" "ch_kind b = Websocket" and "ts_children s = [a, b]"
  shows "select_route s Route_Bulk = Some (ch_attempt b)"
  using assms by (simp add: select_route_def max_last_def bulk_less_def Let_def)

lemma retry_budget_exact:
  assumes "length existing < 2 ^ 32" and "length committed < 2 ^ 32"
  shows "validate_retry_budget existing committed key now = Inr () \<longleftrightarrow>
     list_ex (same_reservation key) existing
     \<or> (length (filter (\<lambda>r. rk_train_id (rr_key r) = rk_train_id key) existing) < 4
        \<and> length (filter (\<lambda>r. sint (now - ROLLING_WINDOW_SECS * 1000) \<le> sint (rr_reserved_at_ms r)) committed) < 12)"
proof -
  have small: "(of_nat (length (filter P xs)) :: u32) < w \<longleftrightarrow> length (filter P xs) < unat w"
    if "length xs < 2 ^ 32" for P w and xs :: "retry_reservation list"
    using that le_less_trans [OF length_filter_le that] by (simp add: word_less_nat_alt unat_of_nat_small)
  show ?thesis
    using small [OF assms(1)] small [OF assms(2)]
    by (auto simp: validate_retry_budget_def Let_def selection_consts simp flip: not_less)
qed

end
