(* ===== verification/Selection_Trace.thy ===== *)
theory Selection_Trace
  imports Selection_Runs
begin

text \<open>
  Golden traces of the transport selection reducer
  (\<open>crates/cockpit-core/src/daemon/transport_selection.rs\<close>): the portable form of inputs and actions and
  \<open>record_golden_trace\<close>. Shown here: a trace is the projection of the run it records, step by step.
\<close>

section \<open>Definitions\<close>

datatype golden_input =
    G_StartPlan
  | G_ChildActive u64 u64
  | G_ChildReachability u64 reachability_class
  | G_WebrtcProbe u64 bool u64
  | G_WebsocketAckProgress u64 u64 u64 u32
  | G_DeadlineFired u64
  | G_RetryDelayFired u64
  | G_ChildClosed u64 bool
  | G_RequestSecondChild second_child_reason u64
  | G_CredentialRotationLead u64
  | G_SupervisorCutoverAck u64 u64
  | G_SecondLease u64
  | G_CloseChild u64
  | G_Cancel
  | G_Supersede
  | G_RouteRequest string routing_class
  | G_ReservationResult u64 bool
  | G_ChildSecurityFailure u64

fun golden_input_from :: "selection_input \<Rightarrow> golden_input" where
  "golden_input_from In_StartPlan = G_StartPlan"
| "golden_input_from (In_ChildActive i now) = G_ChildActive i now"
| "golden_input_from (In_ChildReachability i cls) = G_ChildReachability i cls"
| "golden_input_from (In_WebrtcProbe i success buffered) = G_WebrtcProbe i success buffered"
| "golden_input_from (In_WebsocketAckProgress i age buffered retransmissions) =
     G_WebsocketAckProgress i age buffered retransmissions"
| "golden_input_from (In_DeadlineFired now) = G_DeadlineFired now"
| "golden_input_from (In_RetryDelayFired now) = G_RetryDelayFired now"
| "golden_input_from (In_ChildClosed i security_failure) = G_ChildClosed i security_failure"
| "golden_input_from (In_RequestSecondChild reason now) = G_RequestSecondChild reason now"
| "golden_input_from (In_CredentialRotationLead now) = G_CredentialRotationLead now"
| "golden_input_from (In_SupervisorCutoverAck old new) = G_SupervisorCutoverAck old new"
| "golden_input_from (In_SecondLease old) = G_SecondLease old"
| "golden_input_from (In_CloseChild i) = G_CloseChild i"
| "golden_input_from In_Cancel = G_Cancel"
| "golden_input_from In_Supersede = G_Supersede"
| "golden_input_from (In_RouteRequest d cls) = G_RouteRequest d cls"
| "golden_input_from (In_ReservationResult key result) = G_ReservationResult (rk_child_attempt key) (is_ok result)"
| "golden_input_from (In_ChildSecurityFailure i) = G_ChildSecurityFailure i"

datatype golden_action =
    GA_StartChild u64 transport_kind u64
  | GA_ArmDeadlineTimer u64
  | GA_ArmRetryDelay u64
  | GA_CancelChild u64
  | GA_CloseChild u64
  | GA_StartReplacementPending u64 transport_kind u64
  | GA_EmitCutoverLease u64 u64
  | GA_RouteDelivery string u64
  | GA_Deny transport_denial
  | GA_ReserveRetry u64
  | GA_ParentTransition parent_state
  | GA_Inert

fun golden_action_from :: "selection_action \<Rightarrow> golden_action" where
  "golden_action_from (StartChild i k e) = GA_StartChild i k e"
| "golden_action_from (ArmDeadlineTimer secs) = GA_ArmDeadlineTimer secs"
| "golden_action_from (ArmRetryDelay secs) = GA_ArmRetryDelay secs"
| "golden_action_from (CancelChild i) = GA_CancelChild i"
| "golden_action_from (CloseChild i) = GA_CloseChild i"
| "golden_action_from (StartReplacementPending i k e) = GA_StartReplacementPending i k e"
| "golden_action_from (EmitCutoverLease current draining lease) = GA_EmitCutoverLease current draining"
| "golden_action_from (RouteDelivery d i) = GA_RouteDelivery d i"
| "golden_action_from (Deny denial) = GA_Deny denial"
| "golden_action_from (ReserveRetry key) = GA_ReserveRetry (rk_child_attempt key)"
| "golden_action_from (ParentTransition st) = GA_ParentTransition st"
| "golden_action_from Inert = GA_Inert"

record golden_entry =
  ge_step :: u64
  ge_input :: golden_input
  ge_parent_before :: parent_state
  ge_parent_after :: parent_state
  ge_actions :: "golden_action list"

text \<open>The loop of \<open>record_golden_trace\<close> from step \<open>i\<close> on.\<close>

fun golden_entries :: "nat \<Rightarrow> selection \<Rightarrow> selection_input list \<Rightarrow> golden_entry list" where
  "golden_entries i s [] = []"
| "golden_entries i s (input # inputs) =
     (case selection_reduce s input of (s', acts) \<Rightarrow>
        \<lparr>ge_step = of_nat i, ge_input = golden_input_from input, ge_parent_before = ts_parent_state s,
         ge_parent_after = ts_parent_state s', ge_actions = map golden_action_from acts\<rparr>
        # golden_entries (Suc i) s' inputs)"

definition record_golden_trace :: "selection \<Rightarrow> selection_input list \<Rightarrow> golden_entry list" where
  "record_golden_trace initial_state inputs = golden_entries 0 initial_state inputs"

section \<open>The trace of a run\<close>

lemma golden_entries_run:
  assumes "selection_run s inputs = (s', acts)"
  shows "map ge_input (golden_entries n s inputs) = map golden_input_from inputs
     \<and> concat (map ge_actions (golden_entries n s inputs)) = map golden_action_from acts
     \<and> map ge_step (golden_entries n s inputs) = map of_nat [n..<n + length inputs]
     \<and> ts_parent_state s # map ge_parent_after (golden_entries n s inputs)
        = map ge_parent_before (golden_entries n s inputs) @ [ts_parent_state s']"
  using assms
proof (induction inputs arbitrary: s acts n)
  case (Cons input inputs)
  obtain s1 a1 where r: "selection_reduce s input = (s1, a1)" by fastforce
  obtain a2 where run: "selection_run s1 inputs = (s', a2)" "acts = a1 @ a2" using Cons.prems r by (auto split: prod.splits)
  have "[n..<n + length (input # inputs)] = n # [Suc n..<Suc n + length inputs]" by (simp add: upt_rec)
  with Cons.IH [OF run(1), of "Suc n"] r run(2) show ?case by simp
qed simp

text \<open>
  A golden trace records its run. The entries name the inputs in order and are numbered from zero, their
  actions are those of the run, and the parent states chain from the initial to the final state.
\<close>

theorem golden_trace_records_run:
  "let trace = record_golden_trace s inputs; (s', acts) = selection_run s inputs in
     map ge_input trace = map golden_input_from inputs \<and> concat (map ge_actions trace) = map golden_action_from acts
     \<and> map ge_step trace = map of_nat [0..<length inputs]
     \<and> ts_parent_state s # map ge_parent_after trace = map ge_parent_before trace @ [ts_parent_state s']"
proof -
  obtain s' acts where r: "selection_run s inputs = (s', acts)" by fastforce
  from golden_entries_run [OF r, of 0] show ?thesis by (simp add: record_golden_trace_def r Let_def)
qed

end
