(* ===== verification/Bulk_Staging.thy ===== *)
theory Bulk_Staging
  imports Remote_Bulk Ordered_Store Remote_Contracts "HOL-Library.Product_Lexorder" "HOL-Library.Option_ord"
begin

text \<open>
  The daemon's staging area for bulk transfers (\<open>crates/cockpit-core/src/daemon/bulk_staging.rs\<close>), with the
  transport-neutral references of \<open>crates/cockpit-proto/src/bulk_transfer.rs\<close> and the quota identities and
  limits of \<open>crates/cockpit-core/src/resource_limits.rs\<close>.

  The process-wide store behind its mutex is the explicit state of every operation, and the monotonic clock
  is an argument. The canonical decimal string of a reference's length is represented by its value. A failed
  \<open>expect\<close> or slice is the value \<open>None\<close>.

  The behaviour over sequences of calls is in \<open>Staging_Runs\<close>.
\<close>

section \<open>Definitions\<close>

subsection \<open>References\<close>

definition BULK_MAX_TRANSFER_BYTES :: u64 where "BULK_MAX_TRANSFER_BYTES = 512 * 1024 * 1024"

datatype bulk_class = Class_Image | Class_ImageSet | Class_Archive | Class_Export | Class_Opaque | Class_RedactedExport

fun class_max_total_length :: "bulk_class \<Rightarrow> u64" where
  "class_max_total_length Class_Image = of_nat PASTE_MAX_SINGLE_IMAGE_BYTES"
| "class_max_total_length Class_ImageSet = of_nat PASTE_MAX_TOTAL_IMAGE_BYTES"
| "class_max_total_length Class_Archive = BULK_MAX_TRANSFER_BYTES"
| "class_max_total_length Class_Export = BULK_MAX_TRANSFER_BYTES"
| "class_max_total_length Class_Opaque = BULK_MAX_TRANSFER_BYTES"
| "class_max_total_length Class_RedactedExport = BULK_MAX_TRANSFER_BYTES"

record bulk_ref =
  rf_transfer_id :: id16
  rf_total_length :: u64
  rf_sha256 :: digest32
  rf_mime_class :: bulk_class

definition transfer_id_from_bytes :: "id16 \<Rightarrow> unit + id16" where
  "transfer_id_from_bytes i = (if i = 0 then Inl () else Inr i)"

definition bulk_ref_new :: "id16 \<Rightarrow> u64 \<Rightarrow> digest32 \<Rightarrow> bulk_class \<Rightarrow> unit + bulk_ref" where
  "bulk_ref_new i len d c =
     (if len > class_max_total_length c then Inl ()
      else Inr \<lparr>rf_transfer_id = i, rf_total_length = len, rf_sha256 = d, rf_mime_class = c\<rparr>)"

subsection \<open>Limits\<close>

definition MAX_STAGED_BYTES :: u64 where "MAX_STAGED_BYTES = 1024 * 1024 * 1024"
definition MAX_STAGED_TRANSFERS :: nat where "MAX_STAGED_TRANSFERS = 256"
definition MAX_STAGED_BYTES_PER_CLIENT :: u64 where "MAX_STAGED_BYTES_PER_CLIENT = 512 * (1024 * 1024)"
definition MAX_STAGED_TRANSFERS_PER_CLIENT :: nat where "MAX_STAGED_TRANSFERS_PER_CLIENT = 32"
definition MAX_ATTACHMENT_CHUNK_BASE64_BYTES :: nat where "MAX_ATTACHMENT_CHUNK_BASE64_BYTES = 256 * 1024"
definition STAGED_CHUNK_BYTES :: nat where "STAGED_CHUNK_BYTES = 3 * (MAX_ATTACHMENT_CHUNK_BASE64_BYTES div 4)"
definition STAGED_TRANSFER_TTL_MS :: u64 where "STAGED_TRANSFER_TTL_MS = 5 * 60 * 1000"

datatype staging_error =
    UnknownTransfer | ChunkIndexGap | ChunkReplayMismatch | LengthOverrun | DigestMismatch | Incomplete
  | CapacityExceeded | ChunkTooLarge | ClassLimit | WrongKind | DuplicateTransfer | OwnerMismatch

subsection \<open>Owners, quotas and the store\<close>

text \<open>An owner is its binding digest, a quota identity its key digest.\<close>

definition for_attached_identity :: "(bytes \<Rightarrow> digest32) \<Rightarrow> id16 \<Rightarrow> bytes \<Rightarrow> digest32" where
  "for_attached_identity sha session_id identity_material =
     sha (ascii ''flycockpit-bulk-user-transfer-owner-v1'' @ [0] @ be128 session_id @ identity_material)"

definition quota_hash_material :: "(bytes \<Rightarrow> digest32) \<Rightarrow> bytes \<Rightarrow> bytes \<Rightarrow> digest32" where
  "quota_hash_material sha label material = sha (label @ material)"

record staged_transfer =
  sg_total_length :: u64
  sg_sha256 :: digest32
  sg_mime_class :: bulk_class
  sg_bytes :: bytes
  sg_chunk_ends :: "nat list"
  sg_next_chunk_index :: u32
  sg_complete :: bool
  sg_created_ms :: u64
  sg_owner :: "digest32 option"
  sg_quota :: digest32

type_synonym staged_key = "id16 \<times> digest32 option"

definition staged_key_new :: "id16 \<Rightarrow> digest32 option \<Rightarrow> staged_key" where
  "staged_key_new transfer_id owner = (transfer_id, owner)"

record staging_store =
  so_transfers :: "(staged_key, staged_transfer) btree"
  so_staged_bytes :: u64

definition staging_default :: staging_store where
  "staging_default = \<lparr>so_transfers = [], so_staged_bytes = 0\<rparr>"

definition is_stale :: "u64 \<Rightarrow> staged_transfer \<Rightarrow> bool" where
  "is_stale now t \<longleftrightarrow> saturating_sub now (sg_created_ms t) \<ge> STAGED_TRANSFER_TTL_MS"

definition staging_expire :: "staging_store \<Rightarrow> u64 \<Rightarrow> staging_store \<times> nat" where
  "staging_expire s now =
     (let freed = sum_list (map (\<lambda>e. sg_total_length (snd e)) (filter (\<lambda>e. is_stale now (snd e)) (so_transfers s)));
          kept = filter (\<lambda>e. \<not> is_stale now (snd e)) (so_transfers s) in
      (s\<lparr>so_transfers := kept, so_staged_bytes := saturating_sub (so_staged_bytes s) freed\<rparr>,
       length (so_transfers s) - length kept))"

definition staging_remove :: "staging_store \<Rightarrow> staged_key \<Rightarrow> staging_store \<times> staged_transfer option" where
  "staging_remove s key =
     (case bt_get (so_transfers s) key of
        None \<Rightarrow> (s, None)
      | Some removed \<Rightarrow>
          (s\<lparr>so_transfers := bt_remove key (so_transfers s),
             so_staged_bytes := saturating_sub (so_staged_bytes s) (sg_total_length removed)\<rparr>, Some removed))"

definition client_reserved :: "staging_store \<Rightarrow> digest32 \<Rightarrow> u64 \<times> nat" where
  "client_reserved s quota =
     foldl (\<lambda>(n, count) t. if sg_quota t = quota then (saturating_add n (sg_total_length t), count + 1) else (n, count))
       (0, 0) (bt_values (so_transfers s))"

definition can_reserve :: "staging_store \<Rightarrow> u64 \<Rightarrow> digest32 \<Rightarrow> staging_error + unit" where
  "can_reserve s total_length quota =
     (if length (so_transfers s) \<ge> MAX_STAGED_TRANSFERS then Inl CapacityExceeded
      else if so_staged_bytes s + total_length > MAX_STAGED_BYTES then Inl CapacityExceeded
      else case client_reserved s quota of (n, count) \<Rightarrow>
        if count \<ge> MAX_STAGED_TRANSFERS_PER_CLIENT then Inl CapacityExceeded
        else if n + total_length > MAX_STAGED_BYTES_PER_CLIENT then Inl CapacityExceeded
        else Inr ())"

definition lease_remaining_ms :: "u64 \<Rightarrow> u64 \<Rightarrow> u64" where
  "lease_remaining_ms created now = saturating_sub STAGED_TRANSFER_TTL_MS (saturating_sub now created)"

definition chunk_count :: "u64 \<Rightarrow> u32" where
  "chunk_count total_length =
     (if total_length = 0 then 1
      else let size = of_nat STAGED_CHUNK_BYTES; q = total_length div size in
        ucast (if total_length mod size > 0 then q + 1 else q))"

text \<open>An opaque body needs an owner, any other class has none.\<close>

definition owner_gate :: "bulk_class \<Rightarrow> digest32 option \<Rightarrow> staging_error + unit" where
  "owner_gate c owner =
     (case (c, owner) of
        (Class_Opaque, None) \<Rightarrow> Inl OwnerMismatch
      | (Class_Opaque, Some _) \<Rightarrow> Inr ()
      | (_, None) \<Rightarrow> Inr ()
      | (_, Some _) \<Rightarrow> Inl WrongKind)"

subsection \<open>Staging daemon-produced bytes\<close>

definition stage_with_owner ::
    "(bytes \<Rightarrow> digest32) \<Rightarrow> u64 \<Rightarrow> staging_store \<Rightarrow> bytes \<Rightarrow> bulk_class \<Rightarrow> id16 \<Rightarrow> digest32 option \<Rightarrow> digest32
     \<Rightarrow> staging_store \<times> (staging_error + bulk_ref)" where
  "stage_with_owner sha now s bs c i owner quota =
     (case owner_gate c owner of
        Inl e \<Rightarrow> (s, Inl e)
      | Inr _ \<Rightarrow>
        let total_length = of_nat (length bs) in
        if total_length > class_max_total_length c \<or> total_length > BULK_MAX_TRANSFER_BYTES then (s, Inl ClassLimit)
        else
          let digest = sha bs; s = fst (staging_expire s now); key = staged_key_new i owner in
          if bt_get (so_transfers s) key \<noteq> None then (s, Inl DuplicateTransfer)
          else case can_reserve s total_length quota of
              Inl e \<Rightarrow> (s, Inl e)
            | Inr _ \<Rightarrow>
              let s = s\<lparr>so_staged_bytes := so_staged_bytes s + total_length,
                        so_transfers := bt_insert key
                          \<lparr>sg_total_length = total_length, sg_sha256 = digest, sg_mime_class = c, sg_bytes = bs,
                           sg_chunk_ends = map (\<lambda>index. min ((index + 1) * STAGED_CHUNK_BYTES) (length bs))
                             [0..<unat (chunk_count total_length)],
                           sg_next_chunk_index = chunk_count total_length, sg_complete = True, sg_created_ms = now,
                           sg_owner = owner, sg_quota = quota\<rparr> (so_transfers s)\<rparr> in
              (s, case transfer_id_from_bytes i of
                    Inl _ \<Rightarrow> Inl UnknownTransfer
                  | Inr i \<Rightarrow> (case bulk_ref_new i total_length digest c of Inl _ \<Rightarrow> Inl ClassLimit | Inr r \<Rightarrow> Inr r)))"

definition stage ::
    "(bytes \<Rightarrow> digest32) \<Rightarrow> u64 \<Rightarrow> staging_store \<Rightarrow> bytes \<Rightarrow> bulk_class \<Rightarrow> id16 \<Rightarrow> digest32
     \<Rightarrow> staging_store \<times> (staging_error + bulk_ref)" where
  "stage sha now s bs c i quota = stage_with_owner sha now s bs c i None quota"

definition stage_owned ::
    "(bytes \<Rightarrow> digest32) \<Rightarrow> u64 \<Rightarrow> staging_store \<Rightarrow> bytes \<Rightarrow> digest32 \<Rightarrow> id16 \<Rightarrow> digest32
     \<Rightarrow> staging_store \<times> (staging_error + bulk_ref)" where
  "stage_owned sha now s bs owner i quota = stage_with_owner sha now s bs Class_Opaque i (Some owner) quota"

subsection \<open>Chunks pushed by the peer\<close>

record chunk_accepted =
  ca_next_chunk_index :: u32
  ca_received_bytes :: u64
  ca_complete :: bool
  ca_lease_remaining_ms :: u64

definition accepted_reply :: "u64 \<Rightarrow> staged_transfer \<Rightarrow> chunk_accepted" where
  "accepted_reply now t =
     \<lparr>ca_next_chunk_index = sg_next_chunk_index t, ca_received_bytes = of_nat (length (sg_bytes t)),
      ca_complete = sg_complete t, ca_lease_remaining_ms = lease_remaining_ms (sg_created_ms t) now\<rparr>"

text \<open>The bytes \<open>bytes.get(start..end)\<close> of a slice, if the range is valid.\<close>

definition byte_range :: "bytes \<Rightarrow> nat \<Rightarrow> nat \<Rightarrow> bytes option" where
  "byte_range bs a b = (if a \<le> b \<and> b \<le> length bs then Some (take (b - a) (drop a bs)) else None)"

definition replay_chunk :: "u64 \<Rightarrow> staged_transfer \<Rightarrow> u32 \<Rightarrow> bytes \<Rightarrow> staging_error + chunk_accepted" where
  "replay_chunk now t chunk_index chunk =
     (let i = unat chunk_index in
      if i \<ge> length (sg_chunk_ends t) then Inl ChunkIndexGap
      else
        let b = sg_chunk_ends t ! i; a = (if i = 0 then 0 else sg_chunk_ends t ! (i - 1)) in
        if byte_range (sg_bytes t) a b \<noteq> Some chunk then Inl ChunkReplayMismatch
        else Inr (accepted_reply now t))"

definition fresh_transfer :: "u64 \<Rightarrow> bulk_ref \<Rightarrow> digest32 option \<Rightarrow> digest32 \<Rightarrow> staged_transfer" where
  "fresh_transfer now r owner quota =
     \<lparr>sg_total_length = rf_total_length r, sg_sha256 = rf_sha256 r, sg_mime_class = rf_mime_class r, sg_bytes = [],
      sg_chunk_ends = [], sg_next_chunk_index = 0, sg_complete = False, sg_created_ms = now, sg_owner = owner,
      sg_quota = quota\<rparr>"

text \<open>From the borrowed entry on.\<close>

definition write_entry ::
    "(bytes \<Rightarrow> digest32) \<Rightarrow> u64 \<Rightarrow> staging_store \<Rightarrow> staged_key \<Rightarrow> staged_transfer \<Rightarrow> bulk_ref \<Rightarrow> digest32 option \<Rightarrow> u32 \<Rightarrow> bytes
     \<Rightarrow> staging_store \<times> (staging_error + chunk_accepted)" where
  "write_entry sha now s key t r owner chunk_index chunk =
     (if sg_owner t \<noteq> owner then (s, Inl OwnerMismatch)
      else if sg_total_length t \<noteq> rf_total_length r \<or> sg_sha256 t \<noteq> rf_sha256 r \<or> sg_mime_class t \<noteq> rf_mime_class r
      then (s, Inl DuplicateTransfer)
      else if chunk_index < sg_next_chunk_index t then (s, replay_chunk now t chunk_index chunk)
      else if sg_complete t then (s, Inl ChunkIndexGap)
      else if chunk_index \<noteq> sg_next_chunk_index t then (s, Inl ChunkIndexGap)
      else if of_nat (length (sg_bytes t)) + of_nat (length chunk) > sg_total_length t then (s, Inl LengthOverrun)
      else
        let bs = sg_bytes t @ chunk;
            t = t\<lparr>sg_bytes := bs, sg_chunk_ends := sg_chunk_ends t @ [length bs],
                  sg_next_chunk_index := sg_next_chunk_index t + 1\<rparr> in
        if of_nat (length bs) = sg_total_length t
        then if sha bs \<noteq> sg_sha256 t
          then (fst (staging_remove (s\<lparr>so_transfers := bt_insert key t (so_transfers s)\<rparr>) key), Inl DigestMismatch)
          else let t = t\<lparr>sg_complete := True\<rparr> in
            (s\<lparr>so_transfers := bt_insert key t (so_transfers s)\<rparr>, Inr (accepted_reply now t))
        else (s\<lparr>so_transfers := bt_insert key t (so_transfers s)\<rparr>, Inr (accepted_reply now t)))"

definition write_chunk_with_owner ::
    "(bytes \<Rightarrow> digest32) \<Rightarrow> u64 \<Rightarrow> staging_store \<Rightarrow> bulk_ref \<Rightarrow> digest32 option \<Rightarrow> digest32 \<Rightarrow> u32 \<Rightarrow> bytes
     \<Rightarrow> staging_store \<times> (staging_error + chunk_accepted)" where
  "write_chunk_with_owner sha now s r owner quota chunk_index chunk =
     (case owner_gate (rf_mime_class r) owner of
        Inl e \<Rightarrow> (s, Inl e)
      | Inr _ \<Rightarrow>
        if length chunk > STAGED_CHUNK_BYTES then (s, Inl ChunkTooLarge)
        else if rf_total_length r > class_max_total_length (rf_mime_class r) then (s, Inl ClassLimit)
        else
          let key = staged_key_new (rf_transfer_id r) owner; s = fst (staging_expire s now) in
          (case bt_get (so_transfers s) key of
             Some t \<Rightarrow> write_entry sha now s key t r owner chunk_index chunk
           | None \<Rightarrow>
             if chunk_index \<noteq> 0 then (s, Inl ChunkIndexGap)
             else case can_reserve s (rf_total_length r) quota of
                 Inl e \<Rightarrow> (s, Inl e)
               | Inr _ \<Rightarrow>
                 let t = fresh_transfer now r owner quota;
                     s = s\<lparr>so_staged_bytes := so_staged_bytes s + rf_total_length r,
                           so_transfers := bt_insert key t (so_transfers s)\<rparr> in
                 write_entry sha now s key t r owner chunk_index chunk))"

definition write_chunk ::
    "(bytes \<Rightarrow> digest32) \<Rightarrow> u64 \<Rightarrow> staging_store \<Rightarrow> bulk_ref \<Rightarrow> u32 \<Rightarrow> bytes \<Rightarrow> digest32
     \<Rightarrow> staging_store \<times> (staging_error + chunk_accepted)" where
  "write_chunk sha now s r chunk_index chunk quota = write_chunk_with_owner sha now s r None quota chunk_index chunk"

definition write_chunk_owned ::
    "(bytes \<Rightarrow> digest32) \<Rightarrow> u64 \<Rightarrow> staging_store \<Rightarrow> bulk_ref \<Rightarrow> digest32 \<Rightarrow> digest32 \<Rightarrow> u32 \<Rightarrow> bytes
     \<Rightarrow> staging_store \<times> (staging_error + chunk_accepted)" where
  "write_chunk_owned sha now s r owner quota chunk_index chunk =
     write_chunk_with_owner sha now s r (Some owner) quota chunk_index chunk"

subsection \<open>Chunks pulled by the peer\<close>

text \<open>The common end of both readers; \<open>None\<close> where the slice of the body would be out of range.\<close>

definition serve_chunk ::
    "staging_store \<Rightarrow> staged_key \<Rightarrow> staged_transfer \<Rightarrow> u32 \<Rightarrow> (staging_store \<times> (staging_error + bytes \<times> bool)) option" where
  "serve_chunk s key t chunk_index =
     (if \<not> sg_complete t then Some (s, Inl Incomplete)
      else
        let total_chunks = chunk_count (sg_total_length t) in
        if chunk_index \<ge> total_chunks then Some (s, Inl ChunkIndexGap)
        else
          let start = unat chunk_index * STAGED_CHUNK_BYTES;
              stop = min (start + STAGED_CHUNK_BYTES) (length (sg_bytes t)) in
          (case byte_range (sg_bytes t) start stop of
             None \<Rightarrow> None
           | Some chunk \<Rightarrow>
             let last = (chunk_index + 1 = total_chunks) in
             Some (if last then fst (staging_remove s key) else s, Inr (chunk, last))))"

definition read_chunk ::
    "u64 \<Rightarrow> staging_store \<Rightarrow> id16 \<Rightarrow> u32 \<Rightarrow> (staging_store \<times> (staging_error + bytes \<times> bool)) option" where
  "read_chunk now s i chunk_index =
     (let s = fst (staging_expire s now); key = staged_key_new i None in
      case bt_get (so_transfers s) key of
        None \<Rightarrow> Some (s, Inl UnknownTransfer)
      | Some t \<Rightarrow>
          if sg_mime_class t = Class_Opaque then Some (s, Inl OwnerMismatch)
          else serve_chunk s key t chunk_index)"

definition read_chunk_of_kind ::
    "u64 \<Rightarrow> staging_store \<Rightarrow> id16 \<Rightarrow> u32 \<Rightarrow> bulk_class \<Rightarrow> (staging_store \<times> (staging_error + bytes \<times> bool)) option" where
  "read_chunk_of_kind now s i chunk_index expected =
     (let s = fst (staging_expire s now); key = staged_key_new i None in
      case bt_get (so_transfers s) key of
        None \<Rightarrow> Some (s, Inl UnknownTransfer)
      | Some t \<Rightarrow>
          if sg_mime_class t = Class_Opaque then Some (s, Inl OwnerMismatch)
          else if sg_mime_class t \<noteq> expected then Some (s, Inl WrongKind)
          else serve_chunk s key t chunk_index)"

subsection \<open>Taking whole bodies\<close>

definition take_check ::
    "(bytes \<Rightarrow> digest32) \<Rightarrow> staging_store \<Rightarrow> digest32 option \<Rightarrow> staged_key list \<Rightarrow> bulk_ref \<Rightarrow> staging_error + staged_key" where
  "take_check sha s owner keys r =
     rbind (owner_gate (rf_mime_class r) owner) (\<lambda>_.
       let key = staged_key_new (rf_transfer_id r) owner in
       if key \<in> set keys then Inl DuplicateTransfer
       else rbind (ok_or UnknownTransfer (bt_get (so_transfers s) key)) (\<lambda>t.
         if sg_owner t \<noteq> owner then Inl OwnerMismatch
         else if \<not> sg_complete t then Inl Incomplete
         else if sg_total_length t \<noteq> rf_total_length r then Inl LengthOverrun
         else if sg_sha256 t \<noteq> rf_sha256 r \<or> sha (sg_bytes t) \<noteq> rf_sha256 r then Inl DigestMismatch
         else if sg_mime_class t \<noteq> rf_mime_class r then Inl ClassLimit
         else Inr key))"

fun take_checks ::
    "(bytes \<Rightarrow> digest32) \<Rightarrow> staging_store \<Rightarrow> digest32 option \<Rightarrow> staged_key list \<Rightarrow> bulk_ref list \<Rightarrow> staging_error + staged_key list" where
  "take_checks sha s owner keys [] = Inr keys"
| "take_checks sha s owner keys (r # refs) =
     rbind (take_check sha s owner keys r) (\<lambda>key. take_checks sha s owner (keys @ [key]) refs)"

fun take_remove :: "staging_store \<Rightarrow> staged_key list \<Rightarrow> (staging_store \<times> bytes list) option" where
  "take_remove s [] = Some (s, [])"
| "take_remove s (key # keys) =
     (case staging_remove s key of
        (s, None) \<Rightarrow> None
      | (s, Some t) \<Rightarrow> map_option (\<lambda>(s, bodies). (s, sg_bytes t # bodies)) (take_remove s keys))"

definition take_all_with_owner ::
    "(bytes \<Rightarrow> digest32) \<Rightarrow> u64 \<Rightarrow> staging_store \<Rightarrow> bulk_ref list \<Rightarrow> digest32 option
     \<Rightarrow> (staging_store \<times> (staging_error + bytes list)) option" where
  "take_all_with_owner sha now s refs owner =
     (let s = fst (staging_expire s now) in
      case take_checks sha s owner [] refs of
        Inl e \<Rightarrow> Some (s, Inl e)
      | Inr keys \<Rightarrow> map_option (\<lambda>(s, bodies). (s, Inr bodies)) (take_remove s keys))"

definition take_all ::
    "(bytes \<Rightarrow> digest32) \<Rightarrow> u64 \<Rightarrow> staging_store \<Rightarrow> bulk_ref list \<Rightarrow> (staging_store \<times> (staging_error + bytes list)) option" where
  "take_all sha now s refs = take_all_with_owner sha now s refs None"

definition take_all_owned ::
    "(bytes \<Rightarrow> digest32) \<Rightarrow> u64 \<Rightarrow> staging_store \<Rightarrow> bulk_ref list \<Rightarrow> digest32 \<Rightarrow> (staging_store \<times> (staging_error + bytes list)) option" where
  "take_all_owned sha now s refs owner = take_all_with_owner sha now s refs (Some owner)"

text \<open>\<open>bodies.pop().expect(...)\<close>.\<close>

definition pop_body ::
    "(staging_store \<times> (staging_error + bytes list)) option \<Rightarrow> (staging_store \<times> (staging_error + bytes)) option" where
  "pop_body out =
     (case out of
        None \<Rightarrow> None
      | Some (s, Inl e) \<Rightarrow> Some (s, Inl e)
      | Some (s, Inr bodies) \<Rightarrow> if bodies = [] then None else Some (s, Inr (last bodies)))"

definition take_one :: "(bytes \<Rightarrow> digest32) \<Rightarrow> u64 \<Rightarrow> staging_store \<Rightarrow> bulk_ref \<Rightarrow> (staging_store \<times> (staging_error + bytes)) option" where
  "take_one sha now s r = pop_body (take_all sha now s [r])"

definition take_owned ::
    "(bytes \<Rightarrow> digest32) \<Rightarrow> u64 \<Rightarrow> staging_store \<Rightarrow> bulk_ref \<Rightarrow> digest32 \<Rightarrow> (staging_store \<times> (staging_error + bytes)) option" where
  "take_owned sha now s r owner = pop_body (take_all_owned sha now s [r] owner)"

definition discard :: "staging_store \<Rightarrow> id16 \<Rightarrow> staging_store" where
  "discard s i = fst (staging_remove s (staged_key_new i None))"

definition discard_owned :: "staging_store \<Rightarrow> id16 \<Rightarrow> digest32 \<Rightarrow> staging_store" where
  "discard_owned s i owner = fst (staging_remove s (staged_key_new i (Some owner)))"

subsection \<open>Calls\<close>

text \<open>The calls on the store, each at its time; \<open>None\<close> after a panic.\<close>

datatype staging_call =
    Do_Stage bytes bulk_class id16 digest32
  | Do_Stage_Owned bytes digest32 id16 digest32
  | Do_Write bulk_ref u32 bytes digest32
  | Do_Write_Owned bulk_ref digest32 digest32 u32 bytes
  | Do_Read id16 u32
  | Do_Read_Kind id16 u32 bulk_class
  | Do_Take_All "bulk_ref list"
  | Do_Take_All_Owned "bulk_ref list" digest32
  | Do_Take_One bulk_ref
  | Do_Take_Owned bulk_ref digest32
  | Do_Discard id16
  | Do_Discard_Owned id16 digest32
  | Do_Expire

fun call_staging :: "(bytes \<Rightarrow> digest32) \<Rightarrow> staging_store \<Rightarrow> u64 \<Rightarrow> staging_call \<Rightarrow> staging_store option" where
  "call_staging sha s now (Do_Stage bs c i quota) = Some (fst (stage sha now s bs c i quota))"
| "call_staging sha s now (Do_Stage_Owned bs owner i quota) = Some (fst (stage_owned sha now s bs owner i quota))"
| "call_staging sha s now (Do_Write r n chunk quota) = Some (fst (write_chunk sha now s r n chunk quota))"
| "call_staging sha s now (Do_Write_Owned r owner quota n chunk) = Some (fst (write_chunk_owned sha now s r owner quota n chunk))"
| "call_staging sha s now (Do_Read i n) = map_option fst (read_chunk now s i n)"
| "call_staging sha s now (Do_Read_Kind i n c) = map_option fst (read_chunk_of_kind now s i n c)"
| "call_staging sha s now (Do_Take_All refs) = map_option fst (take_all sha now s refs)"
| "call_staging sha s now (Do_Take_All_Owned refs owner) = map_option fst (take_all_owned sha now s refs owner)"
| "call_staging sha s now (Do_Take_One r) = map_option fst (take_one sha now s r)"
| "call_staging sha s now (Do_Take_Owned r owner) = map_option fst (take_owned sha now s r owner)"
| "call_staging sha s now (Do_Discard i) = Some (discard s i)"
| "call_staging sha s now (Do_Discard_Owned i owner) = Some (discard_owned s i owner)"
| "call_staging sha s now Do_Expire = Some (fst (staging_expire s now))"

definition staging_step :: "(bytes \<Rightarrow> digest32) \<Rightarrow> staging_store option \<Rightarrow> u64 \<times> staging_call \<Rightarrow> staging_store option" where
  "staging_step sha o' e = (case o' of None \<Rightarrow> None | Some s \<Rightarrow> call_staging sha s (fst e) (snd e))"

end
