(* ===== verification/Staging_Runs.thy ===== *)
theory Staging_Runs
  imports Bulk_Staging
begin

text \<open>
  The staging area of \<open>Bulk_Staging\<close> over sequences of calls. The invariant \<open>staging_inv\<close> says that the byte
  counter is the sum of the reservations, that the limits of the store and of each client hold, and that every
  entry's chunk boundaries cover its bytes, which match the announced digest once it is complete. Every call
  keeps it, which interprets \<open>guarded_machine\<close>.

  Shown here: quotas and accounting hold over any sequence of calls, none of which panics; a body is
  handed out only to its owner, only with its announced length and digest, and all or nothing; uploads and
  exports come back unchanged; a retried chunk changes nothing. The boundaries of these guarantees close
  the theory: empty chunks are accepted without bound, and staging under the zero id fails but keeps its
  reservation.
\<close>

section \<open>Invariant\<close>

lemmas staging_limits = MAX_STAGED_BYTES_def MAX_STAGED_TRANSFERS_def MAX_STAGED_BYTES_PER_CLIENT_def
  MAX_STAGED_TRANSFERS_PER_CLIENT_def BULK_MAX_TRANSFER_BYTES_def

definition reserved :: "staging_store \<Rightarrow> nat" where
  "reserved s = bt_total (\<lambda>t. unat (sg_total_length t)) (so_transfers s)"

definition client_bytes :: "digest32 \<Rightarrow> staging_store \<Rightarrow> nat" where
  "client_bytes q s = bt_total (\<lambda>t. if sg_quota t = q then unat (sg_total_length t) else 0) (so_transfers s)"

definition client_transfers :: "digest32 \<Rightarrow> staging_store \<Rightarrow> nat" where
  "client_transfers q s = bt_total (\<lambda>t. if sg_quota t = q then 1 else 0) (so_transfers s)"

text \<open>Where the accepted chunks of a body end.\<close>

definition ends_ok :: "staged_transfer \<Rightarrow> bool" where
  "ends_ok t \<longleftrightarrow> sorted (sg_chunk_ends t)
     \<and> (if sg_chunk_ends t = [] then sg_bytes t = [] else last (sg_chunk_ends t) = length (sg_bytes t))
     \<and> of_nat (length (sg_chunk_ends t)) = sg_next_chunk_index t"

definition entry_ok :: "(bytes \<Rightarrow> digest32) \<Rightarrow> staged_key \<Rightarrow> staged_transfer \<Rightarrow> bool" where
  "entry_ok sha key t \<longleftrightarrow> snd key = sg_owner t \<and> is_ok (owner_gate (sg_mime_class t) (sg_owner t))
     \<and> sg_total_length t \<le> class_max_total_length (sg_mime_class t) \<and> length (sg_bytes t) \<le> unat (sg_total_length t)
     \<and> (sg_complete t \<longrightarrow> length (sg_bytes t) = unat (sg_total_length t) \<and> sha (sg_bytes t) = sg_sha256 t)
     \<and> ends_ok t"

definition staging_inv :: "(bytes \<Rightarrow> digest32) \<Rightarrow> staging_store \<Rightarrow> bool" where
  "staging_inv sha s \<longleftrightarrow> bt_wf (so_transfers s) \<and> (\<forall>key t. bt_get (so_transfers s) key = Some t \<longrightarrow> entry_ok sha key t)
     \<and> unat (so_staged_bytes s) = reserved s
     \<and> length (so_transfers s) \<le> MAX_STAGED_TRANSFERS \<and> reserved s \<le> unat MAX_STAGED_BYTES
     \<and> (\<forall>q. client_transfers q s \<le> MAX_STAGED_TRANSFERS_PER_CLIENT \<and> client_bytes q s \<le> unat MAX_STAGED_BYTES_PER_CLIENT)"

lemma staging_inv_default: "staging_inv sha staging_default"
  by (simp add: staging_inv_def staging_default_def reserved_def client_bytes_def client_transfers_def bt.total_empty)

lemma unat_limits [simp]:
  "unat MAX_STAGED_BYTES = 1073741824" "unat MAX_STAGED_BYTES_PER_CLIENT = 536870912" "unat BULK_MAX_TRANSFER_BYTES = 536870912"
  by (simp_all add: staging_limits)

lemma class_max_le: "len \<le> class_max_total_length c \<Longrightarrow> unat len \<le> 536870912"
proof -
  assume "len \<le> class_max_total_length c"
  then have "unat len \<le> unat (class_max_total_length c)" by (simp add: word_le_nat_alt)
  also have "\<dots> \<le> 536870912"
    by (cases c) (simp_all add: BULK_MAX_TRANSFER_BYTES_def PASTE_MAX_SINGLE_IMAGE_BYTES_def PASTE_MAX_TOTAL_IMAGE_BYTES_def)
  finally show ?thesis .
qed

section \<open>Expiry and removal\<close>

lemma bt_total_filter: "bt_total f (filter P m) + bt_total f (filter (\<lambda>e. \<not> P e) m) = bt_total f m"
  by (induction m) (auto simp: bt_total_def)

lemma bt_total_filter_le: "bt_total f (filter P m) \<le> bt_total f m"
  using bt_total_filter [of f P m] by linarith

lemma unat_sum_list:
  fixes f :: "'a \<Rightarrow> 'b::len word"
  assumes "sum_list (map (\<lambda>x. unat (f x)) xs) < 2 ^ LENGTH('b)"
  shows "unat (sum_list (map f xs)) = sum_list (map (\<lambda>x. unat (f x)) xs)"
  using assms
proof (induction xs)
  case (Cons x xs)
  then have "unat (sum_list (map f xs)) = sum_list (map (\<lambda>x. unat (f x)) xs)" by simp
  with Cons.prems show ?case by (simp add: unat_word_ariths)
qed simp

lemma staging_expire_get:
  assumes "bt_wf (so_transfers s)"
  shows "bt_get (so_transfers (fst (staging_expire s now))) key =
    (case bt_get (so_transfers s) key of None \<Rightarrow> None | Some t \<Rightarrow> if is_stale now t then None else Some t)"
proof -
  let ?m = "so_transfers s"
  have m: "so_transfers (fst (staging_expire s now)) = filter (\<lambda>e. \<not> is_stale now (snd e)) ?m"
    by (simp add: staging_expire_def Let_def)
  let ?f = "filter (\<lambda>e. \<not> is_stale now (snd e)) ?m"
  have iff: "bt_get ?f key = Some t \<longleftrightarrow> bt_get ?m key = Some t \<and> \<not> is_stale now t" for t
    using assms by (simp add: bt_get_eq_Some_iff)
  show ?thesis
  proof (cases "bt_get ?f key")
    case None
    have "is_stale now t" if "bt_get ?m key = Some t" for t using iff [of t] None that by simp
    then show ?thesis unfolding m using None by (simp split: option.split)
  next
    case (Some t)
    then show ?thesis unfolding m using iff [of t] by simp
  qed
qed

lemma staging_inv_shrink:
  assumes inv: "staging_inv sha s" and wf: "bt_wf (so_transfers s')"
    and sub: "\<And>key t. bt_get (so_transfers s') key = Some t \<Longrightarrow> bt_get (so_transfers s) key = Some t"
    and le: "\<And>f. bt_total f (so_transfers s') \<le> bt_total f (so_transfers s)"
    and len: "length (so_transfers s') \<le> length (so_transfers s)"
    and bytes: "unat (so_staged_bytes s') = reserved s'"
  shows "staging_inv sha s'"
proof -
  have c: "reserved s' \<le> reserved s" "client_bytes q s' \<le> client_bytes q s" "client_transfers q s' \<le> client_transfers q s" for q
    unfolding reserved_def client_bytes_def client_transfers_def by (rule le)+
  show ?thesis
    using inv wf len bytes c(1) unfolding staging_inv_def
    by (auto dest: sub intro: order_trans [OF c(2)] order_trans [OF c(3)])
qed

lemma staging_expire_inv:
  assumes inv: "staging_inv sha s"
  shows "staging_inv sha (fst (staging_expire s now))"
proof (rule staging_inv_shrink [OF inv])
  let ?m = "so_transfers s" and ?s = "fst (staging_expire s now)"
  have wf: "bt_wf ?m" using inv by (simp add: staging_inv_def)
  have m: "so_transfers ?s = filter (\<lambda>e. \<not> is_stale now (snd e)) ?m" by (simp add: staging_expire_def Let_def)
  show "bt_wf (so_transfers ?s)" using wf by (simp add: m)
  show "bt_get (so_transfers ?s) key = Some t \<Longrightarrow> bt_get ?m key = Some t" for key t
    by (auto simp: staging_expire_get [OF wf] split: option.splits if_splits)
  show "bt_total f (so_transfers ?s) \<le> bt_total f ?m" for f by (simp add: m bt_total_filter_le)
  show "length (so_transfers ?s) \<le> length ?m" by (simp add: m)
  let ?stale = "filter (\<lambda>e. is_stale now (snd e)) ?m"
  have split: "bt_total f ?stale + bt_total f (so_transfers ?s) = bt_total f ?m" for f
    unfolding m by (rule bt_total_filter)
  have r: "reserved s \<le> 1073741824" "unat (so_staged_bytes s) = reserved s" using inv by (simp_all add: staging_inv_def)
  have "bt_total (\<lambda>t. unat (sg_total_length t)) ?stale < 2 ^ 64"
    using split [of "\<lambda>t. unat (sg_total_length t)"] r(1) by (simp add: reserved_def)
  then have "unat (sum_list (map (\<lambda>e. sg_total_length (snd e)) ?stale)) = bt_total (\<lambda>t. unat (sg_total_length t)) ?stale"
    by (subst unat_sum_list) (simp_all add: bt_total_def)
  then show "unat (so_staged_bytes ?s) = reserved ?s"
    using split [of "\<lambda>t. unat (sg_total_length t)"] r(2)
    by (simp add: staging_expire_def Let_def unat_saturating_sub reserved_def)
qed

lemma remove_inv:
  assumes inv: "staging_inv sha s"
  shows "staging_inv sha (fst (staging_remove s key))"
proof (cases "bt_get (so_transfers s) key")
  case None
  then show ?thesis using inv by (simp add: staging_remove_def)
next
  case (Some t)
  let ?m = "so_transfers s" and ?s = "fst (staging_remove s key)"
  have wf: "bt_wf ?m" using inv by (simp add: staging_inv_def)
  have m: "so_transfers ?s = bt_remove key ?m" using Some by (simp add: staging_remove_def)
  show ?thesis
  proof (rule staging_inv_shrink [OF inv])
    show "bt_wf (so_transfers ?s)" using wf by (simp add: m)
    show "bt_get (so_transfers ?s) j = Some u \<Longrightarrow> bt_get ?m j = Some u" for j u by (simp add: m split: if_splits)
    show "bt_total f (so_transfers ?s) \<le> bt_total f ?m" for f unfolding m using wf by (rule bt.total_remove_le)
    show "length (so_transfers ?s) \<le> length ?m" unfolding m using wf by (rule bt.len_remove_le)
    show "unat (so_staged_bytes ?s) = reserved ?s"
      using bt_total_remove [OF wf Some, of "\<lambda>t. unat (sg_total_length t)"] inv Some
      by (simp add: staging_inv_def reserved_def staging_remove_def unat_saturating_sub)
  qed
qed

section \<open>Reservation\<close>

lemma saturating_add_no_wrap:
  fixes a b :: "'a::len word"
  assumes "unat a + unat b < 2 ^ LENGTH('a)"
  shows "saturating_add a b = a + b"
  using assms by (auto simp: saturating_add_def checked_add_def split: option.splits)

lemma client_reserved_eq:
  assumes "client_bytes q s < 2 ^ 64"
  shows "client_reserved s q = (of_nat (client_bytes q s), client_transfers q s)"
proof -
  let ?f = "\<lambda>(n, count) t. if sg_quota t = q then (saturating_add n (sg_total_length t), count + 1) else (n, count)"
  let ?b = "\<lambda>m. bt_total (\<lambda>t. if sg_quota t = q then unat (sg_total_length t) else 0) m"
  have "foldl ?f (a, k) (bt_values m) = (a + of_nat (?b m), k + bt_total (\<lambda>t. if sg_quota t = q then 1 else 0) m)"
    if "unat a + ?b m < 2 ^ 64" for a k m
    using that
  proof (induction m arbitrary: a k)
    case Nil
    then show ?case by (simp add: bt_values_def bt_total_def)
  next
    case (Cons e m)
    obtain key t where e: "e = (key, t)" by fastforce
    show ?case
    proof (cases "sg_quota t = q")
      case True
      then have b: "unat a + unat (sg_total_length t) < 2 ^ 64" using Cons.prems by (simp add: e bt_total_def)
      then have add: "saturating_add a (sg_total_length t) = a + sg_total_length t" by (intro saturating_add_no_wrap) simp
      have "unat (a + sg_total_length t) = unat a + unat (sg_total_length t)" using b by (simp add: unat_word_ariths)
      then have "unat (a + sg_total_length t) + ?b m < 2 ^ 64" using Cons.prems True by (simp add: e bt_total_def)
      from Cons.IH [OF this, of "k + 1"] True show ?thesis by (simp add: e bt_values_def bt_total_def add)
    next
      case False
      then have "unat a + ?b m < 2 ^ 64" using Cons.prems by (simp add: e bt_total_def)
      from Cons.IH [OF this, of k] False show ?thesis by (simp add: e bt_values_def bt_total_def)
    qed
  qed
  from this [of 0 "so_transfers s" 0] assms show ?thesis
    by (simp add: client_reserved_def client_bytes_def client_transfers_def)
qed

lemma can_reserve_iff:
  assumes inv: "staging_inv sha s" and len: "unat len \<le> 536870912"
  shows "can_reserve s len q = Inr () \<longleftrightarrow> length (so_transfers s) < 256 \<and> reserved s + unat len \<le> 1073741824
     \<and> client_transfers q s < 32 \<and> client_bytes q s + unat len \<le> 536870912"
proof -
  have b: "unat (so_staged_bytes s) = reserved s" "reserved s \<le> 1073741824" "client_bytes q s \<le> 536870912"
    using inv by (simp_all add: staging_inv_def)
  have c: "client_reserved s q = (of_nat (client_bytes q s), client_transfers q s)"
    using b(3) by (intro client_reserved_eq) simp
  have u: "unat (of_nat (client_bytes q s) :: u64) = client_bytes q s" using b(3) by (simp add: unat_of_nat)
  have "unat (so_staged_bytes s + len) = reserved s + unat len"
    using b len by (subst unat_add_no_wrap) auto
  moreover have "unat (of_nat (client_bytes q s) + len) = client_bytes q s + unat len"
    using u b len by (subst unat_add_no_wrap) auto
  ultimately show ?thesis
    by (auto simp: can_reserve_def c word_less_nat_alt MAX_STAGED_TRANSFERS_def MAX_STAGED_TRANSFERS_PER_CLIENT_def)
qed

definition with_entry :: "staging_store \<Rightarrow> staged_key \<Rightarrow> staged_transfer \<Rightarrow> staging_store" where
  "with_entry s key t = s\<lparr>so_transfers := bt_insert key t (so_transfers s)\<rparr>"

lemma insert_new_inv:
  assumes inv: "staging_inv sha s" and none: "bt_get (so_transfers s) key = None"
    and room: "can_reserve s (sg_total_length t) (sg_quota t) = Inr ()" and ok: "entry_ok sha key t"
  shows "staging_inv sha (with_entry (s\<lparr>so_staged_bytes := so_staged_bytes s + sg_total_length t\<rparr>) key t)"
proof -
  let ?s = "with_entry (s\<lparr>so_staged_bytes := so_staged_bytes s + sg_total_length t\<rparr>) key t"
  have len: "unat (sg_total_length t) \<le> 536870912" using ok class_max_le by (auto simp: entry_ok_def)
  note room = room [unfolded can_reserve_iff [OF inv len]]
  have tot: "bt_total f (so_transfers ?s) = f t + bt_total f (so_transfers s)" for f
    using none by (simp add: with_entry_def bt_total_insert_new)
  have b: "unat (so_staged_bytes s) = reserved s" using inv by (simp add: staging_inv_def)
  have "unat (so_staged_bytes ?s) = reserved ?s"
    using b room len by (simp add: with_entry_def unat_word_ariths) (simp add: reserved_def bt_total_insert_new [OF none])
  moreover have "reserved ?s \<le> 1073741824" using room by (simp add: reserved_def tot)
  moreover have "client_transfers q ?s \<le> 32" "client_bytes q ?s \<le> 536870912" for q
    using room inv by (auto simp: client_transfers_def client_bytes_def tot staging_inv_def MAX_STAGED_TRANSFERS_PER_CLIENT_def)
  moreover have "length (so_transfers ?s) \<le> 256" using room none by (simp add: with_entry_def length_bt_insert_new)
  moreover have "bt_wf (so_transfers ?s)" "\<forall>j u. bt_get (so_transfers ?s) j = Some u \<longrightarrow> entry_ok sha j u"
    using inv ok by (auto simp: with_entry_def staging_inv_def)
  ultimately show ?thesis
    unfolding staging_inv_def by (simp add: MAX_STAGED_TRANSFERS_def MAX_STAGED_TRANSFERS_PER_CLIENT_def)
qed

lemma replace_inv:
  assumes inv: "staging_inv sha s" and old: "bt_get (so_transfers s) key = Some t"
    and same: "sg_total_length t' = sg_total_length t" "sg_quota t' = sg_quota t" and ok: "entry_ok sha key t'"
  shows "staging_inv sha (with_entry s key t')"
proof -
  have wf: "bt_wf (so_transfers s)" using inv by (simp add: staging_inv_def)
  have tot: "bt_total f (bt_insert key t' (so_transfers s)) = bt_total f (so_transfers s)" if "f t' = f t" for f
    using bt.total_replace [OF wf old, of f t'] that by simp
  have eqs: "reserved (with_entry s key t') = reserved s" "client_bytes q (with_entry s key t') = client_bytes q s"
      "client_transfers q (with_entry s key t') = client_transfers q s" for q
    by (simp_all add: reserved_def client_bytes_def client_transfers_def with_entry_def tot same)
  have "length (so_transfers (with_entry s key t')) = length (so_transfers s)"
    using bt.len_replace [OF wf old] by (simp add: with_entry_def)
  then show ?thesis
    using inv ok unfolding staging_inv_def eqs by (auto simp: with_entry_def)
qed

section \<open>Operations keep the invariant\<close>

lemma sorted_le_last: "sorted xs \<Longrightarrow> x \<in> set xs \<Longrightarrow> x \<le> last xs"
  by (cases xs rule: rev_cases) (auto simp: sorted_append)

definition appended :: "staged_transfer \<Rightarrow> bytes \<Rightarrow> staged_transfer" where
  "appended t chunk =
     t\<lparr>sg_bytes := sg_bytes t @ chunk, sg_chunk_ends := sg_chunk_ends t @ [length (sg_bytes t @ chunk)],
       sg_next_chunk_index := sg_next_chunk_index t + 1\<rparr>"

lemma appended_fields [simp]:
  "sg_bytes (appended t chunk) = sg_bytes t @ chunk" "sg_total_length (appended t chunk) = sg_total_length t"
  "sg_quota (appended t chunk) = sg_quota t" "sg_sha256 (appended t chunk) = sg_sha256 t"
  "sg_complete (appended t chunk) = sg_complete t" "sg_owner (appended t chunk) = sg_owner t"
  "sg_mime_class (appended t chunk) = sg_mime_class t" "sg_created_ms (appended t chunk) = sg_created_ms t"
  "sg_next_chunk_index (appended t chunk) = sg_next_chunk_index t + 1"
  "sg_chunk_ends (appended t chunk) = sg_chunk_ends t @ [length (sg_bytes t) + length chunk]"
  by (simp_all add: appended_def)

lemma ends_appended:
  assumes "ends_ok t"
  shows "ends_ok (appended t chunk)"
proof -
  have "x \<le> length (sg_bytes t) + length chunk" if "x \<in> set (sg_chunk_ends t)" for x
    using assms sorted_le_last [OF _ that] that by (auto simp: ends_ok_def split: if_splits)
  with assms show ?thesis by (simp add: ends_ok_def sorted_append)
qed

lemma appended_ok:
  assumes "entry_ok sha key t" and "\<not> sg_complete t" and "length (sg_bytes t) + length chunk \<le> unat (sg_total_length t)"
  shows "entry_ok sha key (appended t chunk)"
  using assms by (simp add: entry_ok_def ends_appended)

lemma completed_ok:
  assumes "entry_ok sha key t" and "length (sg_bytes t) = unat (sg_total_length t)" and "sha (sg_bytes t) = sg_sha256 t"
  shows "entry_ok sha key (t\<lparr>sg_complete := True\<rparr>)"
  using assms by (simp add: entry_ok_def ends_ok_def)

lemma entry_total_le: "entry_ok sha key t \<Longrightarrow> unat (sg_total_length t) \<le> 536870912"
  using class_max_le by (auto simp: entry_ok_def)

lemma overrun_iff:
  assumes "entry_ok sha key t" and "length chunk \<le> STAGED_CHUNK_BYTES"
  shows "of_nat (length (sg_bytes t)) + of_nat (length chunk) > sg_total_length t
     \<longleftrightarrow> length (sg_bytes t) + length chunk > unat (sg_total_length t)"
proof -
  have "length (sg_bytes t) + length chunk < 2 ^ 64"
    using assms entry_total_le [OF assms(1)]
    by (simp add: entry_ok_def STAGED_CHUNK_BYTES_def MAX_ATTACHMENT_CHUNK_BASE64_BYTES_def)
  then have "unat (of_nat (length (sg_bytes t) + length chunk) :: u64) = length (sg_bytes t) + length chunk"
    by (intro unat_of_nat_small) simp
  then show ?thesis by (simp add: word_less_nat_alt)
qed

lemma of_nat_eq_iff_unat:
  assumes "n < 2 ^ 64"
  shows "(of_nat n :: u64) = w \<longleftrightarrow> n = unat w"
  using assms unat_of_nat_small [where 'a = 64, of n] by auto

text \<open>What a chunk does to the entry it is written to.\<close>

lemma write_entry_eq:
  assumes ok: "entry_ok sha key t" and chunk: "length chunk \<le> STAGED_CHUNK_BYTES"
  shows "write_entry sha now s key t r owner n chunk =
     (if sg_owner t \<noteq> owner then (s, Inl OwnerMismatch)
      else if sg_total_length t \<noteq> rf_total_length r \<or> sg_sha256 t \<noteq> rf_sha256 r \<or> sg_mime_class t \<noteq> rf_mime_class r
      then (s, Inl DuplicateTransfer)
      else if n < sg_next_chunk_index t then (s, replay_chunk now t n chunk)
      else if sg_complete t \<or> n \<noteq> sg_next_chunk_index t then (s, Inl ChunkIndexGap)
      else if length (sg_bytes t) + length chunk > unat (sg_total_length t) then (s, Inl LengthOverrun)
      else if length (sg_bytes t) + length chunk < unat (sg_total_length t)
      then (with_entry s key (appended t chunk), Inr (accepted_reply now (appended t chunk)))
      else if sha (sg_bytes t @ chunk) \<noteq> sg_sha256 t
      then (fst (staging_remove (with_entry s key (appended t chunk)) key), Inl DigestMismatch)
      else (with_entry s key ((appended t chunk)\<lparr>sg_complete := True\<rparr>),
            Inr (accepted_reply now ((appended t chunk)\<lparr>sg_complete := True\<rparr>))))"
proof -
  have "length (sg_bytes t @ chunk) < 2 ^ 64"
    using ok chunk entry_total_le [OF ok]
    by (simp add: entry_ok_def STAGED_CHUNK_BYTES_def MAX_ATTACHMENT_CHUNK_BASE64_BYTES_def)
  then have eq: "of_nat (length (sg_bytes t)) + of_nat (length chunk) = w \<longleftrightarrow> length (sg_bytes t) + length chunk = unat w" for w :: u64
    using of_nat_eq_iff_unat [of "length (sg_bytes t @ chunk)" w] by simp
  show ?thesis
    unfolding write_entry_def overrun_iff [OF ok chunk] Let_def staged_transfer.simps appended_def [symmetric]
      with_entry_def [symmetric]
    by (auto simp: appended_def eq)
qed

lemma write_entry_inv:
  assumes inv: "staging_inv sha s" and t: "bt_get (so_transfers s) key = Some t" and chunk: "length chunk \<le> STAGED_CHUNK_BYTES"
  shows "staging_inv sha (fst (write_entry sha now s key t r owner n chunk))"
proof -
  have ok: "entry_ok sha key t" using inv t unfolding staging_inv_def by blast
  let ?a = "appended t chunk"
  have app: "staging_inv sha (with_entry s key ?a)" "entry_ok sha key ?a"
    if "\<not> sg_complete t" "length (sg_bytes t) + length chunk \<le> unat (sg_total_length t)"
    using appended_ok [OF ok that] by (auto intro: replace_inv [OF inv t])
  have "staging_inv sha (with_entry s key (?a\<lparr>sg_complete := True\<rparr>))"
    if "\<not> sg_complete t" "length (sg_bytes t) + length chunk = unat (sg_total_length t)" "sha (sg_bytes t @ chunk) = sg_sha256 t"
    using completed_ok [OF app(2)] that by (intro replace_inv [OF inv t]) simp_all
  then show ?thesis
    unfolding write_entry_eq [OF ok chunk] using inv app remove_inv by auto
qed

lemma fresh_ok:
  assumes "owner_gate (rf_mime_class r) owner = Inr ()" and "\<not> rf_total_length r > class_max_total_length (rf_mime_class r)"
  shows "entry_ok sha (staged_key_new i owner) (fresh_transfer now r owner quota)"
  using assms by (simp add: entry_ok_def fresh_transfer_def staged_key_new_def ends_ok_def not_less)

lemma write_inv:
  assumes inv: "staging_inv sha s"
  shows "staging_inv sha (fst (write_chunk_with_owner sha now s r owner quota n chunk))"
proof -
  let ?s = "fst (staging_expire s now)" and ?key = "staged_key_new (rf_transfer_id r) owner"
  let ?t = "fresh_transfer now r owner quota"
  let ?s' = "with_entry (?s\<lparr>so_staged_bytes := so_staged_bytes ?s + sg_total_length ?t\<rparr>) ?key ?t"
  have e: "staging_inv sha ?s" using inv by (rule staging_expire_inv)
  consider (refused) "fst (write_chunk_with_owner sha now s r owner quota n chunk) = s"
    | (gate) "owner_gate (rf_mime_class r) owner = Inr ()" "length chunk \<le> STAGED_CHUNK_BYTES"
        "\<not> rf_total_length r > class_max_total_length (rf_mime_class r)"
    by (cases "owner_gate (rf_mime_class r) owner"; cases "length chunk \<le> STAGED_CHUNK_BYTES";
        cases "rf_total_length r > class_max_total_length (rf_mime_class r)")
      (auto simp: write_chunk_with_owner_def)
  then show ?thesis
  proof cases
    case refused
    then show ?thesis using inv by simp
  next
    case gate
    show ?thesis
    proof (cases "bt_get (so_transfers ?s) ?key")
      case None
      have "staging_inv sha (fst (write_entry sha now ?s' ?key ?t r owner n chunk))"
        if "can_reserve ?s (sg_total_length ?t) (sg_quota ?t) = Inr ()"
        using insert_new_inv [OF e None that fresh_ok [OF gate(1,3)]] gate(2)
        by (intro write_entry_inv) (simp_all add: with_entry_def)
      with e gate None show ?thesis
        by (auto simp: write_chunk_with_owner_def Let_def fresh_transfer_def with_entry_def split: sum.splits)
    next
      case (Some t)
      with gate write_entry_inv [OF e Some gate(2)] show ?thesis by (simp add: write_chunk_with_owner_def Let_def)
    qed
  qed
qed

subsection \<open>Staging and reading\<close>

lemma chunk_count_bounds:
  assumes "unat len \<le> 536870912"
  shows "0 < unat (chunk_count len)" and "unat len \<le> unat (chunk_count len) * STAGED_CHUNK_BYTES"
    and "(unat (chunk_count len) - 1) * STAGED_CHUNK_BYTES \<le> unat len - 1"
proof -
  let ?n = "unat len"
  define q where "q = ?n div 196608"
  define r where "r = ?n mod 196608"
  have size: "STAGED_CHUNK_BYTES = 196608" by (simp add: STAGED_CHUNK_BYTES_def MAX_ATTACHMENT_CHUNK_BASE64_BYTES_def)
  have dm: "?n = q * 196608 + r" "r < 196608" by (simp_all add: q_def r_def)
  have q: "q \<le> 2731" using assms dm(1) by linarith
  have w: "unat (len div 196608) = q" "unat (len mod 196608) = r"
    by (simp_all add: unat_div unat_mod q_def r_def)
  then have add: "unat (len div 196608 + 1) = q + 1" using q by (simp add: unat_word_ariths)
  have "unat (chunk_count len) = (if len = 0 then 1 else if r > 0 then q + 1 else q)"
    using q w add by (simp add: chunk_count_def Let_def size unsigned_ucast_eq word_less_nat_alt take_bit_eq_mod)
  moreover have "len = 0 \<longleftrightarrow> ?n = 0" by (simp add: unat_eq_0)
  ultimately show "0 < unat (chunk_count len)" "?n \<le> unat (chunk_count len) * STAGED_CHUNK_BYTES"
      "(unat (chunk_count len) - 1) * STAGED_CHUNK_BYTES \<le> ?n - 1"
    unfolding size dm(1) using dm(2) by (auto split: if_splits)
qed

definition staged_ends :: "u64 \<Rightarrow> bytes \<Rightarrow> nat list" where
  "staged_ends len bs = map (\<lambda>index. min ((index + 1) * STAGED_CHUNK_BYTES) (length bs)) [0..<unat (chunk_count len)]"

lemma staged_ends_ok:
  assumes "unat len \<le> 536870912" and "unat len = length bs"
  shows "sorted (staged_ends len bs)" and "staged_ends len bs \<noteq> []" and "last (staged_ends len bs) = length bs"
    and "of_nat (length (staged_ends len bs)) = chunk_count len"
proof -
  show "sorted (staged_ends len bs)"
    unfolding staged_ends_def by (intro sorted_map [THEN iffD2] sorted_wrt_mono_rel [OF _ sorted_upt]) (auto simp: min_le_iff_disj)
  note b = chunk_count_bounds [OF assms(1)]
  show ne: "staged_ends len bs \<noteq> []" using b(1) by (simp add: staged_ends_def)
  obtain k where k: "unat (chunk_count len) = Suc k" using b(1) by (cases "unat (chunk_count len)") auto
  then show "last (staged_ends len bs) = length bs" using b(2) assms(2) by (simp add: staged_ends_def)
  show "of_nat (length (staged_ends len bs)) = chunk_count len" by (simp add: staged_ends_def)
qed

definition staged_entry ::
    "(bytes \<Rightarrow> digest32) \<Rightarrow> u64 \<Rightarrow> bytes \<Rightarrow> bulk_class \<Rightarrow> digest32 option \<Rightarrow> digest32 \<Rightarrow> staged_transfer" where
  "staged_entry sha now bs c owner quota =
     \<lparr>sg_total_length = of_nat (length bs), sg_sha256 = sha bs, sg_mime_class = c, sg_bytes = bs,
      sg_chunk_ends = staged_ends (of_nat (length bs)) bs, sg_next_chunk_index = chunk_count (of_nat (length bs)),
      sg_complete = True, sg_created_ms = now, sg_owner = owner, sg_quota = quota\<rparr>"

lemma stage_eq:
  "stage_with_owner sha now s bs c i owner quota =
     (case owner_gate c owner of
        Inl e \<Rightarrow> (s, Inl e)
      | Inr _ \<Rightarrow>
        if of_nat (length bs) > class_max_total_length c then (s, Inl ClassLimit)
        else let s = fst (staging_expire s now) in
          if bt_get (so_transfers s) (i, owner) \<noteq> None then (s, Inl DuplicateTransfer)
          else case can_reserve s (of_nat (length bs)) quota of
              Inl e \<Rightarrow> (s, Inl e)
            | Inr _ \<Rightarrow>
              (with_entry (s\<lparr>so_staged_bytes := so_staged_bytes s + of_nat (length bs)\<rparr>) (i, owner) (staged_entry sha now bs c owner quota),
               if i = 0 then Inl UnknownTransfer
               else Inr \<lparr>rf_transfer_id = i, rf_total_length = of_nat (length bs), rf_sha256 = sha bs, rf_mime_class = c\<rparr>))"
proof -
  have "class_max_total_length c \<le> BULK_MAX_TRANSFER_BYTES"
    by (cases c) (simp_all add: BULK_MAX_TRANSFER_BYTES_def PASTE_MAX_SINGLE_IMAGE_BYTES_def PASTE_MAX_TOTAL_IMAGE_BYTES_def)
  then have guard: "(of_nat (length bs) > class_max_total_length c \<or> of_nat (length bs) > BULK_MAX_TRANSFER_BYTES)
      = (of_nat (length bs) > class_max_total_length c)" by (meson le_less_trans)
  show ?thesis
    unfolding stage_with_owner_def Let_def guard
    by (auto simp: staged_key_new_def staged_entry_def staged_ends_def with_entry_def transfer_id_from_bytes_def
        bulk_ref_new_def split: sum.split)
qed

lemma staged_entry_ok:
  assumes "owner_gate c owner = Inr ()" and "\<not> (of_nat (length bs) :: u64) > class_max_total_length c" and "length bs < 2 ^ 64"
  shows "entry_ok sha (i, owner) (staged_entry sha now bs c owner quota)"
proof -
  have u: "unat (of_nat (length bs) :: u64) = length bs" using assms(3) by (intro unat_of_nat_small) simp
  have "unat (of_nat (length bs) :: u64) \<le> 536870912" using assms(2) by (intro class_max_le [of _ c]) simp
  note e = staged_ends_ok [OF this u]
  show ?thesis
    using assms(1,2) e by (simp add: entry_ok_def staged_entry_def ends_ok_def u not_less)
qed

lemma stage_inv:
  assumes inv: "staging_inv sha s" and "length bs < 2 ^ 64"
  shows "staging_inv sha (fst (stage_with_owner sha now s bs c i owner quota))"
proof -
  let ?s = "fst (staging_expire s now)" and ?t = "staged_entry sha now bs c owner quota"
  have e: "staging_inv sha ?s" using inv by (rule staging_expire_inv)
  have "staging_inv sha (with_entry (?s\<lparr>so_staged_bytes := so_staged_bytes ?s + of_nat (length bs)\<rparr>) (i, owner) ?t)"
    if "owner_gate c owner = Inr ()" "\<not> (of_nat (length bs) :: u64) > class_max_total_length c"
      "bt_get (so_transfers ?s) (i, owner) = None" "can_reserve ?s (of_nat (length bs)) quota = Inr ()"
    using insert_new_inv [OF e that(3) _ staged_entry_ok [OF that(1,2) assms(2)], of now quota] that(4)
    by (simp add: staged_entry_def)
  then show ?thesis
    using inv e unfolding stage_eq by (auto simp: Let_def split: sum.splits)
qed

lemma serve_total:
  assumes ok: "entry_ok sha key t"
  shows "serve_chunk s key t n =
    (if \<not> sg_complete t then Some (s, Inl Incomplete)
     else if n \<ge> chunk_count (sg_total_length t) then Some (s, Inl ChunkIndexGap)
     else let last = (n + 1 = chunk_count (sg_total_length t)) in
       Some (if last then fst (staging_remove s key) else s,
         Inr (take STAGED_CHUNK_BYTES (drop (unat n * STAGED_CHUNK_BYTES) (sg_bytes t)), last)))"
proof -
  let ?len = "sg_total_length t" and ?a = "unat n * STAGED_CHUNK_BYTES"
  note b = chunk_count_bounds [OF entry_total_le [OF ok]]
  have "byte_range (sg_bytes t) ?a (min (?a + STAGED_CHUNK_BYTES) (length (sg_bytes t)))
      = Some (take STAGED_CHUNK_BYTES (drop ?a (sg_bytes t)))"
    if "sg_complete t" "\<not> n \<ge> chunk_count ?len"
  proof -
    have "unat n \<le> unat (chunk_count ?len) - 1" using that(2) by (simp add: word_le_nat_alt)
    then have "?a \<le> (unat (chunk_count ?len) - 1) * STAGED_CHUNK_BYTES" by (rule mult_le_mono1)
    also have "\<dots> \<le> length (sg_bytes t)" using b(3) ok that(1) by (simp add: entry_ok_def)
    finally show ?thesis by (simp add: byte_range_def min_def)
  qed
  then show ?thesis by (simp add: serve_chunk_def Let_def)
qed

lemma inv_entry_ok: "staging_inv sha s \<Longrightarrow> bt_get (so_transfers s) key = Some t \<Longrightarrow> entry_ok sha key t"
  unfolding staging_inv_def by blast

lemma serve_inv:
  assumes "staging_inv sha s" and "entry_ok sha key t"
  obtains s' out where "serve_chunk s key t n = Some (s', out)" and "staging_inv sha s'"
proof -
  have "\<exists>s' out. serve_chunk s key t n = Some (s', out) \<and> staging_inv sha s'"
    using assms(1) remove_inv [OF assms(1)] unfolding serve_total [OF assms(2)] by (auto simp: Let_def)
  then show ?thesis using that by blast
qed

lemma read_inv:
  assumes "staging_inv sha s"
  shows "\<exists>s' out. read_chunk now s i n = Some (s', out) \<and> staging_inv sha s'"
    and "\<exists>s' out. read_chunk_of_kind now s i n c = Some (s', out) \<and> staging_inv sha s'"
proof -
  let ?s = "fst (staging_expire s now)"
  have e: "staging_inv sha ?s" using assms by (rule staging_expire_inv)
  have "\<exists>s' out. serve_chunk ?s key t n = Some (s', out) \<and> staging_inv sha s'" if "bt_get (so_transfers ?s) key = Some t" for key t
    using serve_inv [OF e inv_entry_ok [OF e that], of n] by metis
  with e show "\<exists>s' out. read_chunk now s i n = Some (s', out) \<and> staging_inv sha s'"
      "\<exists>s' out. read_chunk_of_kind now s i n c = Some (s', out) \<and> staging_inv sha s'"
    by (auto simp: read_chunk_def read_chunk_of_kind_def Let_def split: option.split)
qed

subsection \<open>Taking\<close>

definition holds_body :: "(bytes \<Rightarrow> digest32) \<Rightarrow> staging_store \<Rightarrow> digest32 option \<Rightarrow> bulk_ref \<Rightarrow> staged_transfer \<Rightarrow> bool" where
  "holds_body sha s owner r t \<longleftrightarrow> bt_get (so_transfers s) (rf_transfer_id r, owner) = Some t \<and> sg_owner t = owner \<and> sg_complete t
     \<and> sg_total_length t = rf_total_length r \<and> sg_sha256 t = rf_sha256 r \<and> sha (sg_bytes t) = rf_sha256 r
     \<and> sg_mime_class t = rf_mime_class r \<and> owner_gate (rf_mime_class r) owner = Inr ()"

lemma take_check_iff:
  "take_check sha s owner keys r = Inr key \<longleftrightarrow>
     key = (rf_transfer_id r, owner) \<and> key \<notin> set keys \<and> (\<exists>t. holds_body sha s owner r t)"
  by (auto simp: take_check_def holds_body_def Let_def result_simps staged_key_new_def)

lemma take_checks_iff:
  "take_checks sha s owner keys refs = Inr ks \<longleftrightarrow>
     ks = keys @ map (\<lambda>r. (rf_transfer_id r, owner)) refs \<and> (\<forall>r \<in> set refs. \<exists>t. holds_body sha s owner r t)
     \<and> distinct (map (\<lambda>r. (rf_transfer_id r, owner)) refs) \<and> set keys \<inter> set (map (\<lambda>r. (rf_transfer_id r, owner)) refs) = {}"
proof (induction refs arbitrary: keys)
  case (Cons r refs)
  show ?case unfolding take_checks.simps rbind_Inr_iff take_check_iff Cons.IH by auto
qed auto

lemma remove_get:
  "snd (staging_remove s key) = bt_get (so_transfers s) key"
  "bt_get (so_transfers (fst (staging_remove s key))) j = (if j = key then None else bt_get (so_transfers s) j)"
  by (auto simp: staging_remove_def split: option.split)

lemma take_remove_ok:
  assumes "staging_inv sha s" and "distinct keys" and "\<forall>key \<in> set keys. bt_get (so_transfers s) key \<noteq> None"
  shows "\<exists>s'. take_remove s keys = Some (s', map (\<lambda>key. sg_bytes (the (bt_get (so_transfers s) key))) keys) \<and> staging_inv sha s'
     \<and> (\<forall>j. bt_get (so_transfers s') j = (if j \<in> set keys then None else bt_get (so_transfers s) j))"
  using assms
proof (induction keys arbitrary: s)
  case (Cons key keys)
  obtain t where t: "bt_get (so_transfers s) key = Some t" using Cons.prems(3) by auto
  let ?s = "fst (staging_remove s key)"
  have r: "staging_remove s key = (?s, Some t)" using remove_get(1) [of s key] t by (metis prod.collapse)
  have d: "distinct keys" and p: "\<forall>k \<in> set keys. bt_get (so_transfers ?s) k \<noteq> None"
    using Cons.prems(2,3) by (auto simp: remove_get(2))
  from Cons.IH [OF remove_inv [OF Cons.prems(1)] d p] obtain s' where s': "take_remove ?s keys = Some (s', map (\<lambda>k. sg_bytes (the (bt_get (so_transfers ?s) k))) keys)"
      "staging_inv sha s'" "\<forall>j. bt_get (so_transfers s') j = (if j \<in> set keys then None else bt_get (so_transfers ?s) j)"
    by blast
  moreover have "map (\<lambda>k. sg_bytes (the (bt_get (so_transfers ?s) k))) keys = map (\<lambda>k. sg_bytes (the (bt_get (so_transfers s) k))) keys"
    using Cons.prems(2) by (auto simp: remove_get(2))
  ultimately show ?case by (subst take_remove.simps, subst r) (auto simp: t remove_get(2))
qed simp

lemma take_all_ok:
  fixes now :: u64
  assumes inv: "staging_inv sha s"
  defines "s1 \<equiv> fst (staging_expire s now)"
  shows "\<exists>s' out. take_all_with_owner sha now s refs owner = Some (s', out) \<and> staging_inv sha s'
     \<and> (case out of Inl e \<Rightarrow> s' = s1
        | Inr bodies \<Rightarrow> (\<forall>r \<in> set refs. \<exists>t. holds_body sha s1 owner r t) \<and> distinct (map rf_transfer_id refs)
            \<and> bodies = map (\<lambda>r. sg_bytes (the (bt_get (so_transfers s1) (rf_transfer_id r, owner)))) refs
            \<and> (\<forall>j. bt_get (so_transfers s') j
                  = (if j \<in> (\<lambda>r. (rf_transfer_id r, owner)) ` set refs then None else bt_get (so_transfers s1) j)))"
proof -
  have e: "staging_inv sha s1" unfolding s1_def using inv by (rule staging_expire_inv)
  show ?thesis
  proof (cases "take_checks sha s1 owner [] refs")
    case (Inl x)
    then show ?thesis using e by (simp add: take_all_with_owner_def s1_def [symmetric])
  next
    case (Inr ks)
    note c = Inr [unfolded take_checks_iff]
    have ks: "ks = map (\<lambda>r. (rf_transfer_id r, owner)) refs" "distinct ks" using c by simp_all
    have "\<forall>key \<in> set ks. bt_get (so_transfers s1) key \<noteq> None" using c by (auto simp: holds_body_def)
    from take_remove_ok [OF e ks(2) this] obtain s' where s':
      "take_remove s1 ks = Some (s', map (\<lambda>key. sg_bytes (the (bt_get (so_transfers s1) key))) ks)" "staging_inv sha s'"
      "\<forall>j. bt_get (so_transfers s') j = (if j \<in> set ks then None else bt_get (so_transfers s1) j)" by blast
    have "distinct (map rf_transfer_id refs)" using ks by (auto simp: distinct_map inj_on_def)
    with s' c ks show ?thesis
      by (simp add: take_all_with_owner_def s1_def [symmetric] Inr comp_def)
  qed
qed

section \<open>Sequences of calls\<close>

text \<open>The byte strings of a call fit into memory.\<close>

fun fits :: "staging_call \<Rightarrow> bool" where
  "fits (Do_Stage bs c i quota) \<longleftrightarrow> length bs < 2 ^ 63"
| "fits (Do_Stage_Owned bs owner i quota) \<longleftrightarrow> length bs < 2 ^ 63"
| "fits _ \<longleftrightarrow> True"

lemma take_inv:
  assumes "staging_inv sha s"
  shows "\<exists>s' out. take_all_with_owner sha now s refs owner = Some (s', out) \<and> staging_inv sha s'"
    and "\<exists>s' out. pop_body (take_all_with_owner sha now s [r] owner) = Some (s', out) \<and> staging_inv sha s'"
proof -
  show "\<exists>s' out. take_all_with_owner sha now s refs owner = Some (s', out) \<and> staging_inv sha s'"
    using take_all_ok [OF assms, of now refs owner] by blast
  from take_all_ok [OF assms, of now "[r]" owner]
  show "\<exists>s' out. pop_body (take_all_with_owner sha now s [r] owner) = Some (s', out) \<and> staging_inv sha s'"
    by (elim exE conjE) (auto simp: pop_body_def split: sum.splits)
qed

lemma call_inv:
  assumes "staging_inv sha s" and "fits c"
  shows "\<exists>s'. call_staging sha s now c = Some s' \<and> staging_inv sha s'"
proof -
  have total: "\<exists>s'. (\<exists>out. read_chunk now s i n = Some (s', out)) \<and> staging_inv sha s'"
      "\<exists>s'. (\<exists>out. read_chunk_of_kind now s i n k = Some (s', out)) \<and> staging_inv sha s'"
      "\<exists>s'. (\<exists>out. take_all_with_owner sha now s refs owner = Some (s', out)) \<and> staging_inv sha s'"
      "\<exists>s'. (\<exists>out. pop_body (take_all_with_owner sha now s [r] owner) = Some (s', out)) \<and> staging_inv sha s'" for i n k refs r owner
    using read_inv [OF assms(1)] take_inv [OF assms(1)] by blast+
  show ?thesis
    using assms
    by (cases c)
      (auto simp: stage_def stage_owned_def write_chunk_def write_chunk_owned_def discard_def discard_owned_def
        take_all_def take_all_owned_def take_one_def take_owned_def total
        intro!: stage_inv write_inv remove_inv staging_expire_inv)
qed

interpretation staging: guarded_machine "staging_step sha" "\<lambda>e. fits (snd e)" "\<lambda>o'. \<exists>s. o' = Some s \<and> staging_inv sha s" for sha
  by unfold_locales (auto simp: staging_step_def intro: call_inv)

definition staging_run :: "(bytes \<Rightarrow> digest32) \<Rightarrow> (u64 \<times> staging_call) list \<Rightarrow> staging_store option" where
  "staging_run sha calls = foldl (staging_step sha) (Some staging_default) calls"

lemma staging_run_inv:
  assumes "list_all (\<lambda>e. fits (snd e)) calls"
  obtains s where "staging_run sha calls = Some s" and "staging_inv sha s"
  using staging.inv_run [of "Some staging_default" sha calls] assms staging_inv_default [of sha]
  unfolding staging_run_def by blast

section \<open>Uploads\<close>

fun push_chunks ::
    "(bytes \<Rightarrow> digest32) \<Rightarrow> staging_store \<Rightarrow> bulk_ref \<Rightarrow> digest32 option \<Rightarrow> digest32 \<Rightarrow> nat \<Rightarrow> (u64 \<times> bytes) list
     \<Rightarrow> staging_error + staging_store" where
  "push_chunks sha s r owner quota n [] = Inr s"
| "push_chunks sha s r owner quota n ((now, chunk) # cs) =
     (case write_chunk_with_owner sha now s r owner quota (of_nat n) chunk of
        (s, Inl e) \<Rightarrow> Inl e
      | (s, Inr reply) \<Rightarrow> push_chunks sha s r owner quota (Suc n) cs)"

text \<open>A reference that may be written under its owner.\<close>

definition admitted_ref :: "bulk_ref \<Rightarrow> digest32 option \<Rightarrow> bool" where
  "admitted_ref r owner \<longleftrightarrow> owner_gate (rf_mime_class r) owner = Inr () \<and> rf_total_length r \<le> class_max_total_length (rf_mime_class r)"

definition carries :: "bulk_ref \<Rightarrow> digest32 option \<Rightarrow> staged_transfer \<Rightarrow> bool" where
  "carries r owner t \<longleftrightarrow> sg_owner t = owner \<and> sg_total_length t = rf_total_length r \<and> sg_sha256 t = rf_sha256 r
     \<and> sg_mime_class t = rf_mime_class r"

lemma carries_appended [simp]: "carries r owner (appended t chunk) = carries r owner t"
  by (simp add: carries_def)

lemma write_to_entry:
  assumes "staging_inv sha s" and "admitted_ref r owner" and "length chunk \<le> STAGED_CHUNK_BYTES"
    and "bt_get (so_transfers s) (rf_transfer_id r, owner) = Some t" and "\<not> is_stale now t"
  shows "write_chunk_with_owner sha now s r owner quota n chunk =
    write_entry sha now (fst (staging_expire s now)) (rf_transfer_id r, owner) t r owner n chunk"
proof -
  have "bt_wf (so_transfers s)" using assms(1) by (simp add: staging_inv_def)
  moreover have "\<not> rf_total_length r > class_max_total_length (rf_mime_class r)" "\<not> length chunk > STAGED_CHUNK_BYTES"
    using assms(2,3) by (simp_all add: admitted_ref_def not_less)
  ultimately show ?thesis
    using assms(2,4,5) by (simp add: write_chunk_with_owner_def admitted_ref_def staged_key_new_def staging_expire_get Let_def)
qed

text \<open>The next chunk of an unfinished upload.\<close>

lemma append_chunk:
  assumes inv: "staging_inv sha s" and adm: "admitted_ref r owner" and chunk: "length chunk \<le> STAGED_CHUNK_BYTES"
    and t: "bt_get (so_transfers s) (rf_transfer_id r, owner) = Some t" "\<not> is_stale now t" "carries r owner t"
    and open_: "\<not> sg_complete t" "sg_next_chunk_index t = n"
    and fit: "length (sg_bytes t) + length chunk \<le> unat (rf_total_length r)"
    and good: "length (sg_bytes t) + length chunk = unat (rf_total_length r) \<Longrightarrow> sha (sg_bytes t @ chunk) = rf_sha256 r"
  shows "\<exists>s' reply. write_chunk_with_owner sha now s r owner quota n chunk = (s', Inr reply)
     \<and> bt_get (so_transfers s') (rf_transfer_id r, owner)
        = Some ((appended t chunk)\<lparr>sg_complete := (length (sg_bytes t) + length chunk = unat (rf_total_length r))\<rparr>)"
proof -
  have ok: "entry_ok sha (rf_transfer_id r, owner) t" using inv t(1) by (rule inv_entry_ok)
  have same: "(appended t chunk)\<lparr>sg_complete := False\<rparr> = appended t chunk" using open_(1) by (simp add: appended_def)
  have eqs: "sg_owner t = owner" "sg_total_length t = rf_total_length r" "sg_sha256 t = rf_sha256 r" "sg_mime_class t = rf_mime_class r"
    using t(3) by (simp_all add: carries_def)
  show ?thesis
    unfolding write_to_entry [OF inv adm chunk t(1,2)] write_entry_eq [OF ok chunk] eqs
    using open_ fit good eqs same by (auto simp: with_entry_def)
qed

lemma push_rest:
  assumes "staging_inv sha s" and adm: "admitted_ref r owner" and "sha data = rf_sha256 r" and "unat (rf_total_length r) = length data"
    and "bt_get (so_transfers s) (rf_transfer_id r, owner) = Some t" and "carries r owner t" and "\<not> sg_complete t"
    and "sg_next_chunk_index t = of_nat n" and "sg_bytes t @ concat (map snd cs) = data" and "cs \<noteq> []"
    and "list_all (\<lambda>(now, chunk). chunk \<noteq> [] \<and> length chunk \<le> STAGED_CHUNK_BYTES \<and> \<not> is_stale now t) cs"
  shows "\<exists>s' t'. push_chunks sha s r owner quota n cs = Inr s' \<and> staging_inv sha s' \<and> sg_complete t' \<and> sg_bytes t' = data
     \<and> bt_get (so_transfers s') (rf_transfer_id r, owner) = Some t' \<and> carries r owner t' \<and> sg_created_ms t' = sg_created_ms t"
  using assms(1,5-)
proof (induction cs arbitrary: s t n)
  case (Cons c cs)
  obtain now chunk where c: "c = (now, chunk)" by fastforce
  have chunk: "chunk \<noteq> []" "length chunk \<le> STAGED_CHUNK_BYTES" "\<not> is_stale now t" using Cons.prems(8) by (simp_all add: c)
  have data: "sg_bytes t @ chunk @ concat (map snd cs) = data" using Cons.prems(6) by (simp add: c)
  have rest: "concat (map snd cs) = [] \<longleftrightarrow> cs = []" using Cons.prems(8) by (cases cs) auto
  have len: "length (sg_bytes t) + length chunk = length data \<longleftrightarrow> cs = []" "length (sg_bytes t) + length chunk \<le> length data"
    using data rest by (auto simp flip: data)
  let ?t = "(appended t chunk)\<lparr>sg_complete := (cs = [])\<rparr>"
  have "sha (sg_bytes t @ chunk) = rf_sha256 r" if "length (sg_bytes t) + length chunk = unat (rf_total_length r)"
  proof -
    from that have "cs = []" using len(1) assms(4) by simp
    then show ?thesis using data assms(3) by simp
  qed
  from append_chunk [OF Cons.prems(1) adm chunk(2) Cons.prems(2) chunk(3) Cons.prems(3,4,5) _ this, of quota]
  obtain s1 reply where w: "write_chunk_with_owner sha now s r owner quota (of_nat n) chunk = (s1, Inr reply)"
    "bt_get (so_transfers s1) (rf_transfer_id r, owner) = Some ?t"
    using len assms(4) by auto
  have inv1: "staging_inv sha s1" using write_inv [OF Cons.prems(1), of now r owner quota "of_nat n" chunk] w(1) by simp
  have car: "carries r owner ?t" using Cons.prems(3) by (simp add: carries_def)
  show ?case
  proof (cases "cs = []")
    case True
    then show ?thesis using w inv1 car data by (auto simp: c)
  next
    case False
    have stale: "is_stale now' ((appended t chunk)\<lparr>sg_complete := b\<rparr>) = is_stale now' t" for now' b by (simp add: is_stale_def)
    have "\<exists>s' t'. push_chunks sha s1 r owner quota (Suc n) cs = Inr s' \<and> staging_inv sha s' \<and> sg_complete t' \<and> sg_bytes t' = data
      \<and> bt_get (so_transfers s') (rf_transfer_id r, owner) = Some t' \<and> carries r owner t' \<and> sg_created_ms t' = sg_created_ms ?t"
      using False data Cons.prems(5,8) by (intro Cons.IH [OF inv1 w(2) car]) (simp_all add: stale c)
    then show ?thesis using w(1) by (simp add: c)
  qed
qed simp

text \<open>The first chunk of an upload reserves its length.\<close>

lemma first_chunk:
  fixes s :: staging_store and now :: u64
  defines "s0 \<equiv> fst (staging_expire s now)"
  assumes inv: "staging_inv sha s" and adm: "admitted_ref r owner" and chunk: "length chunk \<le> STAGED_CHUNK_BYTES"
    and none: "bt_get (so_transfers s0) (rf_transfer_id r, owner) = None"
    and room: "can_reserve s0 (rf_total_length r) quota = Inr ()"
    and fit: "length chunk \<le> unat (rf_total_length r)"
    and good: "length chunk = unat (rf_total_length r) \<Longrightarrow> sha chunk = rf_sha256 r"
  shows "\<exists>s' reply. write_chunk_with_owner sha now s r owner quota 0 chunk = (s', Inr reply)
     \<and> bt_get (so_transfers s') (rf_transfer_id r, owner)
        = Some ((appended (fresh_transfer now r owner quota) chunk)\<lparr>sg_complete := (length chunk = unat (rf_total_length r))\<rparr>)"
proof -
  let ?t = "fresh_transfer now r owner quota" and ?key = "(rf_transfer_id r, owner)"
  let ?s = "with_entry (s0\<lparr>so_staged_bytes := so_staged_bytes s0 + rf_total_length r\<rparr>) ?key ?t"
  have gate: "owner_gate (rf_mime_class r) owner = Inr ()" "\<not> rf_total_length r > class_max_total_length (rf_mime_class r)"
    using adm by (simp_all add: admitted_ref_def not_less)
  have ok: "entry_ok sha ?key ?t" using fresh_ok [OF gate, of sha "rf_transfer_id r" now quota] by (simp add: staged_key_new_def)
  have w: "write_chunk_with_owner sha now s r owner quota 0 chunk = write_entry sha now ?s ?key ?t r owner 0 chunk"
    using gate chunk none room
    by (simp add: write_chunk_with_owner_def staged_key_new_def Let_def s0_def [symmetric] with_entry_def)
  have same: "(appended ?t chunk)\<lparr>sg_complete := False\<rparr> = appended ?t chunk" by (simp add: appended_def fresh_transfer_def)
  have f: "sg_owner ?t = owner" "sg_total_length ?t = rf_total_length r" "sg_sha256 ?t = rf_sha256 r" "sg_mime_class ?t = rf_mime_class r"
      "sg_next_chunk_index ?t = 0" "\<not> sg_complete ?t" "sg_bytes ?t = []"
    by (simp_all add: fresh_transfer_def)
  show ?thesis
    unfolding w write_entry_eq [OF ok chunk] f using fit good same by (auto simp: with_entry_def f)
qed

lemma take_all_success:
  assumes inv: "staging_inv sha s"
    and held: "\<forall>r \<in> set refs. \<exists>t. holds_body sha (fst (staging_expire s now)) owner r t" and "distinct (map rf_transfer_id refs)"
  shows "\<exists>s'. take_all_with_owner sha now s refs owner
       = Some (s', Inr (map (\<lambda>r. sg_bytes (the (bt_get (so_transfers (fst (staging_expire s now))) (rf_transfer_id r, owner)))) refs))
     \<and> (\<forall>r \<in> set refs. bt_get (so_transfers s') (rf_transfer_id r, owner) = None)"
proof -
  have "distinct (map (\<lambda>r. (rf_transfer_id r, owner)) refs)" using assms(3) by (auto simp: distinct_map inj_on_def)
  then have c: "take_checks sha (fst (staging_expire s now)) owner [] refs = Inr (map (\<lambda>r. (rf_transfer_id r, owner)) refs)"
    using held by (simp add: take_checks_iff)
  from take_all_ok [OF inv, of now refs owner] obtain s' out where t: "take_all_with_owner sha now s refs owner = Some (s', out)"
    and o: "case out of Inl e \<Rightarrow> s' = fst (staging_expire s now)
        | Inr bodies \<Rightarrow> (\<forall>r \<in> set refs. \<exists>t. holds_body sha (fst (staging_expire s now)) owner r t) \<and> distinct (map rf_transfer_id refs)
            \<and> bodies = map (\<lambda>r. sg_bytes (the (bt_get (so_transfers (fst (staging_expire s now))) (rf_transfer_id r, owner)))) refs
            \<and> (\<forall>j. bt_get (so_transfers s') j = (if j \<in> (\<lambda>r. (rf_transfer_id r, owner)) ` set refs then None
                  else bt_get (so_transfers (fst (staging_expire s now))) j))"
    by blast
  obtain bodies where "out = Inr bodies" using t c by (cases out) (auto simp: take_all_with_owner_def Let_def)
  with t o show ?thesis by auto
qed

section \<open>Exports\<close>

fun pull_chunks :: "staging_store \<Rightarrow> id16 \<Rightarrow> nat \<Rightarrow> u64 list \<Rightarrow> (staging_store \<times> bytes list) option" where
  "pull_chunks s i n [] = Some (s, [])"
| "pull_chunks s i n (now # nows) =
     (case read_chunk now s i (of_nat n) of
        Some (s, Inr (chunk, final)) \<Rightarrow> map_option (\<lambda>(s, chunks). (s, chunk # chunks)) (pull_chunks s i (Suc n) nows)
      | _ \<Rightarrow> None)"

lemma read_entry:
  assumes inv: "staging_inv sha s" and t: "bt_get (so_transfers s) (i, None) = Some t" "\<not> is_stale now t" "sg_complete t"
  shows "read_chunk now s i n =
    (if n \<ge> chunk_count (sg_total_length t) then Some (fst (staging_expire s now), Inl ChunkIndexGap)
     else let last = (n + 1 = chunk_count (sg_total_length t)) in
       Some (if last then fst (staging_remove (fst (staging_expire s now)) (i, None)) else fst (staging_expire s now),
         Inr (take STAGED_CHUNK_BYTES (drop (unat n * STAGED_CHUNK_BYTES) (sg_bytes t)), last)))"
proof -
  have ok: "entry_ok sha (i, None) t" using inv t(1) by (rule inv_entry_ok)
  then have "sg_mime_class t \<noteq> Class_Opaque" by (auto simp: entry_ok_def owner_gate_def is_ok_iff)
  moreover have "bt_wf (so_transfers s)" using inv by (simp add: staging_inv_def)
  ultimately show ?thesis
    using t by (simp add: read_chunk_def staged_key_new_def staging_expire_get serve_total [OF ok] Let_def)
qed

lemma pull_rest:
  assumes "staging_inv sha s" and t: "bt_get (so_transfers s) (i, None) = Some t" "sg_complete t"
    and "list_all (\<lambda>now. \<not> is_stale now t) nows" and "n + length nows = unat (chunk_count (sg_total_length t))" and "nows \<noteq> []"
  shows "\<exists>s' chunks. pull_chunks s i n nows = Some (s', chunks) \<and> concat chunks = drop (n * STAGED_CHUNK_BYTES) (sg_bytes t)
     \<and> bt_get (so_transfers s') (i, None) = None \<and> staging_inv sha s'"
  using assms(1,2,4-)
proof (induction nows arbitrary: s n)
  case (Cons now nows)
  let ?cc = "chunk_count (sg_total_length t)" and ?s = "fst (staging_expire s now)" and ?C = STAGED_CHUNK_BYTES
  have ok: "entry_ok sha (i, None) t" using Cons.prems(1,2) by (rule inv_entry_ok)
  have wf: "bt_wf (so_transfers s)" and e: "staging_inv sha ?s" using Cons.prems(1) staging_expire_inv by (auto simp: staging_inv_def)
  have fresh: "\<not> is_stale now t" using Cons.prems(3) by simp
  have lt: "unat ?cc < 2 ^ LENGTH(32)" by (rule unsigned_less)
  have n: "unat (of_nat n :: u32) = n" "n < unat ?cc"
    using Cons.prems(4) lt by (auto intro!: unat_of_nat_small)
  have "n + 1 = unat ?cc \<longleftrightarrow> of_nat n + 1 = ?cc"
  proof -
    have "unat (of_nat (n + 1) :: u32) = n + 1" using n(2) lt by (intro unat_of_nat_small) simp
    then show ?thesis by (metis of_nat_1 of_nat_add word_unat_eq_iff)
  qed
  moreover have "n + 1 = unat ?cc \<longleftrightarrow> nows = []" using Cons.prems(4) by (cases nows) auto
  ultimately have last: "of_nat n + 1 = ?cc \<longleftrightarrow> nows = []" by blast
  have get: "bt_get (so_transfers ?s) (i, None) = Some t" using Cons.prems(2) fresh by (simp add: staging_expire_get [OF wf])
  have rd: "read_chunk now s i (of_nat n) =
      Some (if nows = [] then fst (staging_remove ?s (i, None)) else ?s, Inr (take ?C (drop (n * ?C) (sg_bytes t)), nows = []))"
    using read_entry [OF Cons.prems(1,2) fresh t(2), of "of_nat n"] n last by (simp add: word_le_nat_alt Let_def)
  show ?case
  proof (cases "nows = []")
    case True
    have "length (sg_bytes t) \<le> unat ?cc * ?C"
      using chunk_count_bounds(2) [OF entry_total_le [OF ok]] ok t(2) by (simp add: entry_ok_def)
    moreover have "unat ?cc = n + 1" using Cons.prems(4) True by simp
    ultimately have "take ?C (drop (n * ?C) (sg_bytes t)) = drop (n * ?C) (sg_bytes t)" by simp
    then show ?thesis using rd True remove_inv [OF e] by (simp add: remove_get(2))
  next
    case False
    from Cons.IH [OF e get _ _ False, of "Suc n"] Cons.prems(3,4) obtain s' chunks where
      "pull_chunks ?s i (Suc n) nows = Some (s', chunks)" "concat chunks = drop (Suc n * ?C) (sg_bytes t)"
      "bt_get (so_transfers s') (i, None) = None" "staging_inv sha s'" by auto
    moreover have "take ?C (drop (n * ?C) (sg_bytes t)) @ drop (Suc n * ?C) (sg_bytes t) = drop (n * ?C) (sg_bytes t)"
      by (metis add.commute append_take_drop_id drop_drop mult_Suc)
    ultimately show ?thesis using rd False by simp
  qed
qed simp

section \<open>Retries\<close>

lemma replay_appended:
  assumes ends: "ends_ok t" and few: "length (sg_chunk_ends t) + 1 < 2 ^ 32" and n: "sg_next_chunk_index t = n"
  shows "n < n + 1" and "replay_chunk now ((appended t chunk)\<lparr>sg_complete := b\<rparr>) n chunk
      = Inr (accepted_reply now ((appended t chunk)\<lparr>sg_complete := b\<rparr>))"
proof -
  let ?ends = "sg_chunk_ends t" and ?len = "length (sg_bytes t)"
  have u: "unat n = length ?ends" using ends few n unat_of_nat_small [where 'a = 32, of "length ?ends"] by (auto simp: ends_ok_def)
  have "unat (n + 1) = unat n + 1" using few u by (simp add: unat_word_ariths)
  then show "n < n + 1" by (simp add: word_less_nat_alt)
  have "(if length ?ends = 0 then 0 else (?ends @ [?len + length chunk]) ! (length ?ends - 1)) = ?len"
    using ends by (cases ?ends rule: rev_cases) (auto simp: ends_ok_def nth_append)
  moreover have "byte_range (sg_bytes t @ chunk) ?len (?len + length chunk) = Some chunk" by (simp add: byte_range_def)
  ultimately show "replay_chunk now ((appended t chunk)\<lparr>sg_complete := b\<rparr>) n chunk
      = Inr (accepted_reply now ((appended t chunk)\<lparr>sg_complete := b\<rparr>))"
    by (auto simp: replay_chunk_def u Let_def split: if_splits)
qed

text \<open>An accepted chunk can be replayed.\<close>

definition replayable :: "bulk_ref \<Rightarrow> digest32 option \<Rightarrow> staged_transfer \<Rightarrow> u32 \<Rightarrow> bytes \<Rightarrow> bool" where
  "replayable r owner t n chunk \<longleftrightarrow> carries r owner t \<and>
     (length (sg_chunk_ends t) < 2 ^ 32 \<longrightarrow> n < sg_next_chunk_index t
        \<and> (\<forall>now. replay_chunk now t n chunk = Inr (accepted_reply now t)))"

lemma write_entry_Inr:
  assumes ok: "entry_ok sha key t" and chunk: "length chunk \<le> STAGED_CHUNK_BYTES" and t: "bt_get (so_transfers s) key = Some t"
    and w: "write_entry sha now s key t r owner n chunk = (s1, Inr reply)"
  shows "\<exists>t1. bt_get (so_transfers s1) key = Some t1 \<and> reply = accepted_reply now t1 \<and> replayable r owner t1 n chunk"
proof -
  have car: "carries r owner t" using w unfolding write_entry_eq [OF ok chunk] by (auto simp: carries_def split: if_splits)
  show ?thesis
  proof (cases "n < sg_next_chunk_index t")
    case True
    then have "s1 = s" "replay_chunk now t n chunk = Inr reply" using w car unfolding write_entry_eq [OF ok chunk] by (auto simp: carries_def)
    moreover from this have "replay_chunk now' t n chunk = Inr (accepted_reply now' t)" "reply = accepted_reply now t" for now'
      by (auto simp: replay_chunk_def Let_def split: if_splits)
    ultimately show ?thesis using t car True by (auto simp: replayable_def)
  next
    case False
    define b where "b = (length (sg_bytes t) + length chunk = unat (sg_total_length t))"
    have same: "(appended t chunk)\<lparr>sg_complete := False\<rparr> = appended t chunk" if "\<not> sg_complete t"
      using that by (simp add: appended_def)
    have b: "bt_get (so_transfers s1) key = Some ((appended t chunk)\<lparr>sg_complete := b\<rparr>)"
        "reply = accepted_reply now ((appended t chunk)\<lparr>sg_complete := b\<rparr>)" and n: "sg_next_chunk_index t = n"
      using w False same car unfolding write_entry_eq [OF ok chunk] b_def
      by (auto simp: with_entry_def carries_def accepted_reply_def split: if_splits)
    have "ends_ok t" using ok by (simp add: entry_ok_def)
    note r = replay_appended [OF this _ n]
    have "replayable r owner ((appended t chunk)\<lparr>sg_complete := b\<rparr>) n chunk"
      using r car n by (auto simp: replayable_def carries_def)
    with b show ?thesis by blast
  qed
qed

lemma write_Inr:
  assumes inv: "staging_inv sha s" and w: "write_chunk_with_owner sha now s r owner quota n chunk = (s1, Inr reply)"
  shows "admitted_ref r owner \<and> length chunk \<le> STAGED_CHUNK_BYTES \<and>
    (\<exists>t1. bt_get (so_transfers s1) (rf_transfer_id r, owner) = Some t1 \<and> reply = accepted_reply now t1 \<and> replayable r owner t1 n chunk)"
proof -
  let ?s = "fst (staging_expire s now)" and ?key = "(rf_transfer_id r, owner)" and ?t = "fresh_transfer now r owner quota"
  have gate: "owner_gate (rf_mime_class r) owner = Inr ()" "length chunk \<le> STAGED_CHUNK_BYTES"
      "\<not> rf_total_length r > class_max_total_length (rf_mime_class r)"
    using w by (auto simp: write_chunk_with_owner_def split: sum.splits if_splits)
  have e: "staging_inv sha ?s" using inv by (rule staging_expire_inv)
  show ?thesis
  proof (cases "bt_get (so_transfers ?s) ?key")
    case None
    let ?s' = "with_entry (?s\<lparr>so_staged_bytes := so_staged_bytes ?s + rf_total_length r\<rparr>) ?key ?t"
    have "write_entry sha now ?s' ?key ?t r owner n chunk = (s1, Inr reply)"
      using w gate None by (auto simp: write_chunk_with_owner_def staged_key_new_def Let_def with_entry_def split: sum.splits if_splits)
    from write_entry_Inr [OF _ gate(2) _ this] fresh_ok [OF gate(1,3), of sha "rf_transfer_id r" now quota] gate
    show ?thesis by (simp add: staged_key_new_def with_entry_def admitted_ref_def not_less)
  next
    case (Some t)
    then have "write_entry sha now ?s ?key t r owner n chunk = (s1, Inr reply)"
      using w gate by (simp add: write_chunk_with_owner_def staged_key_new_def Let_def)
    from write_entry_Inr [OF inv_entry_ok [OF e Some] gate(2) Some this] gate show ?thesis by (simp add: admitted_ref_def not_less)
  qed
qed

section \<open>Properties\<close>

text \<open>
  C31. Quotas hold. Over any sequence of calls at any times no call panics, the reserved bytes are exactly
  the lengths of the staged transfers, the store and every client stay within their limits of transfers and
  bytes, and no transfer holds more bytes than it reserved.
\<close>

theorem staging_within_quotas:
  assumes "list_all (\<lambda>e. fits (snd e)) calls"
  shows "\<exists>s. staging_run sha calls = Some s \<and> unat (so_staged_bytes s) = reserved s
     \<and> length (so_transfers s) \<le> MAX_STAGED_TRANSFERS \<and> so_staged_bytes s \<le> MAX_STAGED_BYTES
     \<and> client_transfers q s \<le> MAX_STAGED_TRANSFERS_PER_CLIENT \<and> client_bytes q s \<le> unat MAX_STAGED_BYTES_PER_CLIENT
     \<and> list_all (\<lambda>e. length (sg_bytes (snd e)) \<le> unat (sg_total_length (snd e))) (so_transfers s)"
proof (rule staging_run_inv [OF assms, of sha])
  fix s
  assume r: "staging_run sha calls = Some s" and inv: "staging_inv sha s"
  have "length (sg_bytes t) \<le> unat (sg_total_length t)" if "(key, t) \<in> set (so_transfers s)" for key t
    using inv that inv_entry_ok [OF inv, of key t] by (auto simp: staging_inv_def bt_get_eq_Some_iff entry_ok_def)
  then have "list_all (\<lambda>e. length (sg_bytes (snd e)) \<le> unat (sg_total_length (snd e))) (so_transfers s)"
    by (auto simp: list_all_iff)
  moreover have "so_staged_bytes s \<le> MAX_STAGED_BYTES" using inv by (simp add: staging_inv_def word_le_nat_alt)
  ultimately show ?thesis using r inv by (simp add: staging_inv_def)
qed

theorem staging_within_quotas_witness:
  "\<exists>s. staging_run (\<lambda>_. 0) [(0, Do_Stage [1, 2] Class_Export 7 9)] = Some s \<and> so_staged_bytes s \<le> MAX_STAGED_BYTES"
  using staging_within_quotas [of "[(0, Do_Stage [1, 2] Class_Export 7 9)]" "\<lambda>_. 0" 9] by auto

text \<open>
  C32. Bodies are handed out exactly. When several references are taken at once, either each body is that of a
  live transfer staged under the caller's owner binding with the announced length and digest, the ids are
  distinct, and exactly these transfers are removed; or nothing is taken and only expired transfers are gone,
  which happens only when some reference has no complete live body of its length, digest and class under that
  owner, or an id is repeated.
\<close>

theorem staging_take_exact:
  assumes "staging_run sha calls = Some s" and "list_all (\<lambda>e. fits (snd e)) calls"
  shows "case take_all_with_owner sha now s refs owner of
      None \<Rightarrow> False
    | Some (s', Inl e) \<Rightarrow> s' = fst (staging_expire s now)
        \<and> \<not> (list_all (\<lambda>r. \<exists>t. holds_body sha (fst (staging_expire s now)) owner r t) refs \<and> distinct (map rf_transfer_id refs))
    | Some (s', Inr bodies) \<Rightarrow>
        map length bodies = map (\<lambda>r. unat (rf_total_length r)) refs \<and> map sha bodies = map rf_sha256 refs
        \<and> map Some bodies = map (\<lambda>r. map_option sg_bytes (bt_get (so_transfers s) (rf_transfer_id r, owner))) refs
        \<and> distinct (map rf_transfer_id refs)
        \<and> (\<forall>key. bt_get (so_transfers s') key = (if key \<in> set (map (\<lambda>r. (rf_transfer_id r, owner)) refs) then None
              else bt_get (so_transfers (fst (staging_expire s now))) key))"
proof -
  have inv: "staging_inv sha s" using staging_run_inv [OF assms(2), of sha] assms(1) by (metis option.inject)
  let ?s = "fst (staging_expire s now)"
  have wf: "bt_wf (so_transfers s)" and e: "staging_inv sha ?s" using inv staging_expire_inv by (auto simp: staging_inv_def)
  obtain s' out where t: "take_all_with_owner sha now s refs owner = Some (s', out)"
    and o: "case out of Inl e \<Rightarrow> s' = ?s
        | Inr bodies \<Rightarrow> (\<forall>r \<in> set refs. \<exists>t. holds_body sha ?s owner r t) \<and> distinct (map rf_transfer_id refs)
            \<and> bodies = map (\<lambda>r. sg_bytes (the (bt_get (so_transfers ?s) (rf_transfer_id r, owner)))) refs
            \<and> (\<forall>j. bt_get (so_transfers s') j
                  = (if j \<in> (\<lambda>r. (rf_transfer_id r, owner)) ` set refs then None else bt_get (so_transfers ?s) j))"
    using take_all_ok [OF inv, of now refs owner] by blast
  show ?thesis
  proof (cases out)
    case (Inl x)
    then show ?thesis using t o take_all_success [OF inv, of refs now owner] by (auto simp: list_all_iff)
  next
    case (Inr bodies)
    note o' = o [unfolded Inr sum.case]
    from o' have held: "\<forall>r \<in> set refs. \<exists>t. holds_body sha ?s owner r t" by (rule conjunct1)
    let ?b = "\<lambda>r. sg_bytes (the (bt_get (so_transfers ?s) (rf_transfer_id r, owner)))"
    have h: "length (?b r) = unat (rf_total_length r) \<and> sha (?b r) = rf_sha256 r
        \<and> Some (?b r) = map_option sg_bytes (bt_get (so_transfers s) (rf_transfer_id r, owner))"
      if "r \<in> set refs" for r
    proof -
      from bspec [OF held that] obtain t where t: "holds_body sha ?s owner r t" by (elim exE)
      then have g: "bt_get (so_transfers ?s) (rf_transfer_id r, owner) = Some t" by (simp add: holds_body_def)
      have "bt_get (so_transfers s) (rf_transfer_id r, owner) = Some t" using g by (simp add: staging_expire_get [OF wf] split: option.splits if_splits)
      moreover have "length (sg_bytes t) = unat (rf_total_length r)" "sha (sg_bytes t) = rf_sha256 r"
        using t inv_entry_ok [OF e g] by (simp_all add: holds_body_def entry_ok_def)
      ultimately show ?thesis using g by simp
    qed
    have "bodies = map ?b refs" using o' by (elim conjE)
    then have "map length bodies = map (\<lambda>r. unat (rf_total_length r)) refs" "map sha bodies = map rf_sha256 refs"
        "map Some bodies = map (\<lambda>r. map_option sg_bytes (bt_get (so_transfers s) (rf_transfer_id r, owner))) refs"
      using h by simp_all
    with t o' show ?thesis unfolding Inr by (elim conjE) simp
  qed
qed

text \<open>A small upload of two chunks.\<close>

definition sample_ref :: bulk_ref where
  "sample_ref = \<lparr>rf_transfer_id = 7, rf_total_length = 3, rf_sha256 = 0, rf_mime_class = Class_Opaque\<rparr>"

lemma sample_staged:
  obtains s t where "staging_run (\<lambda>_. 0) [(0, Do_Stage_Owned [1, 2, 3] 4 7 9)] = Some s"
    "holds_body (\<lambda>_. 0) (fst (staging_expire s 5)) (Some 4) sample_ref t" "sg_bytes t = [1, 2, 3]"
proof -
  let ?t = "staged_entry (\<lambda>_. 0) 0 [1, 2, 3] Class_Opaque (Some 4) 9"
  have e: "fst (staging_expire staging_default 0) = staging_default"
    by (simp add: staging_expire_def staging_default_def Let_def saturating_sub_def)
  have room: "can_reserve staging_default 3 9 = Inr ()"
    by (simp add: can_reserve_def staging_default_def client_reserved_def bt_values_def staging_limits)
  have "bt_get (so_transfers staging_default) (7, Some 4) = None" by (simp add: staging_default_def)
  then obtain s where run: "staging_run (\<lambda>_. 0) [(0, Do_Stage_Owned [1, 2, 3] 4 7 9)] = Some s"
    and s: "s = with_entry (staging_default\<lparr>so_staged_bytes := so_staged_bytes staging_default + 3\<rparr>) (7, Some 4) ?t"
    using room e by (simp add: staging_run_def staging_step_def stage_owned_def stage_eq owner_gate_def Let_def BULK_MAX_TRANSFER_BYTES_def)
  have wf: "bt_wf (so_transfers s)"
    using staging_run_inv [of "[(0, Do_Stage_Owned [1, 2, 3] 4 7 9)]" "\<lambda>_. 0"] run by (auto simp: staging_inv_def)
  have "bt_get (so_transfers s) (7, Some 4) = Some ?t" by (simp add: s with_entry_def)
  then have "bt_get (so_transfers (fst (staging_expire s 5))) (7, Some 4) = Some ?t"
    by (simp add: staging_expire_get [OF wf] is_stale_def staged_entry_def saturating_sub_def STAGED_TRANSFER_TTL_MS_def)
  then have "holds_body (\<lambda>_. 0) (fst (staging_expire s 5)) (Some 4) sample_ref ?t"
    by (simp add: holds_body_def sample_ref_def staged_entry_def owner_gate_def)
  with run show thesis by (rule that) (simp add: staged_entry_def)
qed

theorem staging_take_exact_witness:
  "\<exists>s s'. staging_run (\<lambda>_. 0) [(0, Do_Stage_Owned [1, 2, 3] 4 7 9)] = Some s
     \<and> take_all_with_owner (\<lambda>_. 0) 5 s [sample_ref] (Some 4) = Some (s', Inr [[1, 2, 3]])
     \<and> bt_get (so_transfers s') (7, Some 4) = None"
proof -
  obtain s t where s: "staging_run (\<lambda>_. 0) [(0, Do_Stage_Owned [1, 2, 3] 4 7 9)] = Some s"
    and t: "holds_body (\<lambda>_. 0) (fst (staging_expire s 5)) (Some 4) sample_ref t" "sg_bytes t = [1, 2, 3]" by (rule sample_staged)
  note x = staging_take_exact [OF s, where now = 5 and refs = "[sample_ref]" and owner = "Some 4"]
  have "bt_wf (so_transfers s)"
    using staging_run_inv [of "[(0, Do_Stage_Owned [1, 2, 3] 4 7 9)]" "\<lambda>_. 0"] s by (auto simp: staging_inv_def)
  then have g: "bt_get (so_transfers s) (7, Some 4) = Some t"
    using t(1) by (auto simp: holds_body_def sample_ref_def staging_expire_get split: option.splits if_splits)
  show ?thesis
  proof (cases "take_all_with_owner (\<lambda>_. 0) 5 s [sample_ref] (Some 4)")
    case (Some r)
    then obtain s' out where r: "r = (s', out)" by (cases r)
    then obtain bodies where "out = Inr bodies" using x Some t(1) by (cases out) auto
    with x Some r g t(2) s show ?thesis by (auto simp: sample_ref_def)
  qed (use x in simp)
qed

lemma upload_completes:
  assumes inv: "staging_inv sha s"
    and adm: "admitted_ref r owner" and digest: "rf_sha256 r = sha (concat (map snd cs))"
    and len: "unat (rf_total_length r) = length (concat (map snd cs))"
    and cs: "cs = (start, chunk) # rest" "rest = [] \<or> list_all (\<lambda>c. snd c \<noteq> []) cs" "list_all (\<lambda>c. length (snd c) \<le> STAGED_CHUNK_BYTES) cs"
    and lease: "list_all (\<lambda>now. saturating_sub now start < STAGED_TRANSFER_TTL_MS) (map fst cs)"
    and none: "bt_get (so_transfers (fst (staging_expire s start))) (rf_transfer_id r, owner) = None"
    and room: "can_reserve (fst (staging_expire s start)) (rf_total_length r) quota = Inr ()"
  shows "\<exists>s' t'. push_chunks sha s r owner quota 0 cs = Inr s' \<and> staging_inv sha s' \<and> sg_complete t'
     \<and> sg_bytes t' = concat (map snd cs) \<and> bt_get (so_transfers s') (rf_transfer_id r, owner) = Some t'
     \<and> carries r owner t' \<and> sg_created_ms t' = start"
proof -
  let ?key = "(rf_transfer_id r, owner)"
  have chunk: "length chunk \<le> STAGED_CHUNK_BYTES" "length chunk \<le> unat (rf_total_length r)" using cs(1,3) len by simp_all
  have all: "length chunk = unat (rf_total_length r) \<longleftrightarrow> rest = []"
    using cs(1,2) len by (cases rest) (auto simp: list_all_iff)
  then have "sha chunk = rf_sha256 r" if "length chunk = unat (rf_total_length r)"
    using that digest cs(1) by simp
  from first_chunk [OF inv adm chunk(1) none room chunk(2) this]
  obtain s1 reply where w: "write_chunk_with_owner sha start s r owner quota 0 chunk = (s1, Inr reply)"
    "bt_get (so_transfers s1) ?key = Some ((appended (fresh_transfer start r owner quota) chunk)\<lparr>sg_complete := (rest = [])\<rparr>)"
    using all by auto
  let ?t = "(appended (fresh_transfer start r owner quota) chunk)\<lparr>sg_complete := (rest = [])\<rparr>"
  have inv1: "staging_inv sha s1" using write_inv [OF inv, of start r owner quota 0 chunk] w(1) by simp
  have t: "carries r owner ?t" "sg_next_chunk_index ?t = of_nat 1" "sg_bytes ?t = chunk" "sg_created_ms ?t = start"
    by (simp_all add: carries_def fresh_transfer_def)
  have stale: "\<not> is_stale now u" if "now \<in> set (map fst cs)" "sg_created_ms u = start" for now u
    using lease that by (auto simp: is_stale_def list_all_iff not_le)
  show ?thesis
  proof (cases "rest = []")
    case True
    then show ?thesis using w inv1 t cs(1) by simp
  next
    case False
    have "\<not> is_stale now ?t" if "(now, c) \<in> set rest" for now c
      using that by (intro stale [OF _ t(4)]) (force simp: cs(1))
    moreover have "list_all (\<lambda>(now, c). c \<noteq> [] \<and> length c \<le> STAGED_CHUNK_BYTES) rest"
      using cs False by (auto simp: list_all_iff)
    ultimately have "list_all (\<lambda>(now, c). c \<noteq> [] \<and> length c \<le> STAGED_CHUNK_BYTES \<and> \<not> is_stale now ?t) rest"
      by (auto simp: list_all_iff)
    from push_rest [OF inv1 adm digest [symmetric] len w(2) t(1) _ t(2) _ False this, of quota] False t(3,4)
    show ?thesis using w(1) cs(1) by simp
  qed
qed

text \<open>
  C33. Uploads come back. A peer that pushes the chunks of some data in order, under an owner and a reference
  for that data, into a store with room for it, has every chunk accepted; taking the reference before the
  lease ends gives exactly the data and frees the transfer.
\<close>

theorem staging_upload_roundtrip:
  assumes "staging_run sha calls = Some s" and "list_all (\<lambda>e. fits (snd e)) calls"
    and adm: "admitted_ref r owner" and digest: "rf_sha256 r = sha (concat (map snd cs))"
    and len: "unat (rf_total_length r) = length (concat (map snd cs))"
    and cs: "cs = (start, chunk) # rest" "rest = [] \<or> list_all (\<lambda>c. snd c \<noteq> []) cs" "list_all (\<lambda>c. length (snd c) \<le> STAGED_CHUNK_BYTES) cs"
    and lease: "list_all (\<lambda>now. saturating_sub now start < STAGED_TRANSFER_TTL_MS) (later # map fst cs)"
    and none: "bt_get (so_transfers (fst (staging_expire s start))) (rf_transfer_id r, owner) = None"
    and room: "can_reserve (fst (staging_expire s start)) (rf_total_length r) quota = Inr ()"
  shows "\<exists>s1 s2. push_chunks sha s r owner quota 0 cs = Inr s1
     \<and> take_all_with_owner sha later s1 [r] owner = Some (s2, Inr [concat (map snd cs)])
     \<and> bt_get (so_transfers s2) (rf_transfer_id r, owner) = None"
proof -
  let ?data = "concat (map snd cs)" and ?key = "(rf_transfer_id r, owner)"
  have inv: "staging_inv sha s" using staging_run_inv [OF assms(2), of sha] assms(1) by (metis option.inject)
  have "\<exists>s' t'. push_chunks sha s r owner quota 0 cs = Inr s' \<and> staging_inv sha s' \<and> sg_complete t' \<and> sg_bytes t' = ?data
      \<and> bt_get (so_transfers s') ?key = Some t' \<and> carries r owner t' \<and> sg_created_ms t' = start"
    using lease by (intro upload_completes [where sha = sha, OF inv adm digest len cs _ none room]) simp
  then obtain s' t' where p: "push_chunks sha s r owner quota 0 cs = Inr s'" "staging_inv sha s'" "sg_complete t'" "sg_bytes t' = ?data"
    "bt_get (so_transfers s') ?key = Some t'" "carries r owner t'" "sg_created_ms t' = start" by blast
  have "bt_wf (so_transfers s')" using p(2) by (simp add: staging_inv_def)
  then have g: "bt_get (so_transfers (fst (staging_expire s' later))) ?key = Some t'"
    using p(5,7) lease by (simp add: staging_expire_get is_stale_def not_le)
  then have "holds_body sha (fst (staging_expire s' later)) owner r t'"
    using p(3,4,6) adm digest by (simp add: holds_body_def carries_def admitted_ref_def)
  with take_all_success [OF p(2), of "[r]" later owner] g p(1,4) show ?thesis by auto
qed

theorem staging_upload_roundtrip_witness:
  "\<exists>s1 s2. push_chunks (\<lambda>_. 0) staging_default sample_ref (Some 4) 9 0 [(10, [1, 2]), (20, [3])] = Inr s1
     \<and> take_all_with_owner (\<lambda>_. 0) 30 s1 [sample_ref] (Some 4) = Some (s2, Inr [[1, 2, 3]])"
proof -
  let ?cs = "[(10 :: u64, [1, 2 :: u8]), (20, [3])]"
  have size: "STAGED_CHUNK_BYTES = 196608" by (simp add: STAGED_CHUNK_BYTES_def MAX_ATTACHMENT_CHUNK_BASE64_BYTES_def)
  have e: "fst (staging_expire staging_default 10) = staging_default"
    by (simp add: staging_expire_def staging_default_def Let_def saturating_sub_def)
  have run: "staging_run (\<lambda>_. 0) [] = Some staging_default" "list_all (\<lambda>e. fits (snd e)) []" by (simp_all add: staging_run_def)
  have ref: "admitted_ref sample_ref (Some 4)" "rf_sha256 sample_ref = (\<lambda>_. 0) (concat (map snd ?cs))"
      "unat (rf_total_length sample_ref) = length (concat (map snd ?cs))"
    by (simp_all add: admitted_ref_def sample_ref_def owner_gate_def BULK_MAX_TRANSFER_BYTES_def)
  have chunks: "[(20, [3])] = [] \<or> list_all (\<lambda>c. snd c \<noteq> []) ?cs" "list_all (\<lambda>c. length (snd c) \<le> STAGED_CHUNK_BYTES) ?cs"
    by (simp_all add: size)
  have lease: "list_all (\<lambda>now. saturating_sub now 10 < STAGED_TRANSFER_TTL_MS) (30 # map fst ?cs)"
    by (simp add: saturating_sub_def STAGED_TRANSFER_TTL_MS_def)
  have none: "bt_get (so_transfers (fst (staging_expire staging_default 10))) (rf_transfer_id sample_ref, Some 4) = None"
    unfolding e by (simp add: staging_default_def bt_get_def)
  have room: "can_reserve (fst (staging_expire staging_default 10)) (rf_total_length sample_ref) 9 = Inr ()"
    unfolding e by (simp add: can_reserve_def staging_default_def client_reserved_def bt_values_def staging_limits sample_ref_def)
  from staging_upload_roundtrip [OF run ref refl chunks lease none room] show ?thesis by auto
qed

text \<open>
  C34. Exports come back. Bytes that the daemon staged under a class other than opaque can be pulled, chunk
  by chunk in order and before the lease ends, as exactly these bytes; the last chunk frees the transfer.
\<close>

theorem staging_export_roundtrip:
  assumes "staging_run sha calls = Some s" and "list_all (\<lambda>e. fits (snd e)) calls"
    and st: "stage sha start s bs c i quota = (s1, Inr r)" and "length bs < 2 ^ 63"
    and lease: "list_all (\<lambda>now. saturating_sub now start < STAGED_TRANSFER_TTL_MS) nows"
    and n: "length nows = unat (chunk_count (rf_total_length r))"
  shows "\<exists>s2 chunks. pull_chunks s1 i 0 nows = Some (s2, chunks) \<and> concat chunks = bs
     \<and> bt_get (so_transfers s2) (i, None) = None"
proof -
  have inv: "staging_inv sha s" using staging_run_inv [OF assms(2), of sha] assms(1) by (metis option.inject)
  have inv1: "staging_inv sha s1" using stage_inv [OF inv, of bs start c i None quota] assms(3,4) by (simp add: stage_def)
  let ?t = "staged_entry sha start bs c None quota"
  have g: "bt_get (so_transfers s1) (i, None) = Some ?t" and r: "rf_total_length r = of_nat (length bs)"
    using st by (auto simp: stage_def stage_eq Let_def with_entry_def split: sum.splits if_splits)
  have t: "sg_complete ?t" "sg_bytes ?t = bs" "sg_total_length ?t = rf_total_length r" "sg_created_ms ?t = start"
    by (simp_all add: staged_entry_def r)
  have stale: "list_all (\<lambda>now. \<not> is_stale now ?t) nows" using lease by (simp add: is_stale_def t(4) list_all_iff not_le)
  have ne: "nows \<noteq> []" using n chunk_count_bounds(1) [OF entry_total_le [OF inv_entry_ok [OF inv1 g]]] t(3) by auto
  from pull_rest [OF inv1 g t(1) stale _ ne, of 0] n t(2,3) show ?thesis by auto
qed

theorem staging_export_roundtrip_witness:
  "\<exists>s1 r s2 chunks. stage (\<lambda>_. 0) 10 staging_default [1, 2, 3] Class_Export 7 9 = (s1, Inr r)
     \<and> pull_chunks s1 7 0 [20] = Some (s2, chunks) \<and> concat chunks = [1, 2, 3]"
proof -
  have e: "fst (staging_expire staging_default 10) = staging_default"
    by (simp add: staging_expire_def staging_default_def Let_def saturating_sub_def)
  have room: "can_reserve staging_default 3 9 = Inr ()"
    by (simp add: can_reserve_def staging_default_def client_reserved_def bt_values_def staging_limits)
  obtain s1 r where st: "stage (\<lambda>_. 0) 10 staging_default [1, 2, 3] Class_Export 7 9 = (s1, Inr r)" and r: "rf_total_length r = 3"
    using room e by (auto simp: stage_def stage_eq owner_gate_def Let_def staging_default_def BULK_MAX_TRANSFER_BYTES_def)
  have "unat (chunk_count 3) = 1"
    by (simp add: chunk_count_def Let_def STAGED_CHUNK_BYTES_def MAX_ATTACHMENT_CHUNK_BASE64_BYTES_def unsigned_ucast_eq take_bit_eq_mod)
  with staging_export_roundtrip [of "\<lambda>_. 0" "[]", OF _ _ st, of "[20]"] st r show ?thesis
    by (auto simp: staging_run_def saturating_sub_def STAGED_TRANSFER_TTL_MS_def)
qed

text \<open>
  C35. A retried chunk changes nothing. When an accepted chunk is sent again before the lease ends, the store
  loses at most expired transfers and the reply tells the same progress, whichever client pays for it.
\<close>

theorem staging_retry_idempotent:
  assumes "staging_run sha calls = Some s" and "list_all (\<lambda>e. fits (snd e)) calls"
    and w: "write_chunk_with_owner sha now s r owner quota n chunk = (s1, Inr reply)"
    and t: "bt_get (so_transfers s1) (rf_transfer_id r, owner) = Some t" "\<not> is_stale later t" "length (sg_chunk_ends t) < 2 ^ 32"
  shows "write_chunk_with_owner sha later s1 r owner quota' n chunk =
    (fst (staging_expire s1 later), Inr (reply\<lparr>ca_lease_remaining_ms := lease_remaining_ms (sg_created_ms t) later\<rparr>))"
proof -
  have inv: "staging_inv sha s" using staging_run_inv [OF assms(2), of sha] assms(1) by (metis option.inject)
  have inv1: "staging_inv sha s1" using write_inv [OF inv, of now r owner quota n chunk] w by simp
  have a: "admitted_ref r owner" "length chunk \<le> STAGED_CHUNK_BYTES" "reply = accepted_reply now t" "replayable r owner t n chunk"
    using write_Inr [OF inv w] t(1) by auto
  have "write_entry sha later (fst (staging_expire s1 later)) (rf_transfer_id r, owner) t r owner n chunk
      = (fst (staging_expire s1 later), Inr (accepted_reply later t))"
    using a(4) t(3) unfolding write_entry_eq [OF inv_entry_ok [OF inv1 t(1)] a(2)] by (simp add: replayable_def carries_def)
  then show ?thesis
    unfolding write_to_entry [OF inv1 a(1,2) t(1,2)] by (simp add: a(3) accepted_reply_def)
qed

theorem staging_retry_idempotent_witness:
  "\<exists>s1 reply. write_chunk_with_owner (\<lambda>_. 0) 10 staging_default sample_ref (Some 4) 9 0 [1, 2] = (s1, Inr reply)
     \<and> (\<exists>s2 reply'. write_chunk_with_owner (\<lambda>_. 0) 20 s1 sample_ref (Some 4) 9 0 [1, 2] = (s2, Inr reply')
        \<and> ca_received_bytes reply' = ca_received_bytes reply)"
proof -
  have size: "STAGED_CHUNK_BYTES = 196608" by (simp add: STAGED_CHUNK_BYTES_def MAX_ATTACHMENT_CHUNK_BASE64_BYTES_def)
  have e: "fst (staging_expire staging_default 10) = staging_default"
    by (simp add: staging_expire_def staging_default_def Let_def saturating_sub_def)
  have room: "can_reserve (fst (staging_expire staging_default 10)) (rf_total_length sample_ref) 9 = Inr ()"
    unfolding e by (simp add: can_reserve_def staging_default_def client_reserved_def bt_values_def staging_limits sample_ref_def)
  have none: "bt_get (so_transfers (fst (staging_expire staging_default 10))) (rf_transfer_id sample_ref, Some 4) = None"
    unfolding e by (simp add: staging_default_def bt_get_def)
  have adm: "admitted_ref sample_ref (Some 4)" by (simp add: admitted_ref_def sample_ref_def owner_gate_def BULK_MAX_TRANSFER_BYTES_def)
  from first_chunk [OF staging_inv_default adm _ none room, where chunk = "[1, 2]" and sha = "\<lambda>_. 0"]
  obtain s1 reply where w: "write_chunk_with_owner (\<lambda>_. 0) 10 staging_default sample_ref (Some 4) 9 0 [1, 2] = (s1, Inr reply)"
    and t: "bt_get (so_transfers s1) (rf_transfer_id sample_ref, Some 4)
      = Some ((appended (fresh_transfer 10 sample_ref (Some 4) 9) [1, 2])\<lparr>sg_complete := False\<rparr>)"
    by (auto simp: size sample_ref_def)
  let ?t = "(appended (fresh_transfer 10 sample_ref (Some 4) 9) [1, 2])\<lparr>sg_complete := False\<rparr>"
  have "\<not> is_stale 20 ?t" "length (sg_chunk_ends ?t) < 2 ^ 32"
    by (simp_all add: is_stale_def fresh_transfer_def saturating_sub_def STAGED_TRANSFER_TTL_MS_def)
  from staging_retry_idempotent [of "\<lambda>_. 0" "[]", OF _ _ w t this, of 9] w show ?thesis
    by (auto simp: staging_run_def)
qed

section \<open>Boundary behaviour\<close>

text \<open>The store bounds bytes and transfers; the number of chunks of a transfer is not bounded: empty chunks are accepted forever.\<close>

lemma empty_chunk_accepted:
  assumes inv: "staging_inv sha s" and adm: "admitted_ref r owner" and t: "bt_get (so_transfers s) (rf_transfer_id r, owner) = Some t"
    "\<not> is_stale now t" "carries r owner t" "sg_bytes t = []" "\<not> sg_complete t" and pos: "0 < unat (rf_total_length r)"
  shows "\<exists>s' reply. write_chunk_with_owner sha now s r owner quota (sg_next_chunk_index t) [] = (s', Inr reply)
     \<and> bt_get (so_transfers s') (rf_transfer_id r, owner) = Some (appended t [])"
proof -
  have "(appended t [])\<lparr>sg_complete := False\<rparr> = appended t []" using t(5) by (simp add: appended_def)
  with append_chunk [OF inv adm _ t(1-3,5) refl, of "[]" quota] t(4) pos show ?thesis by simp
qed

lemma empty_chunks_unbounded:
  assumes "staging_inv sha s" and "admitted_ref r owner" and "bt_get (so_transfers s) (rf_transfer_id r, owner) = Some t"
    and "\<not> is_stale now t" and "carries r owner t" and "sg_bytes t = []" and "\<not> sg_complete t"
    and "sg_next_chunk_index t = of_nat n" and "0 < unat (rf_total_length r)"
  shows "\<exists>s' t'. push_chunks sha s r owner quota n (replicate k (now, [])) = Inr s'
     \<and> bt_get (so_transfers s') (rf_transfer_id r, owner) = Some t' \<and> length (sg_chunk_ends t') = length (sg_chunk_ends t) + k
     \<and> sg_bytes t' = []"
  using assms(1,3-8)
proof (induction k arbitrary: s t n)
  case (Suc k)
  from empty_chunk_accepted [OF Suc.prems(1) assms(2) Suc.prems(2-6) assms(9), of quota]
  obtain s1 reply where w: "write_chunk_with_owner sha now s r owner quota (of_nat n) [] = (s1, Inr reply)"
    "bt_get (so_transfers s1) (rf_transfer_id r, owner) = Some (appended t [])" using Suc.prems(7) by auto
  have inv1: "staging_inv sha s1" using write_inv [OF Suc.prems(1), of now r owner quota "of_nat n" "[]"] w(1) by simp
  have "\<exists>s' t'. push_chunks sha s1 r owner quota (Suc n) (replicate k (now, [])) = Inr s'
      \<and> bt_get (so_transfers s') (rf_transfer_id r, owner) = Some t' \<and> length (sg_chunk_ends t') = length (sg_chunk_ends (appended t [])) + k
      \<and> sg_bytes t' = []"
    using Suc.prems(3-7) by (intro Suc.IH [OF inv1 w(2)]) (simp_all add: is_stale_def)
  then show ?case using w(1) by simp
qed simp

text \<open>Staging under the all-zero id fails after the bytes have been reserved, and no reference is returned to free them.\<close>

lemma stage_zero_id_keeps_reservation:
  assumes "stage sha now s bs c 0 quota = (s1, out)" and "c \<noteq> Class_Opaque" and "length bs < 2 ^ 63"
    and "\<not> (of_nat (length bs) :: u64) > class_max_total_length c"
    and "bt_get (so_transfers (fst (staging_expire s now))) (0, None) = None"
    and "can_reserve (fst (staging_expire s now)) (of_nat (length bs)) quota = Inr ()"
  shows "out = Inl UnknownTransfer \<and> bt_get (so_transfers s1) (0, None) = Some (staged_entry sha now bs c None quota)"
  using assms by (cases c) (auto simp: stage_def stage_eq owner_gate_def Let_def with_entry_def)

end
