(* ===== verification/Session_Continuity.thy ===== *)
theory Session_Continuity
  imports Wire_Scalar "HOL-Library.Multiset" "HOL-Library.Char_ord" "HOL-Library.List_Lexorder"
begin

text \<open>
  Session continuity (\<open>crates/cockpit-proto/src/remote_session_continuity.rs\<close>): replay pages, the
  recovery and revocation tables of pending operations, connection leases and refresh authorizations, the
  binary control event with its 98-byte header, the no-widening comparison of a refresh, and delivery
  deduplication.

  Texts are byte strings with the lexicographic order of Rust. An \<open>i64\<close> is a 64-bit word read through
  \<open>sint\<close>; its subtraction wraps, as in a release build. SHA-256 is the parameter \<open>sha\<close>. JSON and JWS
  layers around the payloads are outside this file.

  Shown here: the control event codec is exact; an accepted lease has the promised shape and lifetime;
  a chain of refreshes never widens authority as long as a digest determines its ceiling, and can add a
  child when it does not; a delivery is sent once unless it is forgotten.
\<close>

section \<open>Definitions\<close>

definition REMOTE_SESSION_CONTINUITY_SCHEMA_VERSION :: u8 where "REMOTE_SESSION_CONTINUITY_SCHEMA_VERSION = 1"

subsection \<open>Replay pages\<close>

record outbox_event =
  oe_event_seq :: string
  oe_delivery_id :: string
  oe_kind :: string
  oe_canonical_payload :: bytes

definition REMOTE_REPLAY_MAX_EVENTS_PER_PAGE :: nat where "REMOTE_REPLAY_MAX_EVENTS_PER_PAGE = 256"
definition REMOTE_REPLAY_MAX_BYTES_PER_PAGE :: nat where "REMOTE_REPLAY_MAX_BYTES_PER_PAGE = 2 * 1024 * 1024"

datatype replay_page_error = TooManyEvents | TooManyBytes

definition validate_replay_page :: "outbox_event list \<Rightarrow> replay_page_error + unit" where
  "validate_replay_page events =
     (if length events > REMOTE_REPLAY_MAX_EVENTS_PER_PAGE then Inl TooManyEvents
      else if sum_list (map (\<lambda>e. length (oe_canonical_payload e)) events) > REMOTE_REPLAY_MAX_BYTES_PER_PAGE
      then Inl TooManyBytes else Inr ())"

subsection \<open>Operation recovery and revocation\<close>

datatype operation_status = Op_Committed | Op_Rejected | Op_Reserved | Op_OutcomeUnknown | Op_NotFound

datatype recovery_action =
    ReturnCommittedOutcome
  | ReturnRejectedOutcome
  | ReconcileReserved
  | OutcomeUnknownSafeActions
  | ResubmitIfClassPermitsRetry

datatype operation_class = ReadOnly | TransactionalMutation | IdempotentAdapterMutation | NonrepeatableMutation

fun operation_recovery_action :: "operation_status \<Rightarrow> operation_class \<Rightarrow> recovery_action" where
  "operation_recovery_action Op_Committed c = ReturnCommittedOutcome"
| "operation_recovery_action Op_Rejected c = ReturnRejectedOutcome"
| "operation_recovery_action Op_Reserved c = ReconcileReserved"
| "operation_recovery_action Op_OutcomeUnknown c = OutcomeUnknownSafeActions"
| "operation_recovery_action Op_NotFound c =
     (case c of
        TransactionalMutation \<Rightarrow> ResubmitIfClassPermitsRetry
      | IdempotentAdapterMutation \<Rightarrow> ResubmitIfClassPermitsRetry
      | NonrepeatableMutation \<Rightarrow> ResubmitIfClassPermitsRetry
      | ReadOnly \<Rightarrow> ResubmitIfClassPermitsRetry)"

fun class_permits_retry :: "operation_class \<Rightarrow> bool" where
  "class_permits_retry ReadOnly = True"
| "class_permits_retry IdempotentAdapterMutation = True"
| "class_permits_retry TransactionalMutation = False"
| "class_permits_retry NonrepeatableMutation = False"

datatype revocation_disposition =
    ContinueRecordedSnapshot
  | CancelBeforeApply
  | ReconcileNamedDurableResultThenFinalize
  | CancelBeforeDispatch
  | Disp_OutcomeUnknown
  | CancelAtNextYieldAndReauthorize

datatype long_running = LR_Continue | LR_Cancel

definition revocation_disposition_for ::
    "operation_class \<Rightarrow> bool \<Rightarrow> bool \<Rightarrow> revocation_disposition \<times> long_running" where
  "revocation_disposition_for c already_reserved already_dispatched =
     (case c of
        TransactionalMutation \<Rightarrow>
          if already_reserved then (ContinueRecordedSnapshot, LR_Continue) else (ContinueRecordedSnapshot, LR_Cancel)
      | IdempotentAdapterMutation \<Rightarrow>
          if \<not> already_dispatched then (CancelBeforeApply, LR_Cancel)
          else (ReconcileNamedDurableResultThenFinalize, LR_Cancel)
      | NonrepeatableMutation \<Rightarrow>
          if \<not> already_dispatched then (CancelBeforeDispatch, LR_Cancel) else (Disp_OutcomeUnknown, LR_Cancel)
      | ReadOnly \<Rightarrow> (CancelAtNextYieldAndReauthorize, LR_Cancel))"

datatype tag_column_error = MissingClass | MissingDisposition | MissingBoth

definition validate_tag_has_both_columns ::
    "operation_class option \<Rightarrow> revocation_disposition option \<Rightarrow> tag_column_error + unit" where
  "validate_tag_has_both_columns c d =
     (case (c, d) of
        (Some _, Some _) \<Rightarrow> Inr ()
      | (None, Some _) \<Rightarrow> Inl MissingClass
      | (Some _, None) \<Rightarrow> Inl MissingDisposition
      | (None, None) \<Rightarrow> Inl MissingBoth)"

subsection \<open>Connection leases\<close>

definition REMOTE_CONNECTION_LEASE_MAX_BYTES :: nat where "REMOTE_CONNECTION_LEASE_MAX_BYTES = 16384"
definition REMOTE_CONNECTION_LEASE_VALID_SECONDS :: u64 where "REMOTE_CONNECTION_LEASE_VALID_SECONDS = 300"

datatype lease_lifecycle = Child_Current | Child_Draining
datatype lease_transport = Lease_WebRtc | Lease_WebSocket

record lease_child =
  lc_child_attempt_id :: string
  lc_transport_epoch :: string
  lc_transport :: lease_transport
  lc_lifecycle :: lease_lifecycle
  lc_final_proof_set_digest :: string

record lease_payload =
  lp_schema_version :: u8
  lp_iss :: string
  lp_aud :: string
  lp_lease_id :: string
  lp_lease_generation :: string
  lp_refresh_request_id :: string
  lp_refresh_authorization_digest :: string
  lp_tenant_id :: string
  lp_account_id :: string
  lp_client_device_id :: string
  lp_client_device_generation :: string
  lp_daemon_instance_id :: string
  lp_daemon_certificate_generation :: string
  lp_logical_attachment_id :: string
  lp_service_version :: string
  lp_service_policy_digest :: string
  lp_policy_epoch :: string
  lp_policy_digest :: string
  lp_authority_epoch :: string
  lp_permission_ceiling_digest :: string
  lp_daemon_local_policy_digest :: string
  lp_active_children :: "lease_child list"
  lp_tenant_authorization_statement_digest :: "string option"
  lp_tenant_authority_status_digest :: "string option"
  lp_iat :: string
  lp_valid_until :: string

datatype lease_error =
    Lease_SchemaVersion
  | Lease_Audience
  | Lease_TenantMatrixOneNull
  | Lease_ChildrenNotSorted
  | Lease_TooManyCurrentWebRtc
  | Lease_TooManyCurrentWebSocket
  | Lease_TooManyDraining
  | Lease_TooManyChildren
  | Lease_ThreeChildrenRequireDraining
  | Lease_ValidityDuration
  | Lease_Expired
  | Lease_TimeParse
  | Lease_JwsTooLarge

text \<open>The loop over the children that compares each id with the one before.\<close>

fun children_sorted :: "string option \<Rightarrow> lease_child list \<Rightarrow> bool" where
  "children_sorted prev [] = True"
| "children_sorted prev (c # cs) =
     ((case prev of Some p \<Rightarrow> \<not> lc_child_attempt_id c \<le> p | None \<Rightarrow> True)
      \<and> children_sorted (Some (lc_child_attempt_id c)) cs)"

definition tenant_matrix_ok :: "string option \<Rightarrow> string option \<Rightarrow> bool" where
  "tenant_matrix_ok statement status =
     (case (statement, status) of
        (None, None) \<Rightarrow> True
      | (Some s, Some st) \<Rightarrow> s \<noteq> [] \<and> st \<noteq> []
      | _ \<Rightarrow> False)"

definition count_current :: "lease_transport \<Rightarrow> lease_child list \<Rightarrow> nat" where
  "count_current tr cs = length (filter (\<lambda>c. lc_lifecycle c = Child_Current \<and> lc_transport c = tr) cs)"

definition count_draining :: "lease_child list \<Rightarrow> nat" where
  "count_draining cs = length (filter (\<lambda>c. lc_lifecycle c = Child_Draining) cs)"

definition lease_validate :: "lease_payload \<Rightarrow> u64 \<Rightarrow> lease_error + unit" where
  "lease_validate p now =
     (let children = lp_active_children p; draining_count = count_draining children in
      if lp_schema_version p \<noteq> REMOTE_SESSION_CONTINUITY_SCHEMA_VERSION then Inl Lease_SchemaVersion
      else if lp_aud p \<noteq> ''flycockpit-remote-connection-lease-v1'' then Inl Lease_Audience
      else if \<not> tenant_matrix_ok (lp_tenant_authorization_statement_digest p) (lp_tenant_authority_status_digest p)
      then Inl Lease_TenantMatrixOneNull
      else if \<not> children_sorted None children then Inl Lease_ChildrenNotSorted
      else if length children > 3 then Inl Lease_TooManyChildren
      else if count_current Lease_WebRtc children > 1 then Inl Lease_TooManyCurrentWebRtc
      else if count_current Lease_WebSocket children > 1 then Inl Lease_TooManyCurrentWebSocket
      else if draining_count > 1 then Inl Lease_TooManyDraining
      else if length children = 3 \<and> draining_count \<noteq> 1 then Inl Lease_ThreeChildrenRequireDraining
      else rbind (ok_or Lease_TimeParse (parse_i64 (lp_iat p))) (\<lambda>iat.
        rbind (ok_or Lease_TimeParse (parse_i64 (lp_valid_until p))) (\<lambda>valid_until.
          if valid_until - iat \<noteq> REMOTE_CONNECTION_LEASE_VALID_SECONDS then Inl Lease_ValidityDuration
          else if sint now > sint valid_until then Inl Lease_Expired
          else Inr ())))"

definition lease_jws_digest :: "(bytes \<Rightarrow> digest32) \<Rightarrow> bytes \<Rightarrow> digest32" where
  "lease_jws_digest sha jws = sha jws"

definition validate_lease_jws_size :: "bytes \<Rightarrow> lease_error + unit" where
  "validate_lease_jws_size jws =
     (if length jws > REMOTE_CONNECTION_LEASE_MAX_BYTES then Inl Lease_JwsTooLarge else Inr ())"

subsection \<open>Refresh authorizations\<close>

record refresh_payload =
  rp_schema_version :: u8
  rp_iss :: string
  rp_aud :: string
  rp_authorization_id :: string
  rp_tenant_id :: string
  rp_account_id :: string
  rp_client_device_id :: string
  rp_client_certificate_generation :: string
  rp_daemon_instance_id :: string
  rp_daemon_certificate_generation :: string
  rp_logical_attachment_id :: string
  rp_service_version :: string
  rp_service_policy_digest :: string
  rp_policy_epoch :: string
  rp_policy_digest :: string
  rp_authority_epoch :: string
  rp_permission_ceiling_digest :: string
  rp_tenant_authorization_digest :: "string option"
  rp_iat :: string
  rp_exp :: string
  rp_jti :: string

datatype refresh_auth_error =
    Refresh_SchemaVersion
  | Refresh_Audience
  | Refresh_TenantDigestEmpty
  | Refresh_TimeParse
  | Refresh_TimeOrder

definition refresh_validate :: "refresh_payload \<Rightarrow> refresh_auth_error + unit" where
  "refresh_validate p =
     (if rp_schema_version p \<noteq> REMOTE_SESSION_CONTINUITY_SCHEMA_VERSION then Inl Refresh_SchemaVersion
      else if rp_aud p \<noteq> ''flycockpit-remote-lease-refresh-v1'' then Inl Refresh_Audience
      else if rp_tenant_authorization_digest p = Some [] then Inl Refresh_TenantDigestEmpty
      else rbind (ok_or Refresh_TimeParse (parse_i64 (rp_iat p))) (\<lambda>iat.
        rbind (ok_or Refresh_TimeParse (parse_i64 (rp_exp p))) (\<lambda>exp.
          if sint iat > sint exp then Inl Refresh_TimeOrder else Inr ())))"

definition refresh_authorization_jws_digest :: "(bytes \<Rightarrow> digest32) \<Rightarrow> bytes \<Rightarrow> digest32" where
  "refresh_authorization_jws_digest sha jws = sha jws"

subsection \<open>Exact payload members\<close>

definition REFRESH_AUTHORIZATION_PAYLOAD_MEMBERS :: "string list" where
  "REFRESH_AUTHORIZATION_PAYLOAD_MEMBERS =
     [''schemaVersion'', ''iss'', ''aud'', ''authorizationId'', ''tenantId'', ''accountId'', ''clientDeviceId'',
      ''clientCertificateGeneration'', ''daemonInstanceId'', ''daemonCertificateGeneration'',
      ''logicalAttachmentId'', ''serviceVersion'', ''servicePolicyDigest'', ''policyEpoch'', ''policyDigest'',
      ''authorityEpoch'', ''permissionCeilingDigest'', ''tenantAuthorizationDigest'', ''iat'', ''exp'', ''jti'']"

definition CONNECTION_LEASE_PAYLOAD_MEMBERS :: "string list" where
  "CONNECTION_LEASE_PAYLOAD_MEMBERS =
     [''schemaVersion'', ''iss'', ''aud'', ''leaseId'', ''leaseGeneration'', ''refreshRequestId'',
      ''refreshAuthorizationDigest'', ''tenantId'', ''accountId'', ''clientDeviceId'', ''clientDeviceGeneration'',
      ''daemonInstanceId'', ''daemonCertificateGeneration'', ''logicalAttachmentId'', ''serviceVersion'',
      ''servicePolicyDigest'', ''policyEpoch'', ''policyDigest'', ''authorityEpoch'', ''permissionCeilingDigest'',
      ''daemonLocalPolicyDigest'', ''activeChildren'', ''tenantAuthorizationStatementDigest'',
      ''tenantAuthorityStatusDigest'', ''iat'', ''validUntil'']"

datatype payload_key_error = Key_Mismatch "string list" "string list"

definition validate_exact_payload_keys :: "string list \<Rightarrow> string list \<Rightarrow> payload_key_error + unit" where
  "validate_exact_payload_keys keys required =
     (let sorted_keys = sort keys; sorted_required = sort required in
      if sorted_keys = sorted_required then Inr ()
      else Inl (Key_Mismatch (filter (\<lambda>k. k \<notin> set sorted_required) sorted_keys)
                             (filter (\<lambda>k. k \<notin> set sorted_keys) sorted_required)))"

subsection \<open>Control events\<close>

definition REMOTE_CONTROL_EVENT_MAGIC :: bytes where "REMOTE_CONTROL_EVENT_MAGIC = ascii ''FCRC''"
definition REMOTE_CONTROL_EVENT_VERSION :: u8 where "REMOTE_CONTROL_EVENT_VERSION = 1"
definition REMOTE_CONTROL_EVENT_HEADER_BYTES :: nat where "REMOTE_CONTROL_EVENT_HEADER_BYTES = 98"
definition REMOTE_CONTROL_EVENT_MAX_PAYLOAD :: nat where "REMOTE_CONTROL_EVENT_MAX_PAYLOAD = 65536"
definition REMOTE_CONTROL_EVENT_MAX_BYTES :: nat where "REMOTE_CONTROL_EVENT_MAX_BYTES = 65634"
definition REMOTE_CONTROL_EVENT_MAX_EMBEDDED_JWS :: nat where "REMOTE_CONTROL_EVENT_MAX_EMBEDDED_JWS = 16384"

lemmas event_consts = REMOTE_CONTROL_EVENT_VERSION_def REMOTE_CONTROL_EVENT_HEADER_BYTES_def
  REMOTE_CONTROL_EVENT_MAX_PAYLOAD_def REMOTE_CONTROL_EVENT_MAX_BYTES_def REMOTE_CONTROL_EVENT_MAX_EMBEDDED_JWS_def

datatype event_kind =
    Kind_LeaseRefresh
  | Kind_PolicyNarrowed
  | Kind_DeviceRevoked
  | Kind_InstanceRevoked
  | Kind_TenantAuthorityChanged
  | Kind_AttachmentRevoked
  | Kind_Drain
  | Kind_AuthorityStatus

definition event_kind_from_byte :: "u8 \<Rightarrow> event_kind option" where
  "event_kind_from_byte b =
     (if b = 1 then Some Kind_LeaseRefresh else if b = 2 then Some Kind_PolicyNarrowed
      else if b = 3 then Some Kind_DeviceRevoked else if b = 4 then Some Kind_InstanceRevoked
      else if b = 5 then Some Kind_TenantAuthorityChanged else if b = 6 then Some Kind_AttachmentRevoked
      else if b = 7 then Some Kind_Drain else if b = 8 then Some Kind_AuthorityStatus else None)"

fun event_kind_to_byte :: "event_kind \<Rightarrow> u8" where
  "event_kind_to_byte Kind_LeaseRefresh = 1"
| "event_kind_to_byte Kind_PolicyNarrowed = 2"
| "event_kind_to_byte Kind_DeviceRevoked = 3"
| "event_kind_to_byte Kind_InstanceRevoked = 4"
| "event_kind_to_byte Kind_TenantAuthorityChanged = 5"
| "event_kind_to_byte Kind_AttachmentRevoked = 6"
| "event_kind_to_byte Kind_Drain = 7"
| "event_kind_to_byte Kind_AuthorityStatus = 8"

datatype event_error =
    Event_Length
  | Event_Magic
  | Event_Version
  | Event_EventIdZero
  | Event_ControlSeqZero
  | Event_UnknownKind
  | Event_PayloadCap
  | Event_PayloadLength
  | Event_EmbeddedJwsLength
  | Event_DigestMismatch

record event_header =
  eh_control_seq :: u64
  eh_event_id :: id16
  eh_kind :: event_kind
  eh_service_version :: u64
  eh_policy_epoch :: u64
  eh_authority_epoch :: u64
  eh_issued_at :: u64
  eh_payload_length :: u32
  eh_payload_digest :: digest32

definition event_header_decode :: "bytes \<Rightarrow> event_error + event_header" where
  "event_header_decode bs =
     (if length bs \<noteq> REMOTE_CONTROL_EVENT_HEADER_BYTES then Inl Event_Length
      else if bslice 0 4 bs \<noteq> REMOTE_CONTROL_EVENT_MAGIC then Inl Event_Magic
      else if bs ! 4 \<noteq> REMOTE_CONTROL_EVENT_VERSION then Inl Event_Version
      else if rd64 5 bs < 1 then Inl Event_ControlSeqZero
      else if rd128 13 bs = 0 then Inl Event_EventIdZero
      else rbind (ok_or Event_UnknownKind (event_kind_from_byte (bs ! 29))) (\<lambda>kind.
        if unat (rd32 62 bs) > REMOTE_CONTROL_EVENT_MAX_PAYLOAD then Inl Event_PayloadCap
        else Inr \<lparr>eh_control_seq = rd64 5 bs, eh_event_id = rd128 13 bs, eh_kind = kind,
                  eh_service_version = rd64 30 bs, eh_policy_epoch = rd64 38 bs, eh_authority_epoch = rd64 46 bs,
                  eh_issued_at = rd64 54 bs, eh_payload_length = rd32 62 bs, eh_payload_digest = rd256 66 bs\<rparr>))"

definition event_header_encode :: "event_header \<Rightarrow> bytes" where
  "event_header_encode h =
     REMOTE_CONTROL_EVENT_MAGIC @ [REMOTE_CONTROL_EVENT_VERSION] @ be64 (eh_control_seq h) @ be128 (eh_event_id h)
     @ [event_kind_to_byte (eh_kind h)] @ be64 (eh_service_version h) @ be64 (eh_policy_epoch h)
     @ be64 (eh_authority_epoch h) @ be64 (eh_issued_at h) @ be32 (eh_payload_length h) @ be256 (eh_payload_digest h)"

datatype event_payload =
    Ev_LeaseRefresh bytes
  | Ev_PolicyNarrowed digest32 digest32 u64
  | Ev_DeviceRevoked id16 u64
  | Ev_InstanceRevoked id16 u64
  | Ev_TenantAuthorityChanged u64 u64 digest32
  | Ev_AttachmentRevoked id16 u8
  | Ev_Drain u64 u8
  | Ev_AuthorityStatus u64 bytes

fun payload_kind :: "event_payload \<Rightarrow> event_kind" where
  "payload_kind (Ev_LeaseRefresh j) = Kind_LeaseRefresh"
| "payload_kind (Ev_PolicyNarrowed a b c) = Kind_PolicyNarrowed"
| "payload_kind (Ev_DeviceRevoked i g) = Kind_DeviceRevoked"
| "payload_kind (Ev_InstanceRevoked i g) = Kind_InstanceRevoked"
| "payload_kind (Ev_TenantAuthorityChanged a b r) = Kind_TenantAuthorityChanged"
| "payload_kind (Ev_AttachmentRevoked i r) = Kind_AttachmentRevoked"
| "payload_kind (Ev_Drain d r) = Kind_Drain"
| "payload_kind (Ev_AuthorityStatus g j) = Kind_AuthorityStatus"

fun payload_encode :: "event_payload \<Rightarrow> bytes" where
  "payload_encode (Ev_LeaseRefresh j) = be16 (of_nat (length j)) @ j"
| "payload_encode (Ev_PolicyNarrowed previous new bits) = be256 previous @ be256 new @ be64 bits"
| "payload_encode (Ev_DeviceRevoked i g) = be128 i @ be64 g"
| "payload_encode (Ev_InstanceRevoked i g) = be128 i @ be64 g"
| "payload_encode (Ev_TenantAuthorityChanged previous new ring) = be64 previous @ be64 new @ be256 ring"
| "payload_encode (Ev_AttachmentRevoked i reason) = be128 i @ [reason]"
| "payload_encode (Ev_Drain deadline reason) = be64 deadline @ [reason]"
| "payload_encode (Ev_AuthorityStatus g j) = be64 g @ be16 (of_nat (length j)) @ j"

definition decode_length_prefixed_jws :: "bytes \<Rightarrow> event_error + bytes" where
  "decode_length_prefixed_jws bs =
     (if length bs < 2 then Inl Event_PayloadLength
      else let len = unat (rd16 0 bs) in
        if len = 0 \<or> len > REMOTE_CONTROL_EVENT_MAX_EMBEDDED_JWS then Inl Event_EmbeddedJwsLength
        else if length bs \<noteq> 2 + len then Inl Event_PayloadLength
        else Inr (drop 2 bs))"

definition payload_decode :: "event_kind \<Rightarrow> bytes \<Rightarrow> event_error + event_payload" where
  "payload_decode kind bs =
     (case kind of
        Kind_LeaseRefresh \<Rightarrow> rbind (decode_length_prefixed_jws bs) (\<lambda>jws. Inr (Ev_LeaseRefresh jws))
      | Kind_PolicyNarrowed \<Rightarrow>
          if length bs \<noteq> 72 then Inl Event_PayloadLength
          else Inr (Ev_PolicyNarrowed (rd256 0 bs) (rd256 32 bs) (rd64 64 bs))
      | Kind_DeviceRevoked \<Rightarrow>
          if length bs \<noteq> 24 then Inl Event_PayloadLength else Inr (Ev_DeviceRevoked (rd128 0 bs) (rd64 16 bs))
      | Kind_InstanceRevoked \<Rightarrow>
          if length bs \<noteq> 24 then Inl Event_PayloadLength else Inr (Ev_InstanceRevoked (rd128 0 bs) (rd64 16 bs))
      | Kind_TenantAuthorityChanged \<Rightarrow>
          if length bs \<noteq> 48 then Inl Event_PayloadLength
          else Inr (Ev_TenantAuthorityChanged (rd64 0 bs) (rd64 8 bs) (rd256 16 bs))
      | Kind_AttachmentRevoked \<Rightarrow>
          if length bs \<noteq> 17 then Inl Event_PayloadLength else Inr (Ev_AttachmentRevoked (rd128 0 bs) (bs ! 16))
      | Kind_Drain \<Rightarrow>
          if length bs \<noteq> 9 then Inl Event_PayloadLength else Inr (Ev_Drain (rd64 0 bs) (bs ! 8))
      | Kind_AuthorityStatus \<Rightarrow>
          if length bs < 10 then Inl Event_PayloadLength
          else rbind (decode_length_prefixed_jws (drop 8 bs)) (\<lambda>jws. Inr (Ev_AuthorityStatus (rd64 0 bs) jws)))"

record control_event =
  ce_header :: event_header
  ce_payload :: event_payload

definition event_seal ::
    "(bytes \<Rightarrow> digest32) \<Rightarrow> u64 \<Rightarrow> id16 \<Rightarrow> u64 \<Rightarrow> u64 \<Rightarrow> u64 \<Rightarrow> u64 \<Rightarrow> event_payload \<Rightarrow> control_event" where
  "event_seal sha control_seq event_id service_version policy_epoch authority_epoch issued_at payload =
     (let payload_bytes = payload_encode payload in
      \<lparr>ce_header =
         \<lparr>eh_control_seq = control_seq, eh_event_id = event_id, eh_kind = payload_kind payload,
          eh_service_version = service_version, eh_policy_epoch = policy_epoch, eh_authority_epoch = authority_epoch,
          eh_issued_at = issued_at, eh_payload_length = of_nat (length payload_bytes),
          eh_payload_digest = sha payload_bytes\<rparr>,
       ce_payload = payload\<rparr>)"

definition event_encode :: "(bytes \<Rightarrow> digest32) \<Rightarrow> control_event \<Rightarrow> bytes" where
  "event_encode sha e =
     (let payload_bytes = payload_encode (ce_payload e);
          header = (ce_header e)\<lparr>eh_payload_length := of_nat (length payload_bytes), eh_payload_digest := sha payload_bytes\<rparr> in
      event_header_encode header @ payload_bytes)"

definition event_decode :: "(bytes \<Rightarrow> digest32) \<Rightarrow> bytes \<Rightarrow> event_error + control_event" where
  "event_decode sha bs =
     (if length bs < REMOTE_CONTROL_EVENT_HEADER_BYTES \<or> length bs > REMOTE_CONTROL_EVENT_MAX_BYTES
      then Inl Event_Length
      else rbind (event_header_decode (bslice 0 REMOTE_CONTROL_EVENT_HEADER_BYTES bs)) (\<lambda>header.
        let payload_bytes = drop REMOTE_CONTROL_EVENT_HEADER_BYTES bs in
        if length payload_bytes \<noteq> unat (eh_payload_length header) then Inl Event_PayloadLength
        else if sha payload_bytes \<noteq> eh_payload_digest header then Inl Event_DigestMismatch
        else rbind (payload_decode (eh_kind header) payload_bytes) (\<lambda>payload.
          Inr \<lparr>ce_header = header, ce_payload = payload\<rparr>)))"

definition control_event_byte_hash :: "(bytes \<Rightarrow> digest32) \<Rightarrow> bytes \<Rightarrow> digest32" where
  "control_event_byte_hash sha bs = sha bs"

subsection \<open>Lease replacement and refresh\<close>

datatype lease_replacement_error = GenerationNotMonotonic | Retry_DigestMismatch

definition validate_lease_replacement_generation :: "u64 \<Rightarrow> u64 \<Rightarrow> lease_replacement_error + unit" where
  "validate_lease_replacement_generation current new =
     (if new \<le> current then Inl GenerationNotMonotonic else Inr ())"

definition validate_exact_retry ::
    "u64 \<Rightarrow> digest32 \<Rightarrow> u64 \<Rightarrow> digest32 \<Rightarrow> lease_replacement_error + unit" where
  "validate_exact_retry current_generation current_digest retry_generation retry_digest =
     (if current_generation \<noteq> retry_generation \<or> current_digest \<noteq> retry_digest then Inl Retry_DigestMismatch
      else Inr ())"

record refresh_ceiling =
  rc_ceiling_digest :: digest32
  rc_scopes :: "string set"
  rc_projects :: "string set"
  rc_transports :: "string set"
  rc_custody_requirements :: "string set"
  rc_children :: "string set"

datatype refresh_widen_error = ScopeWidened | ProjectWidened | TransportWidened | CustodyWidened | ChildAdded

definition validate_refresh_narrows :: "refresh_ceiling \<Rightarrow> refresh_ceiling \<Rightarrow> refresh_widen_error + unit" where
  "validate_refresh_narrows old new =
     (if rc_ceiling_digest old = rc_ceiling_digest new then Inr ()
      else if \<not> rc_scopes new \<subseteq> rc_scopes old then Inl ScopeWidened
      else if \<not> rc_projects new \<subseteq> rc_projects old then Inl ProjectWidened
      else if \<not> rc_transports new \<subseteq> rc_transports old then Inl TransportWidened
      else if \<not> rc_custody_requirements new \<subseteq> rc_custody_requirements old then Inl CustodyWidened
      else if \<not> rc_children new \<subseteq> rc_children old then Inl ChildAdded
      else Inr ())"

subsection \<open>Delivery deduplication\<close>

record dedupe_state = dd_delivered :: "string set"

definition dedupe_new :: dedupe_state where "dedupe_new = \<lparr>dd_delivered = {}\<rparr>"

definition mark_delivered :: "dedupe_state \<Rightarrow> string \<Rightarrow> dedupe_state \<times> bool" where
  "mark_delivered s i = (s\<lparr>dd_delivered := insert i (dd_delivered s)\<rparr>, i \<notin> dd_delivered s)"

definition is_delivered :: "dedupe_state \<Rightarrow> string \<Rightarrow> bool" where
  "is_delivered s i \<longleftrightarrow> i \<in> dd_delivered s"

definition forget :: "dedupe_state \<Rightarrow> string \<Rightarrow> dedupe_state" where
  "forget s i = s\<lparr>dd_delivered := dd_delivered s - {i}\<rparr>"

subsection \<open>Predicates\<close>

fun payload_ok :: "event_payload \<Rightarrow> bool" where
  "payload_ok (Ev_LeaseRefresh j) \<longleftrightarrow> 1 \<le> length j \<and> length j \<le> REMOTE_CONTROL_EVENT_MAX_EMBEDDED_JWS"
| "payload_ok (Ev_AuthorityStatus g j) \<longleftrightarrow> 1 \<le> length j \<and> length j \<le> REMOTE_CONTROL_EVENT_MAX_EMBEDDED_JWS"
| "payload_ok _ \<longleftrightarrow> True"

text \<open>A header that agrees with its payload.\<close>

definition event_ok :: "(bytes \<Rightarrow> digest32) \<Rightarrow> control_event \<Rightarrow> bool" where
  "event_ok sha e \<longleftrightarrow> eh_control_seq (ce_header e) \<noteq> 0 \<and> eh_event_id (ce_header e) \<noteq> 0
     \<and> eh_kind (ce_header e) = payload_kind (ce_payload e) \<and> payload_ok (ce_payload e)
     \<and> eh_payload_length (ce_header e) = of_nat (length (payload_encode (ce_payload e)))
     \<and> eh_payload_digest (ce_header e) = sha (payload_encode (ce_payload e))"

text \<open>Every set of the new ceiling is a subset of the old one.\<close>

definition ceiling_within :: "refresh_ceiling \<Rightarrow> refresh_ceiling \<Rightarrow> bool" where
  "ceiling_within new old \<longleftrightarrow> rc_scopes new \<subseteq> rc_scopes old \<and> rc_projects new \<subseteq> rc_projects old
     \<and> rc_transports new \<subseteq> rc_transports old \<and> rc_custody_requirements new \<subseteq> rc_custody_requirements old
     \<and> rc_children new \<subseteq> rc_children old"

text \<open>A chain of ceilings in which each refresh was accepted.\<close>

fun refreshed :: "refresh_ceiling list \<Rightarrow> bool" where
  "refreshed (a # b # cs) \<longleftrightarrow> validate_refresh_narrows a b = Inr () \<and> refreshed (b # cs)"
| "refreshed _ \<longleftrightarrow> True"

datatype delivery_call = Deliver string | Forget string

text \<open>The deliveries that an egress sends: those whose marking was the first.\<close>

fun deliveries :: "dedupe_state \<Rightarrow> delivery_call list \<Rightarrow> string list" where
  "deliveries s [] = []"
| "deliveries s (Deliver i # cs) =
     (case mark_delivered s i of (s, first) \<Rightarrow> if first then i # deliveries s cs else deliveries s cs)"
| "deliveries s (Forget i # cs) = deliveries (forget s i) cs"

section \<open>Control event codec\<close>

lemma event_kind_roundtrip [simp]: "event_kind_from_byte (event_kind_to_byte k) = Some k"
  by (cases k) (simp_all add: event_kind_from_byte_def)

lemma event_kind_canonical: "event_kind_from_byte b = Some k \<Longrightarrow> event_kind_to_byte k = b"
  by (auto simp: event_kind_from_byte_def split: if_splits)

lemma length_event_magic [simp]: "length REMOTE_CONTROL_EVENT_MAGIC = 4"
  by (simp add: REMOTE_CONTROL_EVENT_MAGIC_def ascii_def)

definition header_ok :: "event_header \<Rightarrow> bool" where
  "header_ok h \<longleftrightarrow> eh_control_seq h \<noteq> 0 \<and> eh_event_id h \<noteq> 0
     \<and> unat (eh_payload_length h) \<le> REMOTE_CONTROL_EVENT_MAX_PAYLOAD"

lemma length_event_header [simp]: "length (event_header_encode h) = 98"
  by (simp add: event_header_encode_def be_simps)

lemma event_header_decode_encode:
  assumes "header_ok h"
  shows "event_header_decode (event_header_encode h) = Inr h"
  using assms
  by (simp add: event_header_decode_def event_header_encode_def event_consts header_ok_def be_simps nth_append
      not_le not_less word_less_1)

lemma event_header_encode_decode:
  assumes "event_header_decode bs = Inr h"
  shows "header_ok h \<and> event_header_encode h = bs"
proof -
  have len: "length bs = 98" and hd: "bslice 0 4 bs = REMOTE_CONTROL_EVENT_MAGIC" "bs ! 4 = 1"
    and k: "event_kind_to_byte (eh_kind h) = bs ! 29" and ok: "header_ok h"
    and h: "eh_control_seq h = rd64 5 bs" "eh_event_id h = rd128 13 bs" "eh_service_version h = rd64 30 bs"
      "eh_policy_epoch h = rd64 38 bs" "eh_authority_epoch h = rd64 46 bs" "eh_issued_at h = rd64 54 bs"
      "eh_payload_length h = rd32 62 bs" "eh_payload_digest h = rd256 66 bs"
    using assms event_kind_canonical [of "bs ! 29"]
    by (auto simp: event_header_decode_def event_consts header_ok_def result_simps not_less)
  have "bs = bslice 0 4 bs @ [bs ! 4] @ be64 (rd64 5 bs) @ be128 (rd128 13 bs) @ [bs ! 29] @ be64 (rd64 30 bs)
      @ be64 (rd64 38 bs) @ be64 (rd64 46 bs) @ be64 (rd64 54 bs) @ be32 (rd32 62 bs) @ be256 (rd256 66 bs)"
    using fields_eq [of 0 "[4, 1, 8, 16, 1, 8, 8, 8, 8, 4, 32]" bs] len
    by (simp add: bslice_one be_simps del: One_nat_def)
  with hd k h ok show ?thesis by (simp add: event_header_encode_def event_consts)
qed

lemma jws_decode_encode:
  assumes "1 \<le> length j" and "length j \<le> REMOTE_CONTROL_EVENT_MAX_EMBEDDED_JWS"
  shows "decode_length_prefixed_jws (be16 (of_nat (length j)) @ j) = Inr j"
proof -
  have "unat (of_nat (length j) :: u16) = length j"
    using assms by (intro unat_of_nat_small) (simp add: event_consts)
  with assms show ?thesis by (cases j) (simp_all add: decode_length_prefixed_jws_def be_simps Let_def not_less)
qed

lemma jws_encode_decode:
  assumes "decode_length_prefixed_jws bs = Inr j"
  shows "1 \<le> length j \<and> length j \<le> REMOTE_CONTROL_EVENT_MAX_EMBEDDED_JWS \<and> be16 (of_nat (length j)) @ j = bs"
proof -
  have len: "length bs = 2 + unat (rd16 0 bs)" "j = drop 2 bs"
    and b: "1 \<le> unat (rd16 0 bs)" "unat (rd16 0 bs) \<le> REMOTE_CONTROL_EVENT_MAX_EMBEDDED_JWS"
    using assms by (auto simp: decode_length_prefixed_jws_def Let_def not_less split: if_splits)
  have "be16 (rd16 0 bs) = bslice 0 2 bs" using len by (simp add: be_simps)
  then have "bs = be16 (rd16 0 bs) @ drop 2 bs" by (simp add: bslice_def)
  with len b show ?thesis by simp
qed

lemma payload_decode_encode: "payload_ok p \<Longrightarrow> payload_decode (payload_kind p) (payload_encode p) = Inr p"
  by (cases p) (simp_all add: payload_decode_def be_simps nth_append jws_decode_encode)

lemma payload_encode_decode:
  assumes "payload_decode k bs = Inr p"
  shows "payload_ok p \<and> payload_kind p = k \<and> payload_encode p = bs"
proof (cases k)
  case Kind_LeaseRefresh
  with assms show ?thesis by (auto simp: payload_decode_def result_simps dest!: jws_encode_decode)
next
  case Kind_PolicyNarrowed
  with assms show ?thesis using fields_eq [of 0 "[32, 32, 8]" bs]
    by (auto simp: payload_decode_def be_simps split: if_splits)
next
  case Kind_DeviceRevoked
  with assms show ?thesis using fields_eq [of 0 "[16, 8]" bs]
    by (auto simp: payload_decode_def be_simps split: if_splits)
next
  case Kind_InstanceRevoked
  with assms show ?thesis using fields_eq [of 0 "[16, 8]" bs]
    by (auto simp: payload_decode_def be_simps split: if_splits)
next
  case Kind_TenantAuthorityChanged
  with assms show ?thesis using fields_eq [of 0 "[8, 8, 32]" bs]
    by (auto simp: payload_decode_def be_simps split: if_splits)
next
  case Kind_AttachmentRevoked
  with assms show ?thesis using fields_eq [of 0 "[16, 1]" bs]
    by (auto simp: payload_decode_def be_simps bslice_one simp del: One_nat_def split: if_splits)
next
  case Kind_Drain
  with assms show ?thesis using fields_eq [of 0 "[8, 1]" bs]
    by (auto simp: payload_decode_def be_simps bslice_one simp del: One_nat_def split: if_splits)
next
  case Kind_AuthorityStatus
  with assms show ?thesis using fields_eq [of 0 "[8]" bs]
    by (auto simp: payload_decode_def result_simps be_simps split: if_splits dest!: jws_encode_decode)
qed

lemma payload_length_bound: "payload_ok p \<Longrightarrow> length (payload_encode p) \<le> REMOTE_CONTROL_EVENT_MAX_PAYLOAD"
  by (cases p) (simp_all add: event_consts)

lemma payload_length_word:
  assumes "payload_ok p"
  shows "unat (of_nat (length (payload_encode p)) :: u32) = length (payload_encode p)"
  using payload_length_bound [OF assms] by (intro unat_of_nat_small) (simp add: event_consts)

lemma event_encode_ok:
  assumes "event_ok sha e"
  shows "event_encode sha e = event_header_encode (ce_header e) @ payload_encode (ce_payload e)"
proof -
  have "(ce_header e)\<lparr>eh_payload_length := of_nat (length (payload_encode (ce_payload e))),
      eh_payload_digest := sha (payload_encode (ce_payload e))\<rparr> = ce_header e"
    using assms by (simp add: event_ok_def)
  then show ?thesis by (simp add: event_encode_def Let_def)
qed

lemma event_decode_encode:
  assumes "event_ok sha e"
  shows "event_decode sha (event_encode sha e) = Inr e"
proof -
  have p: "payload_ok (ce_payload e)" using assms by (simp add: event_ok_def)
  have "header_ok (ce_header e)"
    using assms payload_length_word [OF p] payload_length_bound [OF p] by (simp add: event_ok_def header_ok_def)
  with assms payload_length_word [OF p] payload_length_bound [OF p] payload_decode_encode [OF p] show ?thesis
    by (simp add: event_encode_ok event_decode_def event_header_decode_encode event_consts bslice_here
        event_ok_def Let_def not_less)
qed

lemma event_encode_decode:
  assumes "event_decode sha bs = Inr e"
  shows "event_ok sha e \<and> event_encode sha e = bs"
proof -
  have h: "event_header_decode (bslice 0 98 bs) = Inr (ce_header e)"
    and p: "payload_decode (eh_kind (ce_header e)) (drop 98 bs) = Inr (ce_payload e)"
    and l: "length bs - 98 = unat (eh_payload_length (ce_header e))"
    and d: "sha (drop 98 bs) = eh_payload_digest (ce_header e)"
    using assms by (auto simp: event_decode_def event_consts Let_def result_simps)
  note hh = event_header_encode_decode [OF h] and pp = payload_encode_decode [OF p]
  have "eh_payload_length (ce_header e) = of_nat (length (drop 98 bs))" using l by simp
  with hh pp d have ok: "event_ok sha e" by (simp add: event_ok_def header_ok_def)
  have "bslice 0 98 bs @ drop 98 bs = bs" by (simp add: bslice_def)
  with hh pp ok show ?thesis by (simp add: event_encode_ok)
qed

interpretation event_codec: wire_codec "\<lambda>e. Inr (event_encode sha e)" "event_decode sha" "event_ok sha" for sha
  by unfold_locales (auto simp: event_decode_encode dest: event_encode_decode)

lemma event_seal_ok:
  assumes "control_seq \<noteq> 0" and "event_id \<noteq> 0" and "payload_ok p"
  shows "event_ok sha (event_seal sha control_seq event_id sv pe ae iat p)"
  using assms by (simp add: event_seal_def event_ok_def Let_def)

section \<open>Leases\<close>

lemma children_sorted_iff:
  "children_sorted prev cs \<longleftrightarrow>
     sorted_wrt (<) ((case prev of Some p \<Rightarrow> [p] | None \<Rightarrow> []) @ map lc_child_attempt_id cs)"
proof (induction prev cs rule: children_sorted.induct)
  case (2 prev c cs)
  then show ?case by (cases prev) (auto simp: not_le intro: less_trans [of _ "lc_child_attempt_id c"])
qed (simp split: option.split)

definition lease_shape :: "lease_payload \<Rightarrow> bool" where
  "lease_shape p \<longleftrightarrow> lp_schema_version p = 1 \<and> lp_aud p = ''flycockpit-remote-connection-lease-v1''
     \<and> tenant_matrix_ok (lp_tenant_authorization_statement_digest p) (lp_tenant_authority_status_digest p)
     \<and> sorted_wrt (<) (map lc_child_attempt_id (lp_active_children p)) \<and> length (lp_active_children p) \<le> 3
     \<and> (\<forall>tr. count_current tr (lp_active_children p) \<le> 1) \<and> count_draining (lp_active_children p) \<le> 1"

lemma lease_transport_all: "(\<forall>tr. P tr) \<longleftrightarrow> P Lease_WebRtc \<and> P Lease_WebSocket"
  by (metis lease_transport.exhaust)

lemma lease_counts: "length cs = count_current Lease_WebRtc cs + count_current Lease_WebSocket cs + count_draining cs"
proof (induction cs)
  case (Cons c cs)
  then show ?case
    by (cases "lc_lifecycle c"; cases "lc_transport c") (simp_all add: count_current_def count_draining_def)
qed (simp add: count_current_def count_draining_def)

text \<open>The three-children rule follows from the caps before it, so the shape does not repeat it.\<close>

lemma lease_validate_iff:
  "lease_validate p now = Inr () \<longleftrightarrow> lease_shape p
     \<and> (\<exists>iat valid_until. parse_i64 (lp_iat p) = Some iat \<and> parse_i64 (lp_valid_until p) = Some valid_until
         \<and> valid_until - iat = 300 \<and> sint now \<le> sint valid_until)"
proof -
  let ?cs = "lp_active_children p"
  have guard: "(if c then Inl e else r) = Inr x \<longleftrightarrow> \<not> c \<and> r = Inr x" for c e x and r :: "lease_error + unit"
    by simp
  have "length ?cs = 3 \<Longrightarrow> count_draining ?cs = 1"
    if "count_current Lease_WebRtc ?cs \<le> 1" "count_current Lease_WebSocket ?cs \<le> 1" "count_draining ?cs \<le> 1"
    using lease_counts [of ?cs] that by arith
  then show ?thesis
    unfolding lease_validate_def Let_def guard lease_shape_def lease_transport_all not_not not_less
    by (simp add: children_sorted_iff result_simps guard REMOTE_SESSION_CONTINUITY_SCHEMA_VERSION_def
        REMOTE_CONNECTION_LEASE_VALID_SECONDS_def not_less) (safe; (simp | blast | arith)?)
qed




definition lease_child_of :: "string \<Rightarrow> lease_transport \<Rightarrow> lease_lifecycle \<Rightarrow> lease_child" where
  "lease_child_of i tr lc = \<lparr>lc_child_attempt_id = i, lc_transport_epoch = ''e'', lc_transport = tr,
     lc_lifecycle = lc, lc_final_proof_set_digest = ''d''\<rparr>"

definition sample_lease :: "lease_child list \<Rightarrow> lease_payload" where
  "sample_lease cs =
     \<lparr>lp_schema_version = 1, lp_iss = ''i'', lp_aud = ''flycockpit-remote-connection-lease-v1'', lp_lease_id = ''l'',
      lp_lease_generation = ''1'', lp_refresh_request_id = ''r'', lp_refresh_authorization_digest = ''d'',
      lp_tenant_id = ''t'', lp_account_id = ''a'', lp_client_device_id = ''c'', lp_client_device_generation = ''1'',
      lp_daemon_instance_id = ''d'', lp_daemon_certificate_generation = ''1'', lp_logical_attachment_id = ''x'',
      lp_service_version = ''1'', lp_service_policy_digest = ''d'', lp_policy_epoch = ''1'', lp_policy_digest = ''d'',
      lp_authority_epoch = ''1'', lp_permission_ceiling_digest = ''d'', lp_daemon_local_policy_digest = ''d'',
      lp_active_children = cs, lp_tenant_authorization_statement_digest = None,
      lp_tenant_authority_status_digest = None, lp_iat = ''100'', lp_valid_until = ''400''\<rparr>"

lemma sample_times: "parse_i64 ''100'' = Some 100" "parse_i64 ''400'' = Some 400"
  by (simp_all add: parse_i64_def parse_digits_def is_ascii_digit_def digit_value_def)

text \<open>A lone draining child next to a current child of the other transport is accepted.\<close>

lemma lease_draining_other_transport:
  "lease_validate (sample_lease [lease_child_of ''a'' Lease_WebSocket Child_Current,
     lease_child_of ''b'' Lease_WebRtc Child_Draining]) 200 = Inr ()"
  by (simp add: lease_validate_iff lease_shape_def lease_transport_all sample_lease_def lease_child_of_def
      sample_times tenant_matrix_ok_def count_current_def count_draining_def)


section \<open>Refreshes\<close>

lemma refresh_narrows_iff:
  "validate_refresh_narrows old new = Inr () \<longleftrightarrow>
     rc_ceiling_digest old = rc_ceiling_digest new \<or> ceiling_within new old"
  by (auto simp: validate_refresh_narrows_def ceiling_within_def)

lemma ceiling_within_trans: "ceiling_within a b \<Longrightarrow> ceiling_within b c \<Longrightarrow> ceiling_within a c"
  by (auto simp: ceiling_within_def)

lemma ceiling_within_refl [simp]: "ceiling_within a a"
  by (simp add: ceiling_within_def)

text \<open>
  C21. Along any chain of accepted refreshes the last ceiling stays within the first, in scopes, projects,
  transports, custody requirements and children, provided that equal digests belong to equal ceilings.
\<close>

theorem refresh_chain_never_widens:
  assumes "refreshed (c # cs)"
    and digest_binds: "\<forall>a \<in> set (c # cs). \<forall>b \<in> set (c # cs). rc_ceiling_digest a = rc_ceiling_digest b \<longrightarrow> a = b"
  shows "\<forall>d \<in> set (c # cs). ceiling_within d c"
  using assms
proof (induction cs arbitrary: c)
  case (Cons d cs)
  have step: "ceiling_within d c" using Cons.prems by (auto simp: refresh_narrows_iff)
  have "\<forall>e \<in> set (d # cs). ceiling_within e d"
    using Cons.prems by (intro Cons.IH) auto
  with step show ?case by (auto intro: ceiling_within_trans)
qed simp

definition sample_ceiling :: "digest32 \<Rightarrow> string set \<Rightarrow> refresh_ceiling" where
  "sample_ceiling d ch = \<lparr>rc_ceiling_digest = d, rc_scopes = {''s''}, rc_projects = {''p''}, rc_transports = {''t''},
     rc_custody_requirements = {}, rc_children = ch\<rparr>"

theorem refresh_chain_never_widens_witness:
  "ceiling_within (sample_ceiling 3 {}) (sample_ceiling 1 {''a'', ''b''})"
  using refresh_chain_never_widens [of "sample_ceiling 1 {''a'', ''b''}" "[sample_ceiling 2 {''a''}, sample_ceiling 3 {}]"]
  by (simp add: refresh_narrows_iff sample_ceiling_def ceiling_within_def)

text \<open>With equal digests the child comparison is not reached: a refresh that adds a child is accepted.\<close>

lemma refresh_equal_digest_adds_child:
  "validate_refresh_narrows (sample_ceiling 1 {''a''}) (sample_ceiling 1 {''a'', ''b''}) = Inr ()
   \<and> \<not> ceiling_within (sample_ceiling 1 {''a'', ''b''}) (sample_ceiling 1 {''a''})"
  by (simp add: validate_refresh_narrows_def sample_ceiling_def ceiling_within_def)

lemma payload_keys_iff: "validate_exact_payload_keys keys required = Inr () \<longleftrightarrow> mset keys = mset required"
  by (auto simp: validate_exact_payload_keys_def Let_def dest: arg_cong [where f = mset]
      intro: properties_for_sort)

section \<open>Deliveries\<close>

lemma deliveries_count:
  "length (filter ((=) i) (deliveries s cs))
     \<le> (if i \<in> dd_delivered s then 0 else 1) + length (filter ((=) (Forget i)) cs)"
proof (induction s cs rule: deliveries.induct)
  case (2 s j cs)
  then show ?case by (cases "j \<in> dd_delivered s"; cases "i = j") (auto simp: mark_delivered_def)
next
  case (3 s j cs)
  then show ?case by (cases "i = j") (auto simp: forget_def split: if_splits)
qed simp

lemma deliveries_sent:
  "Deliver i \<in> set cs \<Longrightarrow> i \<notin> dd_delivered s \<Longrightarrow> i \<in> set (deliveries s cs)"
proof (induction s cs rule: deliveries.induct)
  case (2 s j cs)
  then show ?case by (cases "j \<in> dd_delivered s"; cases "i = j") (auto simp: mark_delivered_def)
next
  case (3 s j cs)
  then show ?case by (auto simp: forget_def)
qed simp

text \<open>
  From a new deduplication state, for every interleaving of deliveries and forgets, a requested
  delivery is sent, and a delivery id is sent at most once more than it was forgotten.
\<close>

theorem delivery_sent_once:
  "(Deliver i \<in> set cs \<longrightarrow> i \<in> set (deliveries dedupe_new cs))
   \<and> length (filter ((=) i) (deliveries dedupe_new cs)) \<le> 1 + length (filter ((=) (Forget i)) cs)"
  using deliveries_sent [of i cs dedupe_new] deliveries_count [of i dedupe_new cs] by (simp add: dedupe_new_def)

theorem delivery_sent_once_witness:
  "''x'' \<in> set (deliveries dedupe_new [Deliver ''x'', Deliver ''x'', Deliver ''y''])
   \<and> length (filter ((=) ''x'') (deliveries dedupe_new [Deliver ''x'', Deliver ''x'', Deliver ''y''])) \<le> 1"
  using delivery_sent_once [of "''x''" "[Deliver ''x'', Deliver ''x'', Deliver ''y'']"] by simp

end
