(* ===== verification/Daemon_Continuity.thy ===== *)
theory Daemon_Continuity
  imports Session_Continuity Remote_Contracts
begin

text \<open>
  The daemon's side of session continuity (\<open>crates/cockpit-core/src/daemon/session_continuity.rs\<close>) and the
  replay pages of \<open>crates/cockpit-core/src/daemon/control_replay.rs\<close>: the members of an attachment, the
  application of control events with its sticky pause, the authoritative replay, the authorization barrier,
  reattach replay, mobile states and lease replacement.

  SHA-256 is the parameter \<open>sha\<close> and standard base64 the parameter \<open>b64\<close>. Sequence numbers are 64-bit words
  that wrap as in a release build.

  Shown here: a pause ends only through the authoritative replay, which applies a gap-free page completely and
  in order; applying an event twice is applying it once; a revocation leaves no open child and no lease; the
  children written into a lease are accepted by the lease's own validation of their order; reattaching page by
  page delivers the outbox; the barrier numbers mutations consecutively.
\<close>

section \<open>Definitions\<close>

subsection \<open>Child members\<close>

datatype child_transport = Member_WebRtc | Member_WebSocket
datatype member_state = Member_Pending | Member_Active | Member_Draining | Member_Closed

record child_member =
  cm_child_attempt_id :: string
  cm_transport :: child_transport
  cm_transport_epoch :: string
  cm_generation :: u64
  cm_state :: member_state
  cm_final_proof_set_digest :: digest32

definition member_is_active :: "child_member \<Rightarrow> bool" where
  "member_is_active c \<longleftrightarrow> cm_state c = Member_Active"

definition member_is_open :: "child_member \<Rightarrow> bool" where
  "member_is_open c \<longleftrightarrow> cm_state c \<noteq> Member_Closed"

subsection \<open>The attachment\<close>

datatype mobile_ui_state =
    Ui_Reconnecting | Ui_ReauthenticationRequired | Ui_SnapshotRequired | Ui_OutcomeUnknown | Ui_AccessRevoked
  | Ui_SessionTerminal

record attachment =
  at_logical_attachment_id :: string
  at_session_id :: string
  at_current_lease_id :: "string option"
  at_current_lease_generation :: u64
  at_current_lease_jws_digest :: digest32
  at_children :: "child_member list"
  at_delivery_dedupe :: dedupe_state
  at_last_applied_control_seq :: u64
  at_last_applied_policy_epoch :: u64
  at_last_applied_authority_epoch :: u64
  at_control_event_hashes :: "id16 \<rightharpoonup> digest32"
  at_operations_paused :: bool
  at_required_policy_digest :: "digest32 option"
  at_drain_deadline :: "u64 option"
  at_pending_lease_refresh_jws :: "bytes option"
  at_mobile_ui_state :: mobile_ui_state
  at_backgrounded :: bool

definition attachment_new :: "string \<Rightarrow> string \<Rightarrow> attachment" where
  "attachment_new logical_attachment_id session_id =
     \<lparr>at_logical_attachment_id = logical_attachment_id, at_session_id = session_id, at_current_lease_id = None,
      at_current_lease_generation = 0, at_current_lease_jws_digest = 0, at_children = [],
      at_delivery_dedupe = dedupe_new, at_last_applied_control_seq = 0, at_last_applied_policy_epoch = 0,
      at_last_applied_authority_epoch = 0, at_control_event_hashes = (\<lambda>_. None), at_operations_paused = False,
      at_required_policy_digest = None, at_drain_deadline = None, at_pending_lease_refresh_jws = None,
      at_mobile_ui_state = Ui_Reconnecting, at_backgrounded = False\<rparr>"

definition count_active :: "attachment \<Rightarrow> nat" where
  "count_active s = length (filter member_is_active (at_children s))"

definition count_open :: "attachment \<Rightarrow> nat" where
  "count_open s = length (filter member_is_open (at_children s))"

definition find_member :: "attachment \<Rightarrow> string \<Rightarrow> child_member option" where
  "find_member s i = find (\<lambda>c. cm_child_attempt_id c = i) (at_children s)"

text \<open>A change through \<open>find_child_mut\<close> affects the first member of that id.\<close>

fun update_member :: "string \<Rightarrow> (child_member \<Rightarrow> child_member) \<Rightarrow> child_member list \<Rightarrow> child_member list" where
  "update_member i f [] = []"
| "update_member i f (c # cs) = (if cm_child_attempt_id c = i then f c # cs else c # update_member i f cs)"

definition add_child :: "attachment \<Rightarrow> child_member \<Rightarrow> attachment \<times> bool" where
  "add_child s c =
     (if find_member s (cm_child_attempt_id c) \<noteq> None then (s, False)
      else (s\<lparr>at_children := at_children s @ [c]\<rparr>, True))"

datatype close_child_result = Close_Closed | Close_ClosedAttachmentDisconnected | Close_NotFound

definition close_child :: "attachment \<Rightarrow> string \<Rightarrow> attachment \<times> close_child_result" where
  "close_child s i =
     (case find_member s i of
        None \<Rightarrow> (s, Close_NotFound)
      | Some child \<Rightarrow>
          let was_active = member_is_active child;
              s = s\<lparr>at_children := update_member i (\<lambda>c. c\<lparr>cm_state := Member_Closed\<rparr>) (at_children s)\<rparr> in
          (s, if was_active \<and> count_active s = 0 then Close_ClosedAttachmentDisconnected else Close_Closed))"

datatype child_callback_result = Callback_Valid | Callback_Stale | Callback_Unknown

definition verify_child_callback :: "attachment \<Rightarrow> string \<Rightarrow> u64 \<Rightarrow> string \<Rightarrow> child_callback_result" where
  "verify_child_callback s i generation epoch =
     (case find_member s i of
        None \<Rightarrow> Callback_Unknown
      | Some child \<Rightarrow>
          if cm_state child = Member_Closed then Callback_Stale
          else if cm_generation child \<noteq> generation then Callback_Stale
          else if cm_transport_epoch child \<noteq> epoch then Callback_Stale
          else Callback_Valid)"

definition has_active_children :: "attachment \<Rightarrow> bool" where
  "has_active_children s \<longleftrightarrow> count_active s > 0"

definition lease_active_children :: "attachment \<Rightarrow> child_member list" where
  "lease_active_children s =
     sort_key cm_child_attempt_id (filter (\<lambda>c. cm_state c = Member_Active \<or> cm_state c = Member_Draining) (at_children s))"

definition build_lease_children :: "(bytes \<Rightarrow> string) \<Rightarrow> attachment \<Rightarrow> lease_child list" where
  "build_lease_children b64 s =
     map (\<lambda>c.
       \<lparr>lc_child_attempt_id = cm_child_attempt_id c, lc_transport_epoch = cm_transport_epoch c,
        lc_transport = (case cm_transport c of Member_WebRtc \<Rightarrow> Lease_WebRtc | Member_WebSocket \<Rightarrow> Lease_WebSocket),
        lc_lifecycle = (case cm_state c of
            Member_Active \<Rightarrow> Child_Current | Member_Draining \<Rightarrow> Child_Draining | _ \<Rightarrow> Child_Current),
        lc_final_proof_set_digest = b64 (be256 (cm_final_proof_set_digest c))\<rparr>) (lease_active_children s)"

subsection \<open>Control events\<close>

datatype apply_result =
    Applied | DuplicateIdempotent | Apply_Conflict | SequenceGap | EpochRegression | BadSignature
  | Apply_UnknownKind | MalformedPayload

definition close_open :: "child_member \<Rightarrow> child_member" where
  "close_open c = (if member_is_open c then c\<lparr>cm_state := Member_Closed\<rparr> else c)"

definition drain_open :: "child_member \<Rightarrow> child_member" where
  "drain_open c = (if member_is_open c then c\<lparr>cm_state := Member_Draining\<rparr> else c)"

definition sever :: "attachment \<Rightarrow> attachment" where
  "sever s = s\<lparr>at_children := map close_open (at_children s), at_current_lease_id := None, at_mobile_ui_state := Ui_AccessRevoked\<rparr>"

text \<open>The match over the eight kinds.\<close>

fun apply_payload :: "attachment \<Rightarrow> event_header \<Rightarrow> event_payload \<Rightarrow> attachment \<times> apply_result" where
  "apply_payload s h (Ev_LeaseRefresh lease_jws) = (s\<lparr>at_pending_lease_refresh_jws := Some lease_jws\<rparr>, Applied)"
| "apply_payload s h (Ev_PolicyNarrowed previous new_digest bits) = (s\<lparr>at_required_policy_digest := Some new_digest\<rparr>, Applied)"
| "apply_payload s h (Ev_DeviceRevoked i g) = (sever s, Applied)"
| "apply_payload s h (Ev_InstanceRevoked i g) = (sever s, Applied)"
| "apply_payload s h (Ev_AttachmentRevoked i reason) = (sever s, Applied)"
| "apply_payload s h (Ev_TenantAuthorityChanged previous new_epoch ring) =
     (if eh_authority_epoch h \<noteq> new_epoch then (s\<lparr>at_operations_paused := True\<rparr>, MalformedPayload) else (s, Applied))"
| "apply_payload s h (Ev_AuthorityStatus g jws) = (s, Applied)"
| "apply_payload s h (Ev_Drain deadline reason) =
     (s\<lparr>at_drain_deadline := Some deadline, at_children := map drain_open (at_children s)\<rparr>, Applied)"

definition record_event :: "attachment \<Rightarrow> event_header \<Rightarrow> digest32 \<Rightarrow> attachment" where
  "record_event s h byte_hash =
     s\<lparr>at_control_event_hashes := (at_control_event_hashes s)(eh_event_id h \<mapsto> byte_hash),
       at_last_applied_control_seq := eh_control_seq h, at_last_applied_policy_epoch := eh_policy_epoch h,
       at_last_applied_authority_epoch := eh_authority_epoch h\<rparr>"

definition apply_control_event :: "(bytes \<Rightarrow> digest32) \<Rightarrow> attachment \<Rightarrow> bytes \<Rightarrow> attachment \<times> apply_result" where
  "apply_control_event sha s event_bytes =
     (case event_decode sha event_bytes of
        Inl e \<Rightarrow> (s\<lparr>at_operations_paused := True\<rparr>, MalformedPayload)
      | Inr event \<Rightarrow>
        let header = ce_header event; byte_hash = control_event_byte_hash sha event_bytes in
        (case at_control_event_hashes s (eh_event_id header) of
           Some existing_hash \<Rightarrow>
             if existing_hash = byte_hash then (s, DuplicateIdempotent)
             else (s\<lparr>at_operations_paused := True\<rparr>, Apply_Conflict)
         | None \<Rightarrow>
             let expected_seq = at_last_applied_control_seq s + 1 in
             if eh_control_seq header > expected_seq then (s\<lparr>at_operations_paused := True\<rparr>, SequenceGap)
             else if eh_policy_epoch header < at_last_applied_policy_epoch s
                 \<or> eh_authority_epoch header < at_last_applied_authority_epoch s
             then (s\<lparr>at_operations_paused := True\<rparr>, EpochRegression)
             else apply_payload (record_event s header byte_hash) header (ce_payload event)))"

fun reconcile_authoritative_replay ::
    "(bytes \<Rightarrow> digest32) \<Rightarrow> attachment \<Rightarrow> control_event list \<Rightarrow> attachment \<times> apply_result" where
  "reconcile_authoritative_replay sha s [] = (s\<lparr>at_operations_paused := False\<rparr>, Applied)"
| "reconcile_authoritative_replay sha s (event # page) =
     (let bs = event_encode sha event; byte_hash = control_event_byte_hash sha bs in
      case at_control_event_hashes s (eh_event_id (ce_header event)) of
        Some existing \<Rightarrow>
          if existing = byte_hash then reconcile_authoritative_replay sha s page else (s, Apply_Conflict)
      | None \<Rightarrow>
          if eh_control_seq (ce_header event) \<noteq> at_last_applied_control_seq s + 1 then (s, SequenceGap)
          else
            let was_paused = at_operations_paused s in
            (case apply_control_event sha (s\<lparr>at_operations_paused := False\<rparr>) bs of
               (s, outcome) \<Rightarrow>
                 if outcome \<noteq> Applied
                 then (s\<lparr>at_operations_paused := was_paused \<or> at_operations_paused s\<rparr>, outcome)
                 else reconcile_authoritative_replay sha s page))"

subsection \<open>Replay pages of control events\<close>

definition REMOTE_CONTROL_EVENT_REPLAY_MAX_EVENTS :: nat where "REMOTE_CONTROL_EVENT_REPLAY_MAX_EVENTS = 64"
definition REMOTE_CONTROL_EVENT_REPLAY_MAX_BYTES :: nat where "REMOTE_CONTROL_EVENT_REPLAY_MAX_BYTES = 512 * 1024"

record stream_scope =
  ss_daemon_instance_protocol_id :: id16
  ss_daemon_certificate_generation :: u64

record verified_event =
  ve_control_seq :: u64
  ve_event_id :: id16
  ve_event :: control_event

record replay_page =
  pg_events :: "verified_event list"
  pg_high_water_seq :: u64
  pg_truncated :: bool

datatype replay_error = Replay_Unavailable | Replay_Unauthorized | Replay_Malformed | Replay_Conflict

definition validate_caps :: "(bytes \<Rightarrow> digest32) \<Rightarrow> replay_page \<Rightarrow> replay_error + unit" where
  "validate_caps sha p =
     (if length (pg_events p) > REMOTE_CONTROL_EVENT_REPLAY_MAX_EVENTS then Inl Replay_Malformed
      else if sum_list (map (\<lambda>e. length (event_encode sha (ve_event e))) (pg_events p)) > REMOTE_CONTROL_EVENT_REPLAY_MAX_BYTES
      then Inl Replay_Malformed else Inr ())"

record memory_source =
  ms_scope :: "stream_scope option"
  ms_events :: "verified_event list"

definition memory_source_new :: "stream_scope \<Rightarrow> verified_event list \<Rightarrow> memory_source" where
  "memory_source_new scope events = \<lparr>ms_scope = Some scope, ms_events = events\<rparr>"

definition read_page :: "(bytes \<Rightarrow> digest32) \<Rightarrow> memory_source \<Rightarrow> stream_scope \<Rightarrow> u64 \<Rightarrow> replay_error + replay_page" where
  "read_page sha src scope after_seq =
     (if ms_scope src \<noteq> Some scope then Inl Replay_Unauthorized
      else
        let events = sort_key ve_control_seq (filter (\<lambda>e. ve_control_seq e > after_seq) (ms_events src));
            truncated = (length events > REMOTE_CONTROL_EVENT_REPLAY_MAX_EVENTS);
            events = take REMOTE_CONTROL_EVENT_REPLAY_MAX_EVENTS events;
            page = \<lparr>pg_events = events,
                    pg_high_water_seq = (if events = [] then after_seq else ve_control_seq (last events)),
                    pg_truncated = truncated\<rparr> in
        rbind (validate_caps sha page) (\<lambda>_. Inr page))"

subsection \<open>The authorization barrier\<close>

record barrier =
  ba_current_lease_id :: "string option"
  ba_operations_paused :: bool
  ba_next_operation_seq :: u64

definition barrier_new :: barrier where
  "barrier_new = \<lparr>ba_current_lease_id = None, ba_operations_paused = False, ba_next_operation_seq = 1\<rparr>"

datatype barrier_error = NoCurrentLease | OperationsPaused

record barrier_admission = bd_recorded_policy_snapshot_seq :: "u64 option"

definition barrier_admit :: "barrier \<Rightarrow> bool \<Rightarrow> string \<Rightarrow> barrier \<times> (barrier_error + barrier_admission)" where
  "barrier_admit b is_mutation lease_id =
     (if ba_current_lease_id b \<noteq> Some lease_id then (b, Inl NoCurrentLease)
      else if ba_operations_paused b then (b, Inl OperationsPaused)
      else if is_mutation
      then (b\<lparr>ba_next_operation_seq := ba_next_operation_seq b + 1\<rparr>,
            Inr \<lparr>bd_recorded_policy_snapshot_seq = Some (ba_next_operation_seq b)\<rparr>)
      else (b, Inr \<lparr>bd_recorded_policy_snapshot_seq = None\<rparr>))"

datatype event_before_request_outcome = RejectedBeforeAdmission

definition event_before_request :: "operation_class \<Rightarrow> event_before_request_outcome" where
  "event_before_request c = RejectedBeforeAdmission"

definition request_before_event :: "operation_class \<Rightarrow> bool \<Rightarrow> bool \<Rightarrow> revocation_disposition \<times> long_running" where
  "request_before_event c already_reserved already_dispatched = revocation_disposition_for c already_reserved already_dispatched"

subsection \<open>Reattaching\<close>

record outbox_ref =
  or_event_seq :: u64
  or_delivery_id :: string
  or_kind :: string
  or_canonical_payload :: bytes

datatype reattach_response =
    Reattach_Replay u8 "outbox_event list" string bool
  | Reattach_SnapshotRequired u8 string bytes string string

datatype reattach_error = ReplayPageExceedsBounds

definition u64_to_string :: "u64 \<Rightarrow> string" where "u64_to_string v = show_nat (unat v)"

definition to_proto_event :: "outbox_ref \<Rightarrow> outbox_event" where
  "to_proto_event e =
     \<lparr>oe_event_seq = u64_to_string (or_event_seq e), oe_delivery_id = or_delivery_id e, oe_kind = or_kind e,
      oe_canonical_payload = or_canonical_payload e\<rparr>"

definition process_reattach ::
    "u64 \<Rightarrow> u64 \<Rightarrow> u64 \<Rightarrow> outbox_ref list \<Rightarrow> string \<Rightarrow> bytes \<Rightarrow> reattach_error + reattach_response" where
  "process_reattach event_cursor compacted_through high_water outbox_events snapshot_id snapshot_payload =
     (if event_cursor < compacted_through
      then Inr (Reattach_SnapshotRequired 1 snapshot_id snapshot_payload (u64_to_string compacted_through) (u64_to_string high_water))
      else
        let later = filter (\<lambda>e. or_event_seq e > event_cursor) outbox_events;
            proto_events = map to_proto_event (take REMOTE_REPLAY_MAX_EVENTS_PER_PAGE later) in
        (case validate_replay_page proto_events of
           Inl _ \<Rightarrow> Inl ReplayPageExceedsBounds
         | Inr _ \<Rightarrow>
             Inr (Reattach_Replay 1 proto_events (u64_to_string high_water) (length later > REMOTE_REPLAY_MAX_EVENTS_PER_PAGE))))"

definition resolve_pending_operation :: "operation_status \<Rightarrow> operation_class \<Rightarrow> recovery_action" where
  "resolve_pending_operation st c = operation_recovery_action st c"

subsection \<open>Mobile states and lease replacement\<close>

definition mobile_background :: "attachment \<Rightarrow> attachment" where
  "mobile_background s =
     s\<lparr>at_backgrounded := True, at_children := map close_open (at_children s), at_mobile_ui_state := Ui_Reconnecting\<rparr>"

definition mobile_foreground :: "attachment \<Rightarrow> attachment" where
  "mobile_foreground s = s\<lparr>at_backgrounded := False, at_mobile_ui_state := Ui_Reconnecting\<rparr>"

definition mobile_reauthentication_required :: "attachment \<Rightarrow> attachment" where
  "mobile_reauthentication_required s = s\<lparr>at_mobile_ui_state := Ui_ReauthenticationRequired\<rparr>"

definition mobile_snapshot_required :: "attachment \<Rightarrow> attachment" where
  "mobile_snapshot_required s = s\<lparr>at_mobile_ui_state := Ui_SnapshotRequired\<rparr>"

definition mobile_outcome_unknown :: "attachment \<Rightarrow> attachment" where
  "mobile_outcome_unknown s = s\<lparr>at_mobile_ui_state := Ui_OutcomeUnknown\<rparr>"

definition mobile_access_revoked :: "attachment \<Rightarrow> attachment" where
  "mobile_access_revoked s = s\<lparr>at_mobile_ui_state := Ui_AccessRevoked\<rparr>"

definition mobile_session_terminal :: "attachment \<Rightarrow> attachment" where
  "mobile_session_terminal s = s\<lparr>at_mobile_ui_state := Ui_SessionTerminal\<rparr>"

datatype replacement_error = Lease_GenerationNotMonotonic

definition replace_current_lease :: "attachment \<Rightarrow> string \<Rightarrow> u64 \<Rightarrow> digest32 \<Rightarrow> attachment \<times> (replacement_error + unit)" where
  "replace_current_lease s new_lease_id new_generation new_jws_digest =
     (if new_generation \<le> at_current_lease_generation s then (s, Inl Lease_GenerationNotMonotonic)
      else (s\<lparr>at_current_lease_id := Some new_lease_id, at_current_lease_generation := new_generation,
              at_current_lease_jws_digest := new_jws_digest\<rparr>, Inr ()))"

subsection \<open>Calls\<close>

text \<open>The calls on an attachment, and those other than the authoritative replay.\<close>

datatype attachment_call =
    At_AddChild child_member
  | At_CloseChild string
  | At_Apply bytes
  | At_Reconcile "control_event list"
  | At_Background
  | At_Foreground
  | At_Reauthenticate
  | At_SnapshotRequired
  | At_OutcomeUnknown
  | At_AccessRevoked
  | At_SessionTerminal
  | At_ReplaceLease string u64 digest32
  | At_Deliver string

fun attachment_step :: "(bytes \<Rightarrow> digest32) \<Rightarrow> attachment \<Rightarrow> attachment_call \<Rightarrow> attachment" where
  "attachment_step sha s (At_AddChild c) = fst (add_child s c)"
| "attachment_step sha s (At_CloseChild i) = fst (close_child s i)"
| "attachment_step sha s (At_Apply bs) = fst (apply_control_event sha s bs)"
| "attachment_step sha s (At_Reconcile page) = fst (reconcile_authoritative_replay sha s page)"
| "attachment_step sha s At_Background = mobile_background s"
| "attachment_step sha s At_Foreground = mobile_foreground s"
| "attachment_step sha s At_Reauthenticate = mobile_reauthentication_required s"
| "attachment_step sha s At_SnapshotRequired = mobile_snapshot_required s"
| "attachment_step sha s At_OutcomeUnknown = mobile_outcome_unknown s"
| "attachment_step sha s At_AccessRevoked = mobile_access_revoked s"
| "attachment_step sha s At_SessionTerminal = mobile_session_terminal s"
| "attachment_step sha s (At_ReplaceLease i g d) = fst (replace_current_lease s i g d)"
| "attachment_step sha s (At_Deliver i) = s\<lparr>at_delivery_dedupe := fst (mark_delivered (at_delivery_dedupe s) i)\<rparr>"

section \<open>Applying events\<close>

text \<open>What a successfully checked event does.\<close>

definition effect :: "(bytes \<Rightarrow> digest32) \<Rightarrow> attachment \<Rightarrow> control_event \<Rightarrow> attachment \<times> apply_result" where
  "effect sha s e =
     apply_payload (record_event s (ce_header e) (control_event_byte_hash sha (event_encode sha e))) (ce_header e) (ce_payload e)"

definition in_order :: "attachment \<Rightarrow> control_event \<Rightarrow> bool" where
  "in_order s e \<longleftrightarrow> \<not> eh_control_seq (ce_header e) > at_last_applied_control_seq s + 1
     \<and> \<not> eh_policy_epoch (ce_header e) < at_last_applied_policy_epoch s
     \<and> \<not> eh_authority_epoch (ce_header e) < at_last_applied_authority_epoch s"

lemma decode_encoded: "event_ok sha e \<Longrightarrow> event_decode sha (event_encode sha e) = Inr e"
  using event_codec.dec_enc [of sha e] by simp

lemma apply_fresh:
  assumes "event_ok sha e" and "at_control_event_hashes s (eh_event_id (ce_header e)) = None" and "in_order s e"
  shows "apply_control_event sha s (event_encode sha e) = effect sha s e"
  using assms by (simp add: apply_control_event_def decode_encoded effect_def in_order_def Let_def)

lemma sever_fields [simp]:
  "at_control_event_hashes (sever s) = at_control_event_hashes s"
  "at_last_applied_control_seq (sever s) = at_last_applied_control_seq s"
  "at_last_applied_policy_epoch (sever s) = at_last_applied_policy_epoch s"
  "at_last_applied_authority_epoch (sever s) = at_last_applied_authority_epoch s"
  "at_operations_paused (sever s) = at_operations_paused s"
  "at_children (sever s) = map close_open (at_children s)"
  by (simp_all add: sever_def)

lemma apply_payload_fields:
  "at_control_event_hashes (fst (apply_payload s h p)) = at_control_event_hashes s"
  "at_last_applied_control_seq (fst (apply_payload s h p)) = at_last_applied_control_seq s"
  "at_last_applied_policy_epoch (fst (apply_payload s h p)) = at_last_applied_policy_epoch s"
  "at_last_applied_authority_epoch (fst (apply_payload s h p)) = at_last_applied_authority_epoch s"
  by (cases p; simp)+

lemma apply_payload_paused:
  "at_operations_paused (fst (apply_payload s h p)) \<longleftrightarrow> at_operations_paused s \<or> snd (apply_payload s h p) \<noteq> Applied"
  by (cases p) auto

lemma record_event_fields [simp]:
  "at_control_event_hashes (record_event s h d) = (at_control_event_hashes s)(eh_event_id h \<mapsto> d)"
  "at_last_applied_control_seq (record_event s h d) = eh_control_seq h"
  "at_last_applied_policy_epoch (record_event s h d) = eh_policy_epoch h"
  "at_last_applied_authority_epoch (record_event s h d) = eh_authority_epoch h"
  "at_operations_paused (record_event s h d) = at_operations_paused s"
  "at_children (record_event s h d) = at_children s"
  by (simp_all add: record_event_def)

lemma effect_fields:
  "at_control_event_hashes (fst (effect sha s e))
     = (at_control_event_hashes s)(eh_event_id (ce_header e) \<mapsto> sha (event_encode sha e))"
  "at_last_applied_control_seq (fst (effect sha s e)) = eh_control_seq (ce_header e)"
  "at_last_applied_policy_epoch (fst (effect sha s e)) = eh_policy_epoch (ce_header e)"
  "at_last_applied_authority_epoch (fst (effect sha s e)) = eh_authority_epoch (ce_header e)"
  "at_operations_paused (fst (effect sha s e)) \<longleftrightarrow> at_operations_paused s \<or> snd (effect sha s e) \<noteq> Applied"
  by (simp_all add: effect_def apply_payload_fields apply_payload_paused control_event_byte_hash_def)

text \<open>The only event that is refused after it was recorded.\<close>

fun tenant_consistent :: "event_header \<Rightarrow> event_payload \<Rightarrow> bool" where
  "tenant_consistent h (Ev_TenantAuthorityChanged previous new_epoch ring) \<longleftrightarrow> eh_authority_epoch h = new_epoch"
| "tenant_consistent h _ \<longleftrightarrow> True"

lemma effect_applied: "snd (effect sha s e) = Applied \<longleftrightarrow> tenant_consistent (ce_header e) (ce_payload e)"
  unfolding effect_def by (cases "ce_payload e") auto

section \<open>The sticky pause\<close>

fun is_reconcile :: "attachment_call \<Rightarrow> bool" where
  "is_reconcile (At_Reconcile page) \<longleftrightarrow> True"
| "is_reconcile _ \<longleftrightarrow> False"

lemma apply_paused: "at_operations_paused s \<Longrightarrow> at_operations_paused (fst (apply_control_event sha s bs))"
  by (simp add: apply_control_event_def apply_payload_paused Let_def split: sum.split option.split)

lemma step_paused: "at_operations_paused s \<Longrightarrow> \<not> is_reconcile c \<Longrightarrow> at_operations_paused (attachment_step sha s c)"
  by (cases c)
    (auto simp: apply_paused add_child_def close_child_def mobile_background_def mobile_foreground_def
      mobile_reauthentication_required_def mobile_snapshot_required_def mobile_outcome_unknown_def
      mobile_access_revoked_def mobile_session_terminal_def replace_current_lease_def Let_def split: option.split)

interpretation pause: guarded_machine "attachment_step sha" "\<lambda>c. \<not> is_reconcile c" at_operations_paused for sha
  by unfold_locales (rule step_paused)

section \<open>Recorded events\<close>

lemma apply_hashes: "at_control_event_hashes s \<subseteq>\<^sub>m at_control_event_hashes (fst (apply_control_event sha s bs))"
  by (auto simp: apply_control_event_def apply_payload_fields Let_def map_le_def split: sum.split option.split)

lemma reconcile_hashes: "at_control_event_hashes s \<subseteq>\<^sub>m at_control_event_hashes (fst (reconcile_authoritative_replay sha s page))"
proof (induction page arbitrary: s)
  case (Cons e page)
  obtain s1 r where a: "apply_control_event sha (s\<lparr>at_operations_paused := False\<rparr>) (event_encode sha e) = (s1, r)" by fastforce
  then have "at_control_event_hashes s \<subseteq>\<^sub>m at_control_event_hashes s1"
    using apply_hashes [of "s\<lparr>at_operations_paused := False\<rparr>" sha "event_encode sha e"] by simp
  with Cons.IH [of s] Cons.IH [of s1] a show ?case
    by (auto simp: Let_def split: option.split intro: map_le_trans)
qed simp

lemma step_hashes: "at_control_event_hashes s \<subseteq>\<^sub>m at_control_event_hashes (attachment_step sha s c)"
  by (cases c)
    (auto simp: apply_hashes reconcile_hashes add_child_def close_child_def mobile_background_def mobile_foreground_def
      mobile_reauthentication_required_def mobile_snapshot_required_def mobile_outcome_unknown_def
      mobile_access_revoked_def mobile_session_terminal_def replace_current_lease_def Let_def split: option.split)

interpretation recorded: monotone_machine "attachment_step sha" "\<lambda>_. True" "\<lambda>_. True"
    "\<lambda>s s'. at_control_event_hashes s \<subseteq>\<^sub>m at_control_event_hashes s'" for sha
  by unfold_locales (auto intro: step_hashes map_le_trans)

lemma applied_recorded:
  assumes "apply_control_event sha s bs = (s1, Applied)"
  obtains e where "event_decode sha bs = Inr e" and "at_control_event_hashes s1 (eh_event_id (ce_header e)) = Some (sha bs)"
proof (cases "event_decode sha bs")
  case (Inr e)
  have "at_control_event_hashes s1 (eh_event_id (ce_header e)) = Some (sha bs)"
    using assms Inr apply_payload_fields(1) [of "record_event s (ce_header e) (sha bs)" "ce_header e" "ce_payload e"]
    by (auto simp: apply_control_event_def Let_def control_event_byte_hash_def split: option.splits if_splits)
  with Inr that show ?thesis by blast
qed (use assms in \<open>simp add: apply_control_event_def\<close>)

section \<open>Members and leases\<close>

definition member_ids :: "attachment \<Rightarrow> string list" where
  "member_ids s = map cm_child_attempt_id (at_children s)"

lemma close_open_id [simp]: "cm_child_attempt_id (close_open c) = cm_child_attempt_id c"
  by (simp add: close_open_def)

lemma drain_open_id [simp]: "cm_child_attempt_id (drain_open c) = cm_child_attempt_id c"
  by (simp add: drain_open_def)

lemma update_member_ids:
  "(\<And>c. cm_child_attempt_id (f c) = cm_child_attempt_id c) \<Longrightarrow>
   map cm_child_attempt_id (update_member i f cs) = map cm_child_attempt_id cs"
  by (induction cs) auto

lemma apply_ids: "member_ids (fst (apply_control_event sha s bs)) = member_ids s"
proof -
  have "member_ids (fst (apply_payload s h p)) = member_ids s" for s h p
    by (cases p) (auto simp: member_ids_def)
  moreover have "member_ids (record_event s h d) = member_ids s" for h d by (simp add: member_ids_def)
  moreover have "member_ids (s\<lparr>at_operations_paused := b\<rparr>) = member_ids s" for b by (simp add: member_ids_def)
  ultimately show ?thesis by (simp add: apply_control_event_def Let_def split: sum.split option.split)
qed

lemma reconcile_ids: "member_ids (fst (reconcile_authoritative_replay sha s page)) = member_ids s"
proof (induction page arbitrary: s)
  case (Cons e page)
  have p: "member_ids (s\<lparr>at_operations_paused := b\<rparr>) = member_ids s" for s b by (simp add: member_ids_def)
  obtain s1 r where a: "apply_control_event sha (s\<lparr>at_operations_paused := False\<rparr>) (event_encode sha e) = (s1, r)" by fastforce
  then have "member_ids s1 = member_ids s"
    using apply_ids [of sha "s\<lparr>at_operations_paused := False\<rparr>" "event_encode sha e"] by (simp add: p)
  with Cons.IH [of s] Cons.IH [of s1] a show ?case by (auto simp: Let_def p split: option.split)
qed (simp add: member_ids_def)

lemma step_distinct: "distinct (member_ids s) \<Longrightarrow> distinct (member_ids (attachment_step sha s c))"
proof (cases c)
  case (At_AddChild m)
  assume "distinct (member_ids s)"
  then show ?thesis using At_AddChild
    by (auto simp: add_child_def member_ids_def find_member_def find_None_iff)
next
  case (At_CloseChild i)
  assume "distinct (member_ids s)"
  then show ?thesis using At_CloseChild
    by (simp add: close_child_def member_ids_def update_member_ids Let_def split: option.split)
next
  case (At_Apply bs)
  then show "distinct (member_ids s) \<Longrightarrow> ?thesis" by (simp add: apply_ids)
next
  case (At_Reconcile page)
  then show "distinct (member_ids s) \<Longrightarrow> ?thesis" by (simp add: reconcile_ids)
qed (auto simp: member_ids_def mobile_background_def mobile_foreground_def comp_def
      mobile_reauthentication_required_def mobile_snapshot_required_def mobile_outcome_unknown_def
      mobile_access_revoked_def mobile_session_terminal_def replace_current_lease_def)

interpretation members: guarded_machine "attachment_step sha" "\<lambda>_. True" "\<lambda>s. distinct (member_ids s)" for sha
  by unfold_locales (rule step_distinct)

lemma children_sorted_strict:
  "sorted_wrt (<) (map lc_child_attempt_id cs) \<Longrightarrow> children_sorted None cs"
  using children_sorted_iff [of None cs] by (auto simp: sorted_wrt_map)

section \<open>Authoritative replay\<close>

text \<open>A page that continues a cursor: fresh events in sequence, with epochs that never fall.\<close>

fun continues :: "(bytes \<Rightarrow> digest32) \<Rightarrow> id16 set \<Rightarrow> u64 \<Rightarrow> u64 \<Rightarrow> u64 \<Rightarrow> control_event list \<Rightarrow> bool" where
  "continues sha seen seq policy authority [] \<longleftrightarrow> True"
| "continues sha seen seq policy authority (e # page) \<longleftrightarrow>
     event_ok sha e \<and> eh_event_id (ce_header e) \<notin> seen \<and> eh_control_seq (ce_header e) = seq + 1
     \<and> policy \<le> eh_policy_epoch (ce_header e) \<and> authority \<le> eh_authority_epoch (ce_header e)
     \<and> tenant_consistent (ce_header e) (ce_payload e)
     \<and> continues sha (insert (eh_event_id (ce_header e)) seen) (seq + 1) (eh_policy_epoch (ce_header e))
         (eh_authority_epoch (ce_header e)) page"

definition cursor_continues :: "(bytes \<Rightarrow> digest32) \<Rightarrow> attachment \<Rightarrow> control_event list \<Rightarrow> bool" where
  "cursor_continues sha s page \<longleftrightarrow>
     continues sha (dom (at_control_event_hashes s)) (at_last_applied_control_seq s) (at_last_applied_policy_epoch s)
       (at_last_applied_authority_epoch s) page"

definition replayed :: "(bytes \<Rightarrow> digest32) \<Rightarrow> attachment \<Rightarrow> control_event list \<Rightarrow> attachment" where
  "replayed sha s page = foldl (\<lambda>s e. fst (effect sha (s\<lparr>at_operations_paused := False\<rparr>) e)) s page"

lemma cursor_continues_Cons:
  assumes "cursor_continues sha s (e # page)"
  shows "event_ok sha e" and "at_control_event_hashes s (eh_event_id (ce_header e)) = None"
    and "eh_control_seq (ce_header e) = at_last_applied_control_seq s + 1"
    and "in_order (s\<lparr>at_operations_paused := False\<rparr>) e" and "snd (effect sha (s\<lparr>at_operations_paused := False\<rparr>) e) = Applied"
    and "cursor_continues sha (fst (effect sha (s\<lparr>at_operations_paused := False\<rparr>) e)) page"
  using assms
  by (auto simp: cursor_continues_def in_order_def effect_applied effect_fields not_less domIff dom_fun_upd)

lemma reconcile_Cons:
  assumes "event_ok sha e" and "at_control_event_hashes s (eh_event_id (ce_header e)) = None"
    and "eh_control_seq (ce_header e) = at_last_applied_control_seq s + 1"
    and "in_order (s\<lparr>at_operations_paused := False\<rparr>) e" and "snd (effect sha (s\<lparr>at_operations_paused := False\<rparr>) e) = Applied"
  shows "reconcile_authoritative_replay sha s (e # page)
    = reconcile_authoritative_replay sha (fst (effect sha (s\<lparr>at_operations_paused := False\<rparr>) e)) page"
proof -
  have "apply_control_event sha (s\<lparr>at_operations_paused := False\<rparr>) (event_encode sha e)
      = (fst (effect sha (s\<lparr>at_operations_paused := False\<rparr>) e), Applied)"
    using apply_fresh [OF assms(1) _ assms(4)] assms(2,5) by (simp add: prod_eq_iff)
  then show ?thesis using assms(2,3) by (simp add: Let_def)
qed

lemma reconcile_continues:
  assumes "cursor_continues sha s page"
  shows "reconcile_authoritative_replay sha s page = ((replayed sha s page)\<lparr>at_operations_paused := False\<rparr>, Applied)"
  using assms
proof (induction page arbitrary: s)
  case (Cons e page)
  note c = cursor_continues_Cons [OF Cons.prems]
  show ?case using reconcile_Cons [OF c(1-5)] Cons.IH [OF c(6)] by (simp add: replayed_def)
qed (simp add: replayed_def)

lemma replayed_cursor:
  assumes "cursor_continues sha s page"
  shows "at_last_applied_control_seq (replayed sha s page) = at_last_applied_control_seq s + of_nat (length page)
    \<and> (\<forall>e \<in> set page. at_control_event_hashes (replayed sha s page) (eh_event_id (ce_header e)) = Some (sha (event_encode sha e)))
    \<and> at_control_event_hashes s \<subseteq>\<^sub>m at_control_event_hashes (replayed sha s page)"
  using assms
proof (induction page arbitrary: s)
  case (Cons e page)
  let ?s = "fst (effect sha (s\<lparr>at_operations_paused := False\<rparr>) e)"
  note c = cursor_continues_Cons [OF Cons.prems]
  note ih = Cons.IH [OF c(6)]
  have r: "replayed sha s (e # page) = replayed sha ?s page" by (simp add: replayed_def)
  have h: "at_control_event_hashes ?s = (at_control_event_hashes s)(eh_event_id (ce_header e) \<mapsto> sha (event_encode sha e))"
    by (simp add: effect_fields)
  have "at_control_event_hashes s \<subseteq>\<^sub>m at_control_event_hashes ?s" using c(2) by (auto simp: h map_le_def)
  then have "at_control_event_hashes s \<subseteq>\<^sub>m at_control_event_hashes (replayed sha ?s page)" using ih map_le_trans by blast
  moreover have "at_control_event_hashes (replayed sha ?s page) (eh_event_id (ce_header e)) = Some (sha (event_encode sha e))"
  proof -
    have "at_control_event_hashes ?s (eh_event_id (ce_header e)) = Some (sha (event_encode sha e))" by (simp add: h)
    then show ?thesis using ih by (metis domI map_le_def)
  qed
  ultimately show ?case unfolding r using ih c(3) by (simp add: effect_fields(2))
qed (simp add: replayed_def)

section \<open>Reattach pages\<close>

text \<open>
  A client that reattaches until no more events remain. Its cursor is the sequence number of the last event it
  received; the fuel bounds the number of requests. The loop is that of a client
  and not part of the daemon.
\<close>

definition after_cursor :: "u64 \<Rightarrow> outbox_ref list \<Rightarrow> outbox_ref list" where
  "after_cursor cursor outbox = filter (\<lambda>e. or_event_seq e > cursor) outbox"

fun reattach_all :: "nat \<Rightarrow> u64 \<Rightarrow> u64 \<Rightarrow> u64 \<Rightarrow> outbox_ref list \<Rightarrow> outbox_event list option" where
  "reattach_all 0 cursor compacted high outbox = None"
| "reattach_all (Suc k) cursor compacted high outbox =
     (case process_reattach cursor compacted high outbox [] [] of
        Inr (Reattach_Replay v events hw has_more) \<Rightarrow>
          if has_more
          then map_option (append events)
            (reattach_all k (or_event_seq (last (take REMOTE_REPLAY_MAX_EVENTS_PER_PAGE (after_cursor cursor outbox)))) compacted high outbox)
          else Some events
      | _ \<Rightarrow> None)"

lemma page_within_bounds:
  assumes "list_all (\<lambda>e. length (or_canonical_payload e) \<le> 8192) es" and "length es \<le> 256"
  shows "validate_replay_page (map to_proto_event es) = Inr ()"
proof -
  have "sum_list (map (\<lambda>e. length (or_canonical_payload e)) es) \<le> length es * 8192"
    using assms(1) by (induction es) auto
  also have "\<dots> \<le> 256 * 8192" using assms(2) by simp
  finally show ?thesis
    using assms(2) by (simp add: validate_replay_page_def REMOTE_REPLAY_MAX_EVENTS_PER_PAGE_def REMOTE_REPLAY_MAX_BYTES_PER_PAGE_def
        to_proto_event_def comp_def)
qed

lemma after_next_cursor:
  assumes "sorted_wrt (<) (map or_event_seq outbox)" and "after_cursor c outbox = es" and "0 < n" and "n < length es"
  shows "after_cursor (or_event_seq (last (take n es))) outbox = drop n es" and "c < or_event_seq (last (take n es))"
proof -
  have s: "sorted_wrt (<) (map or_event_seq es)"
    using assms(1,2) by (auto simp: after_cursor_def sorted_wrt_map sorted_wrt_filter)
  have "take n es \<noteq> []" using assms(3,4) by auto
  then have l: "last (take n es) = es ! (n - 1)" using assms(3,4) by (simp add: last_conv_nth min_def)
  have mem: "es ! (n - 1) \<in> set es" using assms(3,4) by simp
  then show gt: "c < or_event_seq (last (take n es))" using assms(2) unfolding l by (auto simp: after_cursor_def)
  have "after_cursor c' outbox = filter (\<lambda>e. or_event_seq e > c') es" if "c < c'" for c'
    unfolding assms(2) [symmetric] after_cursor_def filter_filter using that by (intro filter_cong) auto
  then have "after_cursor (or_event_seq (last (take n es))) outbox = filter (\<lambda>e. or_event_seq e > or_event_seq (es ! (n - 1))) es"
    using gt unfolding l by blast
  also have "\<dots> = drop n es"
  proof -
    have nth: "or_event_seq (es ! i) < or_event_seq (es ! j)" if "i < j" "j < length es" for i j
      using s that by (simp add: sorted_wrt_iff_nth_less)
    have "\<not> or_event_seq x > or_event_seq (es ! (n - 1))" if x: "x \<in> set (take n es)" for x
    proof -
      from x obtain i where "i < n" "x = es ! i" using assms(4) by (auto simp: in_set_conv_nth)
      moreover from this have "i = n - 1 \<or> (i < n - 1 \<and> n - 1 < length es)" using assms(4) by linarith
      ultimately show ?thesis using nth [of i "n - 1"] less_asym by auto
    qed
    then have "filter (\<lambda>e. or_event_seq e > or_event_seq (es ! (n - 1))) (take n es) = []" by (simp add: filter_empty_conv)
    moreover have "or_event_seq x > or_event_seq (es ! (n - 1))" if x: "x \<in> set (drop n es)" for x
    proof -
      from x obtain i where "i < length es - n" "x = es ! (n + i)" by (auto simp: in_set_conv_nth)
      then show ?thesis using nth [of "n - 1" "n + i"] assms(3) by simp
    qed
    then have "filter (\<lambda>e. or_event_seq e > or_event_seq (es ! (n - 1))) (drop n es) = drop n es" by (simp add: filter_id_conv)
    ultimately show ?thesis by (metis append_take_drop_id filter_append self_append_conv2)
  qed
  finally show "after_cursor (or_event_seq (last (take n es))) outbox = drop n es" .
qed

lemma reattach_all_delivers:
  assumes "sorted_wrt (<) (map or_event_seq outbox)" and small: "list_all (\<lambda>e. length (or_canonical_payload e) \<le> 8192) outbox"
    and "compacted \<le> cursor" and "length (after_cursor cursor outbox) \<le> 256 * k"
  shows "reattach_all (Suc k) cursor compacted high outbox = Some (map to_proto_event (after_cursor cursor outbox))"
  using assms(3,4)
proof (induction k arbitrary: cursor)
  case 0
  then show ?case
    by (simp add: process_reattach_def after_cursor_def [symmetric] Let_def validate_replay_page_def REMOTE_REPLAY_MAX_EVENTS_PER_PAGE_def not_less)
next
  case (Suc k)
  let ?es = "after_cursor cursor outbox"
  have v: "validate_replay_page (map to_proto_event (take 256 ?es)) = Inr ()"
    using small by (intro page_within_bounds) (auto simp: list_all_iff after_cursor_def dest: in_set_takeD)
  have nc: "\<not> cursor < compacted" using Suc.prems(1) by simp
  have p: "process_reattach cursor compacted high outbox [] []
      = Inr (Reattach_Replay 1 (map to_proto_event (take 256 ?es)) (u64_to_string high) (length ?es > 256))"
    using v nc by (simp add: process_reattach_def after_cursor_def [symmetric] Let_def REMOTE_REPLAY_MAX_EVENTS_PER_PAGE_def)
  show ?case
  proof (cases "length ?es > 256")
    case True
    let ?c = "or_event_seq (last (take 256 ?es))"
    note a = after_next_cursor [OF assms(1) refl _ True, simplified]
    have "compacted \<le> ?c" using a(2) Suc.prems(1) by simp
    moreover have "length (after_cursor ?c outbox) \<le> 256 * k" unfolding a(1) using Suc.prems(2) by simp
    ultimately have "reattach_all (Suc k) ?c compacted high outbox = Some (map to_proto_event (drop 256 ?es))"
      using Suc.IH a(1) by simp
    then show ?thesis
      using p True by (simp add: REMOTE_REPLAY_MAX_EVENTS_PER_PAGE_def flip: map_append del: reattach_all.simps(2))
        (simp add: p REMOTE_REPLAY_MAX_EVENTS_PER_PAGE_def flip: map_append)
  next
    case False
    then show ?thesis using p by simp
  qed
qed

section \<open>The barrier\<close>

text \<open>The sequence numbers that a list of requests (whether it mutates, and under which lease) reserves.\<close>

fun barrier_reserved :: "barrier \<Rightarrow> (bool \<times> string) list \<Rightarrow> u64 list" where
  "barrier_reserved b [] = []"
| "barrier_reserved b ((is_mutation, lease_id) # rs) =
     (case barrier_admit b is_mutation lease_id of
        (b, Inr a) \<Rightarrow> (case bd_recorded_policy_snapshot_seq a of Some n \<Rightarrow> n # barrier_reserved b rs | None \<Rightarrow> barrier_reserved b rs)
      | (b, Inl e) \<Rightarrow> barrier_reserved b rs)"

lemma barrier_reserved_eq:
  "barrier_reserved b rs =
     (if ba_operations_paused b then []
      else map (\<lambda>i. ba_next_operation_seq b + of_nat i)
        [0..<length (filter (\<lambda>r. fst r \<and> ba_current_lease_id b = Some (snd r)) rs)])"
proof (induction rs arbitrary: b)
  case (Cons r rs)
  obtain m l where r: "r = (m, l)" by fastforce
  have shift: "map (\<lambda>i. w + of_nat i) [0..<Suc n] = w # map (\<lambda>i. w + 1 + of_nat i) [0..<n]" for w :: u64 and n
    by (rule nth_equalityI) (auto simp: nth_Cons algebra_simps simp del: upt_Suc split: nat.split)
  show ?case
    by (auto simp: r barrier_admit_def Cons.IH shift simp del: upt_Suc)
qed simp

section \<open>Properties\<close>

text \<open>
  C36. A pause is sticky. Whatever calls arrive other than the authoritative replay, in particular any control
  event, operations stay paused.
\<close>

theorem pause_until_replay:
  assumes "at_operations_paused s" and "list_all (\<lambda>c. \<not> is_reconcile c) calls"
  shows "at_operations_paused (foldl (attachment_step sha) s calls)"
  using assms by (rule pause.inv_run)

text \<open>A sealed event of small size.\<close>

definition sample_drain :: "u64 \<Rightarrow> id16 \<Rightarrow> control_event" where
  "sample_drain seq i = event_seal (\<lambda>_. 0) seq i 1 1 1 0 (Ev_Drain 9 0)"

definition sample_attachment :: attachment where
  "sample_attachment = attachment_new ''a'' ''s''"

lemma sample_drain_ok: "seq \<noteq> 0 \<Longrightarrow> i \<noteq> 0 \<Longrightarrow> event_ok (\<lambda>_. 0) (sample_drain seq i)"
  unfolding sample_drain_def by (intro event_seal_ok) simp_all

lemma sample_drain_fields [simp]:
  "eh_control_seq (ce_header (sample_drain seq i)) = seq" "eh_event_id (ce_header (sample_drain seq i)) = i"
  "eh_policy_epoch (ce_header (sample_drain seq i)) = 1" "eh_authority_epoch (ce_header (sample_drain seq i)) = 1"
  "ce_payload (sample_drain seq i) = Ev_Drain 9 0"
  by (simp_all add: sample_drain_def event_seal_def Let_def)

theorem pause_until_replay_witness:
  "at_operations_paused (foldl (attachment_step (\<lambda>_. 0)) (sample_attachment\<lparr>at_operations_paused := True\<rparr>)
     [At_Apply (event_encode (\<lambda>_. 0) (sample_drain 1 5)), At_Foreground])"
  by (rule pause_until_replay) simp_all

text \<open>Whether two byte strings decode to events of the same id.\<close>

definition same_event_id :: "(bytes \<Rightarrow> digest32) \<Rightarrow> bytes \<Rightarrow> bytes \<Rightarrow> bool" where
  "same_event_id sha bs other \<longleftrightarrow>
     (case (event_decode sha bs, event_decode sha other) of
        (Inr e, Inr e') \<Rightarrow> eh_event_id (ce_header e) = eh_event_id (ce_header e')
      | _ \<Rightarrow> False)"

text \<open>
  C37. An event is applied once. Once an event has been applied, then after any further calls the same bytes
  are recognised as a duplicate and change nothing, and other bytes that decode to an event of the same id,
  with another digest, are refused as a conflict that pauses operations and changes nothing else.
\<close>

theorem control_event_applied_once:
  assumes "apply_control_event sha s bs = (s1, Applied)"
  shows "let s2 = foldl (attachment_step sha) s1 calls in apply_control_event sha s2 bs = (s2, DuplicateIdempotent)
     \<and> (same_event_id sha bs other \<and> sha other \<noteq> sha bs \<longrightarrow>
          apply_control_event sha s2 other = (s2\<lparr>at_operations_paused := True\<rparr>, Apply_Conflict))"
proof (rule applied_recorded [OF assms])
  fix e
  assume d: "event_decode sha bs = Inr e" and h: "at_control_event_hashes s1 (eh_event_id (ce_header e)) = Some (sha bs)"
  have "at_control_event_hashes s1 \<subseteq>\<^sub>m at_control_event_hashes (foldl (attachment_step sha) s1 calls)"
    by (rule recorded.below_run) (simp_all add: list_all_iff)
  with h have "at_control_event_hashes (foldl (attachment_step sha) s1 calls) (eh_event_id (ce_header e)) = Some (sha bs)"
    by (metis domI map_le_def)
  with d show ?thesis
    by (auto simp: apply_control_event_def Let_def control_event_byte_hash_def same_event_id_def split: sum.splits)
qed

text \<open>Two events of one id that differ in length, under a digest that tells lengths apart.\<close>

definition length_digest :: "bytes \<Rightarrow> digest32" where
  "length_digest bs = of_nat (length bs)"

definition sample_pair :: "control_event \<times> control_event" where
  "sample_pair = (event_seal length_digest 1 5 1 1 1 0 (Ev_Drain 9 0), event_seal length_digest 1 5 1 1 1 0 (Ev_DeviceRevoked 3 1))"

lemma sample_pair_ok:
  "event_ok length_digest (fst sample_pair)" "event_ok length_digest (snd sample_pair)"
  "length_digest (event_encode length_digest (snd sample_pair)) \<noteq> length_digest (event_encode length_digest (fst sample_pair))"
  "same_event_id length_digest (event_encode length_digest (fst sample_pair)) (event_encode length_digest (snd sample_pair))"
proof -
  show ok: "event_ok length_digest (fst sample_pair)" "event_ok length_digest (snd sample_pair)"
    unfolding sample_pair_def fst_conv snd_conv by (intro event_seal_ok; simp)+
  show "length_digest (event_encode length_digest (snd sample_pair)) \<noteq> length_digest (event_encode length_digest (fst sample_pair))"
    by (simp add: sample_pair_def length_digest_def event_encode_def event_seal_def event_header_encode_def Let_def)
  show "same_event_id length_digest (event_encode length_digest (fst sample_pair)) (event_encode length_digest (snd sample_pair))"
    using ok by (simp add: same_event_id_def decode_encoded) (simp add: sample_pair_def event_seal_def Let_def)
qed

theorem control_event_applied_once_witness:
  "\<exists>s1. apply_control_event length_digest sample_attachment (event_encode length_digest (fst sample_pair)) = (s1, Applied)
     \<and> apply_control_event length_digest (mobile_background s1) (event_encode length_digest (fst sample_pair))
         = (mobile_background s1, DuplicateIdempotent)
     \<and> apply_control_event length_digest (mobile_background s1) (event_encode length_digest (snd sample_pair))
         = ((mobile_background s1)\<lparr>at_operations_paused := True\<rparr>, Apply_Conflict)"
proof -
  have "apply_control_event length_digest sample_attachment (event_encode length_digest (fst sample_pair))
      = effect length_digest sample_attachment (fst sample_pair)"
    by (intro apply_fresh sample_pair_ok(1))
      (simp_all add: sample_attachment_def attachment_new_def in_order_def sample_pair_def event_seal_def Let_def)
  moreover have "snd (effect length_digest sample_attachment (fst sample_pair)) = Applied"
    by (simp add: effect_applied sample_pair_def event_seal_def Let_def)
  ultimately obtain s1 where s1:
    "apply_control_event length_digest sample_attachment (event_encode length_digest (fst sample_pair)) = (s1, Applied)"
    by (metis prod.collapse)
  from control_event_applied_once [OF s1, of "[At_Background]" "event_encode length_digest (snd sample_pair)"] s1 sample_pair_ok(3,4)
  show ?thesis by (simp add: Let_def)
qed

text \<open>
  C38. The authoritative replay recovers. A page that continues the cursor is applied completely and in order:
  the replay ends unpaused with the effects of its events, the cursor advanced by their number, and every event
  recorded.
\<close>

theorem replay_recovers:
  assumes "cursor_continues sha s page"
  shows "\<exists>s'. reconcile_authoritative_replay sha s page = (s', Applied) \<and> \<not> at_operations_paused s'
     \<and> s' = (replayed sha s page)\<lparr>at_operations_paused := False\<rparr>
     \<and> at_last_applied_control_seq s' = at_last_applied_control_seq s + of_nat (length page)
     \<and> list_all (\<lambda>e. at_control_event_hashes s' (eh_event_id (ce_header e)) = Some (sha (event_encode sha e))) page"
  using reconcile_continues [OF assms] replayed_cursor [OF assms] by (simp add: list_all_iff)

theorem replay_recovers_witness:
  "\<exists>s'. reconcile_authoritative_replay (\<lambda>_. 0) (sample_attachment\<lparr>at_operations_paused := True\<rparr>) [sample_drain 1 5, sample_drain 2 6] = (s', Applied)
     \<and> \<not> at_operations_paused s' \<and> at_last_applied_control_seq s' = 2"
proof -
  have "cursor_continues (\<lambda>_. 0) (sample_attachment\<lparr>at_operations_paused := True\<rparr>) [sample_drain 1 5, sample_drain 2 6]"
    by (simp add: cursor_continues_def sample_attachment_def attachment_new_def sample_drain_ok)
  from replay_recovers [OF this] show ?thesis by (auto simp: sample_attachment_def attachment_new_def)
qed

text \<open>
  A gap in a replay page ends the pause. When the first event of a page continues the cursor and the next
  one does not, the replay reports the gap and yet leaves the attachment unpaused.
\<close>

theorem replay_gap_unpauses:
  assumes "cursor_continues sha s [e1]" and "at_control_event_hashes s (eh_event_id (ce_header e2)) = None"
    and "eh_event_id (ce_header e2) \<noteq> eh_event_id (ce_header e1)"
    and "eh_control_seq (ce_header e2) \<noteq> eh_control_seq (ce_header e1) + 1"
  shows "\<exists>s'. reconcile_authoritative_replay sha s [e1, e2] = (s', SequenceGap) \<and> \<not> at_operations_paused s'"
proof -
  note c = cursor_continues_Cons [OF assms(1)]
  let ?s = "fst (effect sha (s\<lparr>at_operations_paused := False\<rparr>) e1)"
  have "reconcile_authoritative_replay sha ?s [e2] = (?s, SequenceGap)"
    using assms(2-4) by (simp add: effect_fields Let_def)
  moreover have "\<not> at_operations_paused ?s" using c(5) by (simp add: effect_fields)
  ultimately show ?thesis using reconcile_Cons [OF c(1-5), of "[e2]"] by simp
qed

theorem replay_gap_unpauses_witness:
  "\<exists>s'. reconcile_authoritative_replay (\<lambda>_. 0) (sample_attachment\<lparr>at_operations_paused := True\<rparr>) [sample_drain 1 5, sample_drain 3 6] = (s', SequenceGap)
     \<and> \<not> at_operations_paused s'"
  by (rule replay_gap_unpauses)
    (simp_all add: cursor_continues_def sample_attachment_def attachment_new_def sample_drain_ok)

text \<open>
  An old event moves the cursor back. A validly encoded event that was not seen before is applied also when its
  sequence number lies below the cursor. The cursor then falls to it, and the event that was due next is
  refused as a gap and pauses operations.
\<close>

theorem old_event_regresses_cursor:
  assumes "event_ok sha e" and "at_control_event_hashes s (eh_event_id (ce_header e)) = None"
    and "in_order s e" and "tenant_consistent (ce_header e) (ce_payload e)"
    and "eh_control_seq (ce_header e) < at_last_applied_control_seq s" and "unat (at_last_applied_control_seq s) + 1 < 2 ^ 64"
    and "event_ok sha e'" and "at_control_event_hashes s (eh_event_id (ce_header e')) = None"
    and "eh_event_id (ce_header e') \<noteq> eh_event_id (ce_header e)"
    and "eh_control_seq (ce_header e') = at_last_applied_control_seq s + 1"
  shows "\<exists>s1 s2. apply_control_event sha s (event_encode sha e) = (s1, Applied)
     \<and> at_last_applied_control_seq s1 < at_last_applied_control_seq s
     \<and> apply_control_event sha s1 (event_encode sha e') = (s2, SequenceGap) \<and> at_operations_paused s2"
proof -
  let ?s1 = "fst (effect sha s e)" and ?c = "at_last_applied_control_seq s"
  have a: "apply_control_event sha s (event_encode sha e) = (?s1, Applied)"
    using apply_fresh [OF assms(1-3)] assms(4) by (simp add: prod_eq_iff effect_applied)
  have "unat (eh_control_seq (ce_header e)) < unat ?c" using assms(5) by (simp add: word_less_nat_alt)
  moreover have c1: "unat (?c + 1) = unat ?c + 1" using assms(6) by (simp add: unat_word_ariths)
  moreover have "unat (eh_control_seq (ce_header e) + 1) \<le> unat (eh_control_seq (ce_header e)) + 1"
    by (simp add: unat_word_ariths)
  ultimately have "eh_control_seq (ce_header e') > eh_control_seq (ce_header e) + 1"
    unfolding assms(10) word_less_nat_alt by linarith
  moreover have "at_control_event_hashes ?s1 (eh_event_id (ce_header e')) = None" using assms(8,9) by (simp add: effect_fields)
  ultimately have "apply_control_event sha ?s1 (event_encode sha e') = (?s1\<lparr>at_operations_paused := True\<rparr>, SequenceGap)"
    by (simp add: apply_control_event_def decode_encoded [OF assms(7)] Let_def effect_fields)
  with a assms(5) show ?thesis by (simp add: effect_fields)
qed

theorem old_event_regresses_cursor_witness:
  "\<exists>s1 s2. apply_control_event (\<lambda>_. 0) (sample_attachment\<lparr>at_last_applied_control_seq := 4\<rparr>) (event_encode (\<lambda>_. 0) (sample_drain 2 5)) = (s1, Applied)
     \<and> apply_control_event (\<lambda>_. 0) s1 (event_encode (\<lambda>_. 0) (sample_drain 5 6)) = (s2, SequenceGap) \<and> at_operations_paused s2"
  using old_event_regresses_cursor [of "\<lambda>_. 0" "sample_drain 2 5" "sample_attachment\<lparr>at_last_applied_control_seq := 4\<rparr>" "sample_drain 5 6"]
  by (auto simp: sample_drain_ok sample_attachment_def attachment_new_def in_order_def)

text \<open>
  C39. Reattaching ends with the whole outbox. A client at or past the compaction point that reattaches page by
  page, one request for every 256 events that wait and one more, receives every event after its cursor, in
  order and once, provided no payload exceeds 8192 bytes.
\<close>

theorem reattach_delivers_outbox:
  assumes "sorted_wrt (<) (map or_event_seq outbox)" and "list_all (\<lambda>e. length (or_canonical_payload e) \<le> 8192) outbox"
    and "compacted \<le> cursor"
  shows "reattach_all (length (after_cursor cursor outbox) div 256 + 2) cursor compacted high outbox
    = Some (map to_proto_event (after_cursor cursor outbox))"
proof -
  let ?n = "length (after_cursor cursor outbox)"
  have "?n \<le> 256 * (?n div 256 + 1)" by presburger
  from reattach_all_delivers [OF assms this, of high] show ?thesis by simp
qed

theorem reattach_delivers_outbox_witness:
  "reattach_all 2 1 0 9 [\<lparr>or_event_seq = 1, or_delivery_id = ''a'', or_kind = ''k'', or_canonical_payload = []\<rparr>,
       \<lparr>or_event_seq = 2, or_delivery_id = ''b'', or_kind = ''k'', or_canonical_payload = [7]\<rparr>]
   = Some [to_proto_event \<lparr>or_event_seq = 2, or_delivery_id = ''b'', or_kind = ''k'', or_canonical_payload = [7]\<rparr>]"
  using reattach_delivers_outbox [of "[\<lparr>or_event_seq = 1, or_delivery_id = ''a'', or_kind = ''k'', or_canonical_payload = []\<rparr>,
       \<lparr>or_event_seq = 2, or_delivery_id = ''b'', or_kind = ''k'', or_canonical_payload = [7]\<rparr>]" 0 1 9]
  by (simp add: after_cursor_def numeral_2_eq_2 del: reattach_all.simps)

text \<open>
  C40. An attachment writes leases in order. After any calls on a fresh attachment its member ids are distinct,
  and the children it writes into a lease are exactly its active and draining members in the strict order that
  the validation of a lease demands.
\<close>

theorem lease_children_in_order:
  "let s = foldl (attachment_step sha) (attachment_new i j) calls; cs = build_lease_children b64 s in
     distinct (member_ids s) \<and> children_sorted None cs
     \<and> mset (map lc_child_attempt_id cs)
        = mset (map cm_child_attempt_id (filter (\<lambda>c. cm_state c = Member_Active \<or> cm_state c = Member_Draining) (at_children s)))"
proof -
  let ?s = "foldl (attachment_step sha) (attachment_new i j) calls"
  let ?live = "filter (\<lambda>c. cm_state c = Member_Active \<or> cm_state c = Member_Draining) (at_children ?s)"
  have d: "distinct (member_ids ?s)"
    by (rule members.inv_run) (simp_all add: attachment_new_def member_ids_def list_all_iff)
  have ids: "map lc_child_attempt_id (build_lease_children b64 ?s) = map cm_child_attempt_id (sort_key cm_child_attempt_id ?live)"
    by (simp add: build_lease_children_def lease_active_children_def comp_def)
  have "distinct (map cm_child_attempt_id ?live)" using d by (simp add: member_ids_def distinct_map_filter)
  then have "distinct (map cm_child_attempt_id (sort_key cm_child_attempt_id ?live))" by (simp add: distinct_map)
  then have "sorted_wrt (<) (map cm_child_attempt_id (sort_key cm_child_attempt_id ?live))"
    using sorted_sort_key [of cm_child_attempt_id ?live] strict_sorted_iff by blast
  then have "children_sorted None (build_lease_children b64 ?s)" by (intro children_sorted_strict) (simp add: ids)
  moreover have "mset (map lc_child_attempt_id (build_lease_children b64 ?s)) = mset (map cm_child_attempt_id ?live)"
    unfolding ids by simp
  ultimately show ?thesis using d by (simp add: Let_def)
qed

text \<open>Revocation, barrier and the remaining boundaries.\<close>

theorem revocation_severs:
  assumes "apply_control_event sha s (event_encode sha e) = (s1, Applied)" and "event_ok sha e"
    and "payload_kind (ce_payload e) \<in> {Kind_DeviceRevoked, Kind_InstanceRevoked, Kind_AttachmentRevoked}"
  shows "count_open s1 = 0 \<and> at_current_lease_id s1 = None \<and> at_mobile_ui_state s1 = Ui_AccessRevoked \<and> member_ids s1 = member_ids s"
proof -
  have ids: "member_ids s1 = member_ids s" using apply_ids [of sha s "event_encode sha e"] assms(1) by simp
  have "s1 = sever (record_event s (ce_header e) (sha (event_encode sha e)))"
    using assms decode_encoded [OF assms(2)]
    by (cases "ce_payload e") (auto simp: apply_control_event_def Let_def control_event_byte_hash_def split: option.splits if_splits)
  then show ?thesis
    using ids by (auto simp: sever_def count_open_def close_open_def member_is_open_def filter_empty_conv)
qed

theorem barrier_reserves_consecutively:
  "barrier_reserved b rs = (if ba_operations_paused b then []
     else map (\<lambda>i. ba_next_operation_seq b + of_nat i) [0..<length (filter (\<lambda>r. fst r \<and> ba_current_lease_id b = Some (snd r)) rs)])"
  by (rule barrier_reserved_eq)

text \<open>An inconsistent authority change is refused after it was recorded, so the replay skips it and ends the pause.\<close>

lemma refused_event_is_acknowledged:
  assumes "event_ok sha e" and "at_control_event_hashes s (eh_event_id (ce_header e)) = None" and "in_order s e"
    and "\<not> tenant_consistent (ce_header e) (ce_payload e)"
  shows "\<exists>s1. apply_control_event sha s (event_encode sha e) = (s1, MalformedPayload) \<and> at_operations_paused s1
     \<and> reconcile_authoritative_replay sha s1 [e] = (s1\<lparr>at_operations_paused := False\<rparr>, Applied)"
proof -
  have "snd (effect sha s e) = MalformedPayload"
    using assms(4) unfolding effect_def by (cases "ce_payload e") auto
  then have a: "apply_control_event sha s (event_encode sha e) = (fst (effect sha s e), MalformedPayload)"
    using apply_fresh [OF assms(1-3)] by (simp add: prod_eq_iff)
  with \<open>snd (effect sha s e) = MalformedPayload\<close> show ?thesis
    by (simp add: effect_fields Let_def control_event_byte_hash_def)
qed

text \<open>The page is cut at 256 events only: more than two mebibytes in them fail every reattach from that cursor.\<close>

lemma reattach_large_page_fails:
  assumes "compacted \<le> cursor"
    and "sum_list (map (\<lambda>e. length (or_canonical_payload e)) (take 256 (after_cursor cursor outbox))) > 2 * 1024 * 1024"
  shows "process_reattach cursor compacted high outbox i bs = Inl ReplayPageExceedsBounds"
  using assms
  by (simp add: process_reattach_def after_cursor_def [symmetric] Let_def not_less validate_replay_page_def to_proto_event_def comp_def
      REMOTE_REPLAY_MAX_EVENTS_PER_PAGE_def REMOTE_REPLAY_MAX_BYTES_PER_PAGE_def split: sum.split)

end
