(* ===== verification/Spec2Isabelle.thy ===== *)
theory Spec2Isabelle
  imports Noise_Child Noise_Fallback Remote_Path Transfer_Reference Selection_Trace Staging_Runs
    Daemon_Continuity
begin

text \<open>
  A verification development of the remote session transport of FlyCockpit: the path by which a client reaches a
  session of a daemon over one or more physical connections, and the daemon's state behind it. File names below
  are relative to \<open>src/crates\<close>.

  \<^bold>\<open>The program.\<close> A logical message becomes a frame on one of three lanes. The scheduler queues frames, splits
  them into fragments and picks the next fragment by a fixed lane schedule. A lane endpoint puts fragments into
  records of its carrier, a WebRTC data channel or a WebSocket fallback. A Noise child encrypts records, rekeys
  each direction and, on the fallback, wraps them into acknowledged outer records. The receiver reassembles
  fragments and passes complete frames through a gate that keeps each stream in order. Large bodies travel as
  bulk transfers, which the daemon keeps in a staging area. Transport selection decides which children exist
  and which one carries a delivery. Session continuity keeps an attachment alive while children come and go:
  leases, signed control events, replay and recovery.

  \<^bold>\<open>Theories.\<close>

  \<^item> \<open>Remote_Prelude\<close>, \<open>Ordered_Store\<close>, \<open>Remote_Contracts\<close>: machine types, checked arithmetic, big-endian bytes
    and results; \<open>BTreeMap\<close> and \<open>HashMap\<close> as ascending entry lists behind the locale \<open>keyed_store\<close>; the
    contracts \<open>wire_codec\<close> (one spelling per value), \<open>guarded_machine\<close> (an invariant that every admissible step
    keeps), \<open>monotone_machine\<close> (a quantity that no step loses) and \<open>simulating_machine\<close> (a machine that answers
    like an abstract one and does not panic). Every component below interprets the
    contracts it meets, and its properties use the facts of these interpretations.
  \<^item> \<open>Noise_Record\<close>: \<open>cockpit-noise/src/\<close> \<open>record.rs\<close>, \<open>frame.rs\<close>, \<open>prologue.rs\<close>, \<open>lib.rs\<close>, the codecs.
    \<open>Noise_Rekey\<close>: \<open>rekey.rs\<close>, the reducer \<open>reduce\<close> of one direction. \<open>Noise_Fallback\<close>: \<open>fallback.rs\<close>, outer
    records and both windows. \<open>Noise_Child\<close>: \<open>core.rs\<close>, handshake, authorization, encryption and rekey actions
    of a child, over an abstract Noise library.
  \<^item> \<open>Remote_Lane\<close>, \<open>Remote_Frame\<close>, \<open>Remote_Fragment\<close>, \<open>Remote_Scheduler\<close>, \<open>Remote_Bulk\<close>, \<open>Remote_Endpoint\<close>:
    \<open>cockpit-proto/src/remote_transport/\<close> \<open>lane.rs\<close> with \<open>channel.rs\<close> and \<open>observability.rs\<close>, \<open>frame.rs\<close>,
    \<open>fragment.rs\<close>, \<open>scheduler.rs\<close>, \<open>bulk.rs\<close>, \<open>lane_io.rs\<close>. \<open>Remote_Path\<close> composes scheduler, endpoints and
    reassembler.
  \<^item> \<open>Wire_Scalar\<close>, \<open>Transfer_Reference\<close>: \<open>cockpit-proto/src/wire_scalar.rs\<close> and the references of \<open>bulk.rs\<close>.
  \<^item> \<open>Session_Continuity\<close>: \<open>cockpit-proto/src/remote_session_continuity.rs\<close>, leases, refreshes, control events
    and the recovery tables. \<open>Daemon_Continuity\<close>: \<open>cockpit-core/src/daemon/session_continuity.rs\<close> and
    \<open>control_replay.rs\<close>, the attachment that applies them.
  \<^item> \<open>Transport_Selection\<close>, \<open>Selection_Runs\<close>, \<open>Selection_Trace\<close>:
    \<open>cockpit-proto/src/remote_transport_selection.rs\<close> and \<open>cockpit-core/src/daemon/transport_selection.rs\<close>, the
    reducer \<open>selection_reduce\<close> with its eighteen inputs, what its runs guarantee, and golden traces.
  \<^item> \<open>Bulk_Staging\<close>, \<open>Staging_Runs\<close>: \<open>cockpit-core/src/daemon/bulk_staging.rs\<close> with
    \<open>cockpit-proto/src/bulk_transfer.rs\<close> and the staging limits of \<open>cockpit-core/src/resource_limits.rs\<close>.

  \<^bold>\<open>Correspondence.\<close> A struct is a record, an enum a datatype, a method with \<open>&mut self\<close> a function that returns the
  new state. \<open>Result\<close> is a sum with the error on the left. \<open>u8\<close> to \<open>u64\<close> are words that wrap as in a release build,
  \<open>usize\<close> is a natural number, \<open>[u8; 16]\<close> and \<open>[u8; 32]\<close> are words of 128 and 256 bits. A failed \<open>expect\<close>, index or
  slice is the value \<open>None\<close>, so that freedom from panics is stated and proved. Clocks and random identifiers are
  arguments. SHA-256, base64 and the Noise library \<open>snow\<close> are parameters; a theorem that needs more of them
  than that they are functions names what it needs as a hypothesis.

  \<^bold>\<open>What is shown.\<close>

  \<^item> Delivery: frames that are admitted arrive on their stream, completely and in order, through scheduler,
    endpoints and reassembler (this theory, \<open>Remote_Path\<close>); fragments may arrive in any order and repeatedly;
    an encrypted channel and the fallback window deliver in order; staged and pulled bodies come back unchanged.
  \<^item> Safety: sequence numbers are never reused across rekeys; no transport without authorization; only granted
    kinds of children are started; nothing moves after a cancel; control events are applied once, and a pause
    ends only through the authoritative replay; staged bodies reach only their owner.
  \<^item> Bounds: queues, windows, reassembly buffers, retries and staging quotas stay within their limits whatever
    a peer sends.
  \<^item> Progress: a writable lane is served within four turns, the scheduler drains, transfers complete, a replay
    page recovers, and reattaching ends with the whole outbox. The rekey exchange completes for the reducers
    alone and is refused in the composed child (\<open>Noise_Rekey\<close>).
  \<^item> Refinement: a pair of endpoints answers like two queues of fragments without carriers, and the retirement
    cursor of a lane is a set of retired streams.
  \<^item> Codecs: every binary format accepts exactly one spelling of each value.
  \<^item> Boundaries: where the code does not do what its documentation says, a theorem states the behaviour it has,
    for instance \<open>rekey_prepare_refused_after_admission\<close>, \<open>child_repeated_commit_rekeys_twice\<close>,
    \<open>failed_replacement_carries_traffic\<close>, \<open>replay_gap_unpauses\<close>,
    \<open>old_event_regresses_cursor\<close>, \<open>refused_event_is_acknowledged\<close>, \<open>stage_zero_id_keeps_reservation\<close>.

  \<^bold>\<open>Bounds of the model.\<close> Every loop is a terminating function; the few counters of calls in statements are part of
  the claim, as the number of reattach requests in \<open>reattach_all\<close>, which is enough because a page holds 256
  events. \<open>Remote_Path\<close> assumes at most 15 open streams, since 16 frames of the largest size exceed the receiver's
  8 MiB. Staged bodies are shorter than \<open>2 ^ 63\<close> bytes, as every \<open>Vec\<close> of the language is.

  \<^bold>\<open>Not modelled.\<close> The asynchronous tasks, sockets, timers and locks around these state machines (\<open>cockpit-core\<close>,
  \<open>cockpit-client\<close>, \<open>cockpit-host\<close>): they are I/O, and each operation modelled here runs under one lock or on one
  task. The foreign-function surface of the Noise crate. JSON shapes derived by \<open>serde\<close>, with the request, response
  and event types, relay envelopes and identity or policy documents built from them, since \<open>serde\<close> and JOSE are
  third-party code. The classification of requests to lanes, which is a table over those types. The database,
  configuration, agent engine and user interfaces.
\<close>

section \<open>End to end\<close>

text \<open>
  C1. Frames arrive. Frames are admitted by the sender's scheduler and sent in whatever interleaving of
  queueing, sending and lane stalls until nothing is pending. Their fragments cross a pair of endpoints of
  any carrier kinds and reach the peer's reassembler, each before its frame's deadline. Then the frames the
  receiver hands over on every stream of every lane are exactly the frames admitted on that stream, in
  order.
\<close>

theorem transport_delivers_streams:
  assumes "sched_turns sha (scheduler_new limits) turns = (s, admitted, outgoing)" and "\<not> has_pending s"
    and "sendable origin admitted" and "length clock = length outgoing"
    and "prompt REASSEMBLY_DEADLINE_MS (zip (map (\<lambda>r. fg_frame_id (sr_fragment r)) outgoing) clock)"
  shows "\<exists>gs. carry (set_peer_seen_through (endpoint_new k) w) (set_peer_seen_through (endpoint_new k') w')
        (map sr_fragment outgoing) = Some (Inr gs)
    \<and> (\<forall>lane i. on_stream lane i (snd (reassembler_run iter sha (reassembler_new origin) (zip gs clock)))
          = on_stream lane i admitted)"
proof -
  have "list_all frame_ok admitted" using assms(3) by (simp add: sendable_def)
  then have ok: "list_all fragment_ok (map sr_fragment outgoing)" by (rule sent_fragments_ok [OF assms(1,2)])
  have "carry (set_peer_seen_through (endpoint_new k) w) (set_peer_seen_through (endpoint_new k') w') (map sr_fragment outgoing)
      = Some (Inr (map sr_fragment outgoing))"
    using ok by (intro carry_ok) (auto simp: holds_def set_peer_seen_through_def endpoint_new_def list_all_iff)
  moreover have "\<forall>lane i. on_stream lane i (snd (reassembler_run iter sha (reassembler_new origin) (zip (map sr_fragment outgoing) clock)))
      = on_stream lane i admitted"
    using receiver_delivers [OF assms(3) sent_all [OF assms(1,2)] assms(4,5)] by blast
  ultimately show ?thesis by blast
qed

text \<open>One frame of one fragment, queued and sent.\<close>

lemma sample_path:
  obtains s r where "sched_turns (\<lambda>_. 0) (scheduler_new LIMITS_DEFAULT) [Turn_Queue (sample_frame 3), Turn_Send True]
      = (s, [sample_frame 3], [r])" "\<not> has_pending s"
proof -
  let ?f = "sample_frame 3"
  have ok: "frame_ok ?f" by (simp add: sample_frame_ok)
  obtain s1 where e: "enqueue (\<lambda>_. 0) (scheduler_new LIMITS_DEFAULT) ?f = (s1, Enqueued)"
    using sample_frame_enqueued [of 3] by (cases "enqueue (\<lambda>_. 0) (scheduler_new LIMITS_DEFAULT) ?f") simp
  have inv: "sc_inv s1" using enqueue_ok(1) [OF sc_inv_new e] .
  have ready: "lane_ready s1 Lane_Bulk" using sample_lane_ready e by simp
  obtain s2 q where nf: "next_fragment s1 = (s2, q)" by fastforce
  then obtain r where q: "q = Some r"
    using next_fragment_None(1) [OF inv, of s2 Lane_Bulk] ready by (cases q) auto
  have turns: "sched_turns (\<lambda>_. 0) (scheduler_new LIMITS_DEFAULT) [Turn_Queue ?f, Turn_Send True] = (s2, [?f], [r])"
    using e nf q by simp
  obtain bs where bs: "frame_encode (\<lambda>_. 0) ?f = Inr bs" "length bs = 75" using sample_frame_bytes [of 3] by auto
  obtain n where "(n - 1) * 65471 < length bs" "1 \<le> n"
    and eq: "fragment_frame Lane_Bulk 9 bs = Inr (map (fragment_at Lane_Bulk 9 bs (of_nat n)) [0..<n])"
    using fragment_frame_eq [OF frame_bytes_bound [OF ok bs(1)], of Lane_Bulk 9] by metis
  then have "n = 1" using bs(2) by simp
  then have one: "length (fragments_of (\<lambda>_. 0) ?f) = 1"
    using bs(1) eq by (simp add: fragments_of_def sample_frame_def)
  have split: "queued_on (\<lambda>_. 0) lane i [?f] = sent_on lane i [r] @ waiting s2 lane i" for lane i
    using sched_turns_order [OF sc_inv_new turns, of lane i] by (simp add: waiting_def content_def scheduler_new_def)
  have mine: "sr_lane r = Lane_Bulk \<and> sr_stream_id r = 2"
    using split [of "sr_lane r" "sr_stream_id r"] by (auto simp: queued_on_def sent_on_def sample_frame_def split: if_splits)
  have "waiting s2 lane i = []" for lane i
    using arg_cong [OF split, of length lane i] mine one
    by (auto simp: queued_on_def sent_on_def sample_frame_def split: if_splits)
  then have "\<not> has_pending s2"
    using next_inv [OF inv nf] by (auto simp: has_pending_def lane_ALL_def sc_inv_def lq_inv_def waiting_def simp flip: set_empty)
  with turns show thesis by (rule that)
qed

theorem transport_delivers_streams_witness:
  "\<exists>s r gs. sched_turns (\<lambda>_. 0) (scheduler_new LIMITS_DEFAULT) [Turn_Queue (sample_frame 3), Turn_Send True]
       = (s, [sample_frame 3], [r])
     \<and> carry (set_peer_seen_through (endpoint_new WebSocketFallback) 7) (set_peer_seen_through (endpoint_new WebRtcDataChannel) 0)
       [sr_fragment r] = Some (Inr gs)
     \<and> on_stream Lane_Bulk 2 (snd (reassembler_run id (\<lambda>_. 0) (reassembler_new Origin_Client) (zip gs [100]))) = [sample_frame 3]"
proof -
  obtain s r where t: "sched_turns (\<lambda>_. 0) (scheduler_new LIMITS_DEFAULT) [Turn_Queue (sample_frame 3), Turn_Send True]
      = (s, [sample_frame 3], [r])" "\<not> has_pending s" by (rule sample_path)
  have "sendable Origin_Client [sample_frame 3]"
    using sample_frame_ok [of 3]
    by (simp add: sendable_def sample_frame_def stream_valid_def validate_stream_id_def origin_of_stream_id_def
        CONTROL_STREAM_ID_def stream_ordinal_def MAX_OUTSTANDING_STREAM_IDS_def numbered_def on_stream_def)
  from transport_delivers_streams [OF t this, of "[100]" WebSocketFallback 7 WebRtcDataChannel 0 id]
  obtain gs where "carry (set_peer_seen_through (endpoint_new WebSocketFallback) 7)
      (set_peer_seen_through (endpoint_new WebRtcDataChannel) 0) [sr_fragment r] = Some (Inr gs)"
    "on_stream Lane_Bulk 2 (snd (reassembler_run id (\<lambda>_. 0) (reassembler_new Origin_Client) (zip gs [100])))
      = on_stream Lane_Bulk 2 [sample_frame 3]" by auto
  moreover have "on_stream Lane_Bulk 2 [sample_frame 3] = [sample_frame 3]" by (simp add: on_stream_def sample_frame_def)
  ultimately show ?thesis
    using t(1) by (intro exI [of _ s] exI [of _ r] exI [of _ gs]) simp
qed

section \<open>Wire formats\<close>

text \<open>
  C2. Every binary format has one spelling per value. For transport frames, carrier fragments, fallback
  outer records, bulk messages and control events: a byte string decodes to a value exactly when the value
  is well formed and encodes to that byte string, and every well-formed value encodes and decodes back.
\<close>

theorem wire_formats_exact:
  "(frame_decode sha bs = Inr f \<longleftrightarrow> frame_ok f \<and> frame_encode sha f = Inr bs)
   \<and> (frame_ok f \<longrightarrow> (\<exists>out. frame_encode sha f = Inr out \<and> frame_decode sha out = Inr f))
   \<and> (fragment_decode bs = Inr g \<longleftrightarrow> fragment_ok g \<and> fragment_encode g = Inr bs)
   \<and> (fragment_ok g \<longrightarrow> (\<exists>out. fragment_encode g = Inr out \<and> fragment_decode out = Inr g))
   \<and> (outer_decode bs = Inr r \<longleftrightarrow> outer_ok r \<and> outer_encode r = Inr bs)
   \<and> (outer_ok r \<longrightarrow> (\<exists>out. outer_encode r = Inr out \<and> outer_decode out = Inr r))
   \<and> (bulk_decode bs = Inr m \<longleftrightarrow> bulk_ok m \<and> bulk_encode m = Inr bs)
   \<and> (bulk_ok m \<longrightarrow> (\<exists>out. bulk_encode m = Inr out \<and> bulk_decode out = Inr m))
   \<and> (event_decode sha bs = Inr e \<longleftrightarrow> event_ok sha e \<and> event_encode sha e = bs)
   \<and> (event_ok sha e \<longrightarrow> event_decode sha (event_encode sha e) = Inr e)"
  by (intro conjI impI frame_codec.dec_iff fragment_codec.dec_iff outer_codec.dec_iff bulk_codec.dec_iff
      frame_codec.roundtrip fragment_codec.roundtrip outer_codec.roundtrip bulk_codec.roundtrip event_decode_encode)
    (use event_codec.dec_iff [of sha bs e] in simp_all)

text \<open>A sealed drain event.\<close>

definition sample_event :: control_event where
  "sample_event = event_seal (\<lambda>_. 0) 1 2 3 4 5 6 (Ev_Drain 7 8)"

theorem wire_formats_exact_witness:
  "event_decode (\<lambda>_. 0) (event_encode (\<lambda>_. 0) sample_event) = Inr sample_event
   \<and> (\<exists>out. frame_encode (\<lambda>_. 0) (sample_frame 3) = Inr out \<and> frame_decode (\<lambda>_. 0) out = Inr (sample_frame 3))"
proof -
  have "event_ok (\<lambda>_. 0) sample_event" by (simp add: sample_event_def event_seal_ok)
  moreover have "frame_ok (sample_frame 3)" by (simp add: sample_frame_ok)
  ultimately show ?thesis
    using wire_formats_exact [of "\<lambda>_. 0" "[]" "sample_frame 3" undefined undefined undefined sample_event] by blast
qed

end
